(* ===== verification/NTFS_Prelude.thy ===== *)
theory NTFS_Prelude
  imports Main "HOL-Library.Word" "HOL-Library.Monad_Syntax"
begin

text \<open>
  Shared vocabulary of the development: the error codes of the kernel extension, the
  machine types, and the memory model.

  A buffer of the C code is a list. An operation that reads or writes it returns an
  \<open>option\<close>: \<open>None\<close> means that the kernel does not come back from the call, because
  the code called \<open>panic()\<close> or touched memory outside the object. Everything else,
  the error returns included, is a value under \<open>Some\<close>: an \<open>errno_t\<close> result is a
  value of type \<open>errno\<close>, with \<open>EOK\<close> for 0, paired with the memory the call leaves behind.
\<close>

section \<open>Machine types and error codes\<close>

type_synonym u8 = "8 word"
type_synonym u16 = "16 word"
type_synonym u32 = "32 word"
type_synonym u64 = "64 word"

datatype errno = EOK | ENOENT | EIO | ENOMEM | EINVAL | ENOSPC | ERANGE | EOVERFLOW | ENOTSUP

text \<open>
  \<open>s64 x\<close> is the value a signed 64-bit variable holds after \<open>x\<close> has been stored in it
  (two's complement wrap-around), \<open>s8 x\<close> the same for a signed byte.
\<close>

definition s64 :: "int \<Rightarrow> int" where
  "s64 x = signed_take_bit 63 x"

definition s8 :: "int \<Rightarrow> int" where
  "s8 x = signed_take_bit 7 x"

text \<open>The same for an \<open>unsigned\<close> that holds a count, which the model keeps as a natural number.\<close>

definition uwrap :: "nat \<Rightarrow> nat" where
  "uwrap n = n mod 2 ^ 32"

lemma uwrap_id [simp]: "n < 2 ^ 32 \<Longrightarrow> uwrap n = n"
  by (simp add: uwrap_def)

text \<open>A difference of two such counts.\<close>

definition usub :: "nat \<Rightarrow> nat \<Rightarrow> nat" where
  "usub m n = uwrap (2 ^ 32 + m - n)"

lemma usub_le: "n \<le> m \<Longrightarrow> m < 2 ^ 32 \<Longrightarrow> usub m n = m - n"
proof -
  assume "n \<le> m" "m < 2 ^ 32"
  then have "2 ^ 32 + m - n = (m - n) + 2 ^ 32" by simp
  then show ?thesis using \<open>m < 2 ^ 32\<close> unfolding usub_def uwrap_def by (simp only: mod_add_self2) simp
qed

lemma usub_gt: "m < n \<Longrightarrow> n < 2 ^ 32 \<Longrightarrow> usub m n = 2 ^ 32 - (n - m)"
  by (simp add: usub_def uwrap_def)

abbreviation in_s64 :: "int \<Rightarrow> bool" where
  "in_s64 x \<equiv> - (2 ^ 63) \<le> x \<and> x < 2 ^ 63"

lemma s64_id [simp]: "in_s64 x \<Longrightarrow> s64 x = x"
  unfolding s64_def by (rule signed_take_bit_int_eq_self) simp_all

section \<open>Arrays in memory\<close>

text \<open>The facts that compute with buffers.\<close>

named_theorems mem_simps

definition rd :: "'a list \<Rightarrow> nat \<Rightarrow> 'a option" where
  "rd xs i = (if i < length xs then Some (xs ! i) else None)"

definition wr :: "'a list \<Rightarrow> nat \<Rightarrow> 'a \<Rightarrow> 'a list option" where
  "wr xs i v = (if i < length xs then Some (xs[i := v]) else None)"

text \<open>
  \<open>memcpy\<close> of \<open>n\<close> elements between two arrays, and \<open>memmove\<close> inside one array.
  An empty copy touches nothing.
\<close>

definition copy_els :: "'a list \<Rightarrow> nat \<Rightarrow> 'a list \<Rightarrow> nat \<Rightarrow> nat \<Rightarrow> 'a list option" where
  "copy_els dst di src si n =
     (if n = 0 then Some dst
      else if di + n \<le> length dst \<and> si + n \<le> length src
      then Some (take di dst @ take n (drop si src) @ drop (di + n) dst)
      else None)"

definition move_els :: "'a list \<Rightarrow> nat \<Rightarrow> nat \<Rightarrow> nat \<Rightarrow> 'a list option" where
  "move_els xs di si n = copy_els xs di xs si n"

lemma rd_Some [mem_simps]: "i < length xs \<Longrightarrow> rd xs i = Some (xs ! i)"
  by (simp add: rd_def)

lemma wr_Some [mem_simps]: "i < length xs \<Longrightarrow> wr xs i v = Some (xs[i := v])"
  by (simp add: wr_def)

lemma rd_eq_Some_iff: "rd xs i = Some v \<longleftrightarrow> i < length xs \<and> v = xs ! i"
  by (auto simp: rd_def)

lemma wr_eq_Some_iff: "wr xs i v = Some ys \<longleftrightarrow> i < length xs \<and> ys = xs[i := v]"
  by (auto simp: wr_def)

lemma rd_None [mem_simps]: "length xs \<le> i \<Longrightarrow> rd xs i = None"
  by (simp add: rd_def)

lemma wr_None [mem_simps]: "length xs \<le> i \<Longrightarrow> wr xs i v = None"
  by (simp add: wr_def)

text \<open>The same facts with the element at hand: an array split around the position.\<close>

lemma rd_append [mem_simps]: "i = length xs \<Longrightarrow> rd (xs @ y # ys) i = Some y"
  by (simp add: rd_def)

lemma wr_append [mem_simps]: "i = length xs \<Longrightarrow> wr (xs @ y # ys) i v = Some (xs @ v # ys)"
  by (simp add: wr_def)

lemma copy_els_append [mem_simps]:
  "di = length xs \<Longrightarrow> n = length ys \<Longrightarrow> n = length ss \<Longrightarrow> si = length ps \<Longrightarrow>
   copy_els (xs @ ys @ zs) di (ps @ ss @ qs) si n = Some (xs @ ss @ zs)"
  by (cases "ss = []") (auto simp: copy_els_def)

lemma length_copy_els: "copy_els dst di src si n = Some ys \<Longrightarrow> length ys = length dst"
  by (auto simp: copy_els_def split: if_splits)

text \<open>\<open>bzero\<close>.\<close>

definition bzero :: "u8 list \<Rightarrow> nat \<Rightarrow> nat \<Rightarrow> u8 list option" where
  "bzero mem i n = copy_els mem i (replicate n 0) 0 n"

lemma bzero_append [mem_simps]:
  "i = length xs \<Longrightarrow> n \<le> length ys \<Longrightarrow> bzero (xs @ ys) i n = Some (xs @ replicate n 0 @ drop n ys)"
  by (auto simp: bzero_def copy_els_def)

section \<open>Numbers in memory\<close>

text \<open>Little endian numbers of 16, 32 and 64 bits at an offset of a byte buffer.\<close>

definition rd16 :: "u8 list \<Rightarrow> nat \<Rightarrow> nat option" where
  "rd16 mem i = do { a \<leftarrow> rd mem i; b \<leftarrow> rd mem (i + 1); Some (unat a + 256 * unat b) }"

definition rd32 :: "u8 list \<Rightarrow> nat \<Rightarrow> nat option" where
  "rd32 mem i = do { a \<leftarrow> rd16 mem i; b \<leftarrow> rd16 mem (i + 2); Some (a + 65536 * b) }"

definition rd64 :: "u8 list \<Rightarrow> nat \<Rightarrow> int option" where
  "rd64 mem i = do { a \<leftarrow> rd32 mem i; b \<leftarrow> rd32 mem (i + 4); Some (s64 (int a + 4294967296 * int b)) }"

end
