(* ===== verification/NTFS_Upcase.thy ===== *)
theory NTFS_Upcase
  imports NTFS_Prelude
begin

text \<open>
  The upcase table the driver generates, \<open>ntfs_upcase_table_generate\<close> of \<open>kext/ntfs_unistr.c\<close>:
  the three static tables, the loops that apply them to the identity table, and a proof that
  every character of the result is its own upper case.

  The proof reads the table as a function of the static tables. No character is in two of
  their runs, so that one rule decides about each character, and no rule leads to a
  character that another rule changes; both are checked by computation on the runs.
\<close>

section \<open>The upcase table\<close>

text \<open>The three static tables of \<open>ntfs_upcase_table_generate\<close>, without their terminators.\<close>

definition uc_add :: "(int \<times> int \<times> int) list" where
  "uc_add = [
     (0x0061, 0x007b, - 32), (0x00e0, 0x00f7, - 32), (0x00f8, 0x00ff, - 32), (0x0256, 0x0258, - 205),
     (0x028a, 0x028c, - 217), (0x037b, 0x037e, 130), (0x03ac, 0x03ad, - 38), (0x03ad, 0x03b0, - 37),
     (0x03b1, 0x03c2, - 32), (0x03c2, 0x03c3, - 31), (0x03c3, 0x03cc, - 32), (0x03cc, 0x03cd, - 64),
     (0x03cd, 0x03cf, - 63), (0x0430, 0x0450, - 32), (0x0450, 0x0460, - 80), (0x0561, 0x0587, - 48),
     (0x1f00, 0x1f08, 8), (0x1f10, 0x1f16, 8), (0x1f20, 0x1f28, 8), (0x1f30, 0x1f38, 8),
     (0x1f40, 0x1f46, 8), (0x1f51, 0x1f52, 8), (0x1f53, 0x1f54, 8), (0x1f55, 0x1f56, 8),
     (0x1f57, 0x1f58, 8), (0x1f60, 0x1f68, 8), (0x1f70, 0x1f72, 74), (0x1f72, 0x1f76, 86),
     (0x1f76, 0x1f78, 100), (0x1f78, 0x1f7a, 128), (0x1f7a, 0x1f7c, 112), (0x1f7c, 0x1f7e, 126),
     (0x1f80, 0x1f88, 8), (0x1f90, 0x1f98, 8), (0x1fa0, 0x1fa8, 8), (0x1fb0, 0x1fb2, 8),
     (0x1fb3, 0x1fb4, 9), (0x1fcc, 0x1fcd, - 9), (0x1fd0, 0x1fd2, 8), (0x1fe0, 0x1fe2, 8),
     (0x1fe5, 0x1fe6, 7), (0x1ffc, 0x1ffd, - 9), (0x2170, 0x2180, - 16), (0x24d0, 0x24ea, - 26),
     (0x2c30, 0x2c5f, - 48), (0x2d00, 0x2d26, - 7264), (0xff41, 0xff5b, - 32)]"

definition uc_skip_dec :: "(int \<times> int) list" where
  "uc_skip_dec = [
     (0x0100, 0x012f), (0x0132, 0x0137), (0x0139, 0x0149), (0x014a, 0x0178), (0x0179, 0x017e), (0x01a0, 0x01a6),
     (0x01b3, 0x01b7), (0x01cd, 0x01dd), (0x01de, 0x01ef), (0x01f4, 0x01f5), (0x01f8, 0x01f9), (0x01fa, 0x0220),
     (0x0222, 0x0234), (0x023b, 0x023c), (0x0241, 0x0242), (0x0246, 0x024f), (0x03d8, 0x03ef), (0x03f7, 0x03f8),
     (0x03fa, 0x03fb), (0x0460, 0x0481), (0x048a, 0x04bf), (0x04c1, 0x04c4), (0x04c5, 0x04c8), (0x04c9, 0x04ce),
     (0x04ec, 0x04ed), (0x04d0, 0x04eb), (0x04ee, 0x04f5), (0x04f6, 0x0513), (0x1e00, 0x1e95), (0x1ea0, 0x1ef9),
     (0x2183, 0x2184), (0x2c60, 0x2c61), (0x2c67, 0x2c6c), (0x2c75, 0x2c76), (0x2c80, 0x2ce3)]"

definition uc_set :: "(int \<times> int) list" where
  "uc_set = [
     (0x00ff, 0x0178), (0x0180, 0x0243), (0x0183, 0x0182), (0x0185, 0x0184), (0x0188, 0x0187), (0x018c, 0x018b),
     (0x0192, 0x0191), (0x0195, 0x01f6), (0x0199, 0x0198), (0x019a, 0x023d), (0x019e, 0x0220), (0x01a8, 0x01a7),
     (0x01ad, 0x01ac), (0x01b0, 0x01af), (0x01b9, 0x01b8), (0x01bd, 0x01bc), (0x01bf, 0x01f7), (0x01c6, 0x01c4),
     (0x01c9, 0x01c7), (0x01cc, 0x01ca), (0x01dd, 0x018e), (0x01f3, 0x01f1), (0x023a, 0x2c65), (0x023e, 0x2c66),
     (0x0253, 0x0181), (0x0254, 0x0186), (0x0259, 0x018f), (0x025b, 0x0190), (0x0260, 0x0193), (0x0263, 0x0194),
     (0x0268, 0x0197), (0x0269, 0x0196), (0x026b, 0x2c62), (0x026f, 0x019c), (0x0272, 0x019d), (0x0275, 0x019f),
     (0x027d, 0x2c64), (0x0280, 0x01a6), (0x0283, 0x01a9), (0x0288, 0x01ae), (0x0289, 0x0244), (0x028c, 0x0245),
     (0x0292, 0x01b7), (0x03f2, 0x03f9), (0x04cf, 0x04c0), (0x1d7d, 0x2c63), (0x214e, 0x2132)]"

text \<open>The loops over the table \<open>uc\<close>, and over one run of each static table.\<close>

function uc_identity :: "u16 list \<Rightarrow> nat \<Rightarrow> nat \<Rightarrow> u16 list option" where
  "uc_identity uc n i =
     (if i < n then do { uc \<leftarrow> wr uc i (word_of_nat i); uc_identity uc n (i + 1) } else Some uc)"
  by pat_completeness auto
termination
  by (relation "measure (\<lambda>(uc, n, i). n - i)") auto

function uc_add_run :: "u16 list \<Rightarrow> nat \<Rightarrow> nat \<Rightarrow> int \<Rightarrow> u16 list option" where
  "uc_add_run uc i e a =
     (if i < e then do { v \<leftarrow> rd uc i; uc \<leftarrow> wr uc i (v + word_of_int a); uc_add_run uc (i + 1) e a }
      else Some uc)"
  by pat_completeness auto
termination
  by (relation "measure (\<lambda>(uc, i, e, a). e - i)") auto

function uc_dec_run :: "u16 list \<Rightarrow> nat \<Rightarrow> nat \<Rightarrow> u16 list option" where
  "uc_dec_run uc i e =
     (if i < e then do { v \<leftarrow> rd uc (i + 1); uc \<leftarrow> wr uc (i + 1) (v - 1); uc_dec_run uc (i + 2) e }
      else Some uc)"
  by pat_completeness auto
termination
  by (relation "measure (\<lambda>(uc, i, e). e - i)") auto

declare uc_identity.simps [simp del] uc_add_run.simps [simp del] uc_dec_run.simps [simp del]

fun uc_adds :: "(int \<times> int \<times> int) list \<Rightarrow> u16 list \<Rightarrow> u16 list option" where
  "uc_adds [] uc = Some uc"
| "uc_adds ((s, e, a) # rs) uc = do { uc \<leftarrow> uc_add_run uc (nat s) (nat e) a; uc_adds rs uc }"

fun uc_decs :: "(int \<times> int) list \<Rightarrow> u16 list \<Rightarrow> u16 list option" where
  "uc_decs [] uc = Some uc"
| "uc_decs ((s, e) # rs) uc = do { uc \<leftarrow> uc_dec_run uc (nat s) (nat e); uc_decs rs uc }"

fun uc_sets :: "(int \<times> int) list \<Rightarrow> u16 list \<Rightarrow> u16 list option" where
  "uc_sets [] uc = Some uc"
| "uc_sets ((i, v) # rs) uc = do { uc \<leftarrow> wr uc (nat i) (word_of_int v); uc_sets rs uc }"

text \<open>The size is in bytes; \<open>bzero\<close> clears the table before it is filled.\<close>

definition ntfs_upcase_table_generate :: "u16 list \<Rightarrow> nat \<Rightarrow> u16 list option" where
  "ntfs_upcase_table_generate uc uc_size = do {
     let n = uc_size div 2;
     uc \<leftarrow> copy_els uc 0 (replicate n 0) 0 n;
     uc \<leftarrow> uc_identity uc n 0;
     uc \<leftarrow> uc_adds uc_add uc;
     uc \<leftarrow> uc_decs uc_skip_dec uc;
     uc_sets uc_set uc }"

section \<open>The generated table\<close>

text \<open>The table as a function, from the three static tables.\<close>

definition in_add :: "int \<Rightarrow> int \<times> int \<times> int \<Rightarrow> bool" where
  "in_add j r = (case r of (s, e, a) \<Rightarrow> s \<le> j \<and> j < e)"

definition in_dec :: "int \<Rightarrow> int \<times> int \<Rightarrow> bool" where
  "in_dec j r = (case r of (s, e) \<Rightarrow> s < j \<and> j \<le> e \<and> odd (j - s))"

lemma uc_identity_eq:
  assumes "n \<le> length uc" "i \<le> n"
  shows "uc_identity uc n i = Some (take i uc @ map word_of_nat [i..<n] @ drop n uc)"
  using assms(2,1)
proof (induction i arbitrary: uc rule: inc_induct)
  case base
  then show ?case by (simp add: uc_identity.simps [of _ n n])
next
  case (step i)
  then show ?case
    by (subst uc_identity.simps)
      (simp add: wr_def upt_conv_Cons take_Suc_conv_app_nth [of i "uc[i := word_of_nat i]"])
qed

lemma uc_add_run_eq:
  assumes "e \<le> length uc" "i \<le> e"
  shows "\<exists>uc'. uc_add_run uc i e a = Some uc' \<and> length uc' = length uc \<and>
    (\<forall>j < length uc. uc' ! j = uc ! j + (if i \<le> j \<and> j < e then word_of_int a else 0))"
  using assms(2,1)
proof (induction i arbitrary: uc rule: inc_induct)
  case base
  then show ?case by (subst uc_add_run.simps) auto
next
  case (step i)
  let ?uc = "uc[i := uc ! i + word_of_int a]"
  from step.IH [of ?uc] step.prems obtain uc' where uc': "uc_add_run ?uc (Suc i) e a = Some uc'" "length uc' = length uc"
    "\<forall>j < length uc. uc' ! j = ?uc ! j + (if Suc i \<le> j \<and> j < e then word_of_int a else 0)" by auto
  have "uc_add_run uc i e a = Some uc'" using uc'(1) step by (subst uc_add_run.simps) (simp add: rd_def wr_def)
  moreover have "\<forall>j < length uc. uc' ! j = uc ! j + (if i \<le> j \<and> j < e then word_of_int a else 0)"
    using uc'(3) step.hyps by (auto simp: nth_list_update le_less Suc_le_eq)
  ultimately show ?case using uc'(2) by blast
qed

lemma uc_dec_run_eq:
  assumes "e < length uc"
  shows "\<exists>uc'. uc_dec_run uc i e = Some uc' \<and> length uc' = length uc \<and>
    (\<forall>j < length uc. uc' ! j = uc ! j - (if in_dec (int j) (int i, int e) then 1 else 0))"
  using assms
proof (induction uc i e rule: uc_dec_run.induct)
  case (1 uc i e)
  show ?case
  proof (cases "i < e")
    case True
    let ?uc = "uc[i + 1 := uc ! (i + 1) - 1]"
    have "rd uc (i + 1) = Some (uc ! (i + 1))" "wr uc (i + 1) (uc ! (i + 1) - 1) = Some ?uc" "e < length ?uc"
      using True 1(2) by (simp_all add: rd_def wr_def)
    from 1(1) [OF True this] obtain uc' where uc': "uc_dec_run ?uc (i + 2) e = Some uc'" "length uc' = length uc"
      "\<forall>j < length uc. uc' ! j = ?uc ! j - (if in_dec (int j) (int (i + 2), int e) then 1 else 0)"
      by auto
    have "uc_dec_run uc i e = Some uc'" using uc'(1) True 1(2) by (subst uc_dec_run.simps) (simp add: rd_def wr_def)
    moreover have step: "in_dec (int j) (int i, int e) \<longleftrightarrow> j = i + 1 \<or> in_dec (int j) (int (i + 2), int e)" for j
    proof (cases "j \<le> i + 2")
      case True
      then consider "j \<le> i" | "j = i + 1" | "j = i + 2" by linarith
      then show ?thesis using \<open>i < e\<close> by cases (auto simp: in_dec_def)
    next
      case False
      have "int j - int i = int j - int (i + 2) + 2" by simp
      then have "odd (int j - int i) \<longleftrightarrow> odd (int j - int (i + 2))" by presburger
      then show ?thesis using False by (auto simp: in_dec_def)
    qed
    moreover have "uc' ! j = uc ! j - (if in_dec (int j) (int i, int e) then 1 else 0)" if "j < length uc" for j
    proof (cases "j = i + 1")
      case True
      then have "\<not> in_dec (int j) (int (i + 2), int e)" by (simp add: in_dec_def)
      then show ?thesis using uc'(3) that True step [of j] by simp
    next
      case False
      then show ?thesis using uc'(3) that step [of j] by simp
    qed
    ultimately show ?thesis using uc'(2) by blast
  next
    case False
    then show ?thesis by (subst uc_dec_run.simps) (auto simp: in_dec_def)
  qed
qed

lemma uc_adds_eq:
  assumes "\<forall>(s, e, a) \<in> set rs. 0 \<le> s \<and> s \<le> e \<and> e \<le> int (length uc)"
  shows "\<exists>uc'. uc_adds rs uc = Some uc' \<and> length uc' = length uc \<and>
    (\<forall>j < length uc. uc' ! j = uc ! j + word_of_int (\<Sum>r \<leftarrow> rs. if in_add (int j) r then snd (snd r) else 0))"
  using assms
proof (induction rs arbitrary: uc)
  case (Cons r rs)
  obtain s e a where r: "r = (s, e, a)" by (cases r)
  have se: "0 \<le> s" "s \<le> e" "e \<le> int (length uc)" using Cons.prems by (auto simp: r)
  then have "nat e \<le> length uc" "nat s \<le> nat e" by linarith+
  then obtain uc1 where uc1: "uc_add_run uc (nat s) (nat e) a = Some uc1" "length uc1 = length uc"
    "\<forall>j < length uc. uc1 ! j = uc ! j + (if nat s \<le> j \<and> j < nat e then word_of_int a else 0)"
    using uc_add_run_eq [of "nat e" uc "nat s" a] by blast
  obtain uc' where uc': "uc_adds rs uc1 = Some uc'" "length uc' = length uc1"
    "\<forall>j < length uc1. uc' ! j = uc1 ! j + word_of_int (\<Sum>r \<leftarrow> rs. if in_add (int j) r then snd (snd r) else 0)"
    using Cons.IH [of uc1] Cons.prems uc1(2) by auto
  show ?case using uc1 uc' se by (auto simp: r in_add_def nat_le_iff zless_nat_eq_int_zless)
qed simp

lemma uc_decs_eq:
  assumes "\<forall>(s, e) \<in> set rs. 0 \<le> s \<and> 0 \<le> e \<and> e < int (length uc)"
  shows "\<exists>uc'. uc_decs rs uc = Some uc' \<and> length uc' = length uc \<and>
    (\<forall>j < length uc. uc' ! j = uc ! j - word_of_int (\<Sum>r \<leftarrow> rs. if in_dec (int j) r then 1 else 0))"
  using assms
proof (induction rs arbitrary: uc)
  case (Cons r rs)
  obtain s e where r: "r = (s, e)" by (cases r)
  have se: "0 \<le> s" "0 \<le> e" "e < int (length uc)" using Cons.prems by (auto simp: r)
  then have "nat e < length uc" by linarith
  then obtain uc1 where uc1: "uc_dec_run uc (nat s) (nat e) = Some uc1" "length uc1 = length uc"
    "\<forall>j < length uc. uc1 ! j = uc ! j - (if in_dec (int j) (s, e) then 1 else 0)"
    using uc_dec_run_eq [of "nat e" uc "nat s"] se by auto
  obtain uc' where uc': "uc_decs rs uc1 = Some uc'" "length uc' = length uc1"
    "\<forall>j < length uc1. uc' ! j = uc1 ! j - word_of_int (\<Sum>r \<leftarrow> rs. if in_dec (int j) r then 1 else 0)"
    using Cons.IH [of uc1] Cons.prems uc1(2) by auto
  show ?case using uc1 uc' by (auto simp: r)
qed simp

lemma uc_sets_eq:
  assumes "\<forall>(i, v) \<in> set rs. 0 \<le> i \<and> i < int (length uc)" "distinct (map fst rs)"
  shows "\<exists>uc'. uc_sets rs uc = Some uc' \<and> length uc' = length uc \<and>
    (\<forall>j < length uc. uc' ! j = (case map_of rs (int j) of Some v \<Rightarrow> word_of_int v | None \<Rightarrow> uc ! j))"
  using assms
proof (induction rs arbitrary: uc)
  case (Cons r rs)
  obtain i v where r: "r = (i, v)" by (cases r)
  have i: "0 \<le> i" "i < int (length uc)" "map_of rs i = None" using Cons.prems by (auto simp: r map_of_eq_None_iff)
  obtain uc' where uc': "uc_sets rs (uc[nat i := word_of_int v]) = Some uc'" "length uc' = length uc"
    "\<forall>j < length uc. uc' ! j = (case map_of rs (int j) of Some v \<Rightarrow> word_of_int v | None \<Rightarrow> uc[nat i := word_of_int v] ! j)"
    using Cons.IH [of "uc[nat i := word_of_int v]"] Cons.prems by auto
  show ?case using uc' i by (auto simp: r wr_def nth_list_update split: option.split)
qed simp

text \<open>No character is in two runs, so that at most one of them changes it.\<close>

lemma sum_list_one:
  assumes "sorted_wrt (\<lambda>x y. \<not> (P x \<and> P y)) xs" "x \<in> set xs" "P x"
  shows "(\<Sum>x \<leftarrow> xs. if P x then f x else 0) = (f x :: int)"
  using assms
proof (induction xs)
  case (Cons y ys)
  have none: "(\<Sum>x \<leftarrow> ys. if P x then f x else 0) = 0" if "\<forall>x \<in> set ys. \<not> P x"
    using that by (induction ys) auto
  show ?case using Cons none by (cases "P y") auto
qed simp

lemma sum_list_none: "\<forall>x \<in> set xs. \<not> P x \<Longrightarrow> (\<Sum>x \<leftarrow> xs. if P x then f x else 0) = (0 :: int)"
  by (induction xs) auto

definition apart :: "int \<times> int \<Rightarrow> int \<times> int \<Rightarrow> bool" where
  "apart r q = (case (r, q) of ((s, e), (s', e')) \<Rightarrow> e < s' \<or> e' < s)"

text \<open>Everything that is touched, as closed intervals.\<close>

definition add_span :: "int \<times> int \<times> int \<Rightarrow> int \<times> int" where
  "add_span r = (case r of (s, e, a) \<Rightarrow> (s, e - 1))"

definition dec_span :: "int \<times> int \<Rightarrow> int \<times> int" where
  "dec_span r = (case r of (s, e) \<Rightarrow> (s, if odd (e - s) then e else e - 1))"

definition set_span :: "int \<times> int \<Rightarrow> int \<times> int" where
  "set_span r = (case r of (i, v) \<Rightarrow> (i, i))"

definition uc_spans :: "(int \<times> int) list" where
  "uc_spans = map add_span uc_add @ map dec_span uc_skip_dec @ map set_span uc_set"

lemma uc_apart: "sorted_wrt apart uc_spans"
  by code_simp


lemma uc_images:
  "\<forall>(s, e, a) \<in> set uc_add. 0 \<le> s + a \<and> e + a \<le> 65536 \<and> (\<forall>q \<in> set uc_spans. apart (s + a, e + a - 1) q)"
  "\<forall>(i, v) \<in> set uc_set. 0 \<le> v \<and> v < 65536 \<and> (\<forall>q \<in> set uc_spans. apart (v, v) q)"
  by code_simp+

lemma uc_bounds:
  "\<forall>(s, e, a) \<in> set uc_add. 64 \<le> s \<and> s \<le> e \<and> e \<le> 65536"
  "\<forall>(s, e) \<in> set uc_skip_dec. 64 \<le> s \<and> s \<le> e \<and> e < 65536"
  "\<forall>(i, v) \<in> set uc_set. 64 \<le> i \<and> i < 65536"
  by code_simp+


definition uc_value :: "int \<Rightarrow> int" where
  "uc_value j = (case map_of uc_set j of
       Some v \<Rightarrow> v
     | None \<Rightarrow> j + (\<Sum>r \<leftarrow> uc_add. if in_add j r then snd (snd r) else 0)
               - (\<Sum>r \<leftarrow> uc_skip_dec. if in_dec j r then 1 else 0))"

lemma uc_table:
  assumes "length uc = 65536"
  shows "\<exists>uc'. ntfs_upcase_table_generate uc 131072 = Some uc' \<and> length uc' = 65536 \<and>
    (\<forall>j < 65536. uc' ! j = word_of_int (uc_value (int j)))"
proof -
  let ?u0 = "map word_of_nat [0..<65536] :: u16 list"
  have l: "length ?u0 = 65536" by simp
  have "uc_identity (replicate 65536 0) 65536 0 = Some ?u0"
    using uc_identity_eq [of 65536 "replicate 65536 0" 0] by simp
  moreover have "copy_els uc 0 (replicate 65536 0) 0 65536 = Some (replicate 65536 0)" using assms by (simp add: copy_els_def)
  moreover obtain u1 where u1: "uc_adds uc_add ?u0 = Some u1" "length u1 = length ?u0"
    "\<forall>j < length ?u0. u1 ! j = ?u0 ! j + word_of_int (\<Sum>r \<leftarrow> uc_add. if in_add (int j) r then snd (snd r) else 0)"
    using uc_adds_eq [of uc_add ?u0] uc_bounds(1) unfolding l by force
  moreover obtain u2 where u2: "uc_decs uc_skip_dec u1 = Some u2" "length u2 = length u1"
    "\<forall>j < length u1. u2 ! j = u1 ! j - word_of_int (\<Sum>r \<leftarrow> uc_skip_dec. if in_dec (int j) r then 1 else 0)"
    using uc_decs_eq [of uc_skip_dec u1] uc_bounds(2) unfolding u1(2) l by force
  moreover have "distinct (map fst uc_set)" by code_simp
  moreover obtain u3 where u3: "uc_sets uc_set u2 = Some u3" "length u3 = length u2"
    "\<forall>j < length u2. u3 ! j = (case map_of uc_set (int j) of Some v \<Rightarrow> word_of_int v | None \<Rightarrow> u2 ! j)"
    using uc_sets_eq [of uc_set u2] uc_bounds(3) \<open>distinct (map fst uc_set)\<close> unfolding u2(2) u1(2) l by force
  moreover have "u3 ! j = word_of_int (uc_value (int j))" if "j < 65536" for j
    using u1(2,3) u2(2,3) u3(2,3) that unfolding l by (simp add: uc_value_def split: option.split)
  moreover have "(131072 :: nat) div 2 = 65536" by simp
  ultimately have "ntfs_upcase_table_generate uc 131072 = Some u3"
    unfolding ntfs_upcase_table_generate_def Let_def by (simp only: bind.bind_lunit)
  then show ?thesis using u1(2) u2(2) u3(2) l \<open>\<And>j. j < 65536 \<Longrightarrow> u3 ! j = word_of_int (uc_value (int j))\<close> by auto
qed

text \<open>A character that no rule is about, and what the rules make of the others.\<close>

definition uc_fixed :: "int \<Rightarrow> bool" where
  "uc_fixed j \<longleftrightarrow> (\<forall>r \<in> set uc_add. \<not> in_add j r) \<and> (\<forall>r \<in> set uc_skip_dec. \<not> in_dec j r) \<and> (\<forall>r \<in> set uc_set. fst r \<noteq> j)"

definition in_iv :: "int \<Rightarrow> int \<times> int \<Rightarrow> bool" where
  "in_iv j p = (fst p \<le> j \<and> j \<le> snd p)"

lemma apart_iv: "apart p q \<Longrightarrow> in_iv j p \<Longrightarrow> \<not> in_iv j q"
  by (auto simp: apart_def in_iv_def)

lemma in_spans:
  "in_add j r \<Longrightarrow> in_iv j (add_span r)"
  "in_dec j q \<Longrightarrow> in_iv j (dec_span q)" "in_dec j q \<Longrightarrow> in_iv (j - 1) (dec_span q)"
  by (auto simp: in_add_def in_dec_def in_iv_def add_span_def dec_span_def le_less split: prod.split)

lemma uc_fixed_value: "uc_fixed j \<Longrightarrow> uc_value j = j"
  by (auto simp: uc_fixed_def uc_value_def sum_list_none map_of_eq_None_iff split: option.split dest!: map_of_SomeD)

lemma set_span_iv: "in_iv j (set_span p) \<longleftrightarrow> fst p = j"
  by (auto simp: set_span_def in_iv_def split: prod.split)

lemma spans_in:
  "r \<in> set uc_add \<Longrightarrow> add_span r \<in> set uc_spans" "q \<in> set uc_skip_dec \<Longrightarrow> dec_span q \<in> set uc_spans"
  "p \<in> set uc_set \<Longrightarrow> set_span p \<in> set uc_spans"
  by (simp_all add: uc_spans_def)

lemma uc_fixed_apart:
  assumes "\<forall>q \<in> set uc_spans. apart p q" "in_iv j p"
  shows "uc_fixed j"
proof -
  have "\<not> in_iv j q" if "q \<in> set uc_spans" for q using apart_iv assms that by blast
  then show ?thesis unfolding uc_fixed_def using in_spans(1,2) spans_in set_span_iv by blast
qed

text \<open>A character is in one span only, so that one rule decides about it.\<close>

lemma apart_iv2: "apart p q \<Longrightarrow> in_iv j q \<Longrightarrow> \<not> in_iv j p"
  by (auto simp: apart_def in_iv_def)

lemma uc_apart_parts:
  "sorted_wrt (\<lambda>x y. apart (add_span x) (add_span y)) uc_add"
  "sorted_wrt (\<lambda>x y. apart (dec_span x) (dec_span y)) uc_skip_dec"
  "r \<in> set uc_add \<Longrightarrow> q \<in> set uc_skip_dec \<Longrightarrow> apart (add_span r) (dec_span q)"
  "r \<in> set uc_add \<Longrightarrow> p \<in> set uc_set \<Longrightarrow> apart (add_span r) (set_span p)"
  "q \<in> set uc_skip_dec \<Longrightarrow> p \<in> set uc_set \<Longrightarrow> apart (dec_span q) (set_span p)"
  using uc_apart by (simp_all add: uc_spans_def sorted_wrt_append sorted_wrt_map)

lemma add_alone:
  assumes "r \<in> set uc_add" "in_iv j (add_span r)"
  shows "\<forall>q \<in> set uc_skip_dec. \<not> in_dec j q" "\<forall>p \<in> set uc_set. fst p \<noteq> j"
  using uc_apart_parts(3,4) [OF assms(1)] apart_iv [OF _ assms(2)] in_spans(2) set_span_iv by blast+

lemma dec_alone:
  assumes "q \<in> set uc_skip_dec" "in_iv j (dec_span q)"
  shows "\<forall>r \<in> set uc_add. \<not> in_add j r" "\<forall>p \<in> set uc_set. fst p \<noteq> j"
  using uc_apart_parts(3) [OF _ assms(1)] uc_apart_parts(5) [OF assms(1)] apart_iv [OF _ assms(2)] apart_iv2 [OF _ assms(2)]
    in_spans(1) set_span_iv by blast+

lemma sorted_wrt_spans:
  assumes "sorted_wrt (\<lambda>x y. apart (f x) (f y)) xs" "\<And>x. P x \<Longrightarrow> in_iv j (f x)"
  shows "sorted_wrt (\<lambda>x y. \<not> (P x \<and> P y)) xs"
  by (rule sorted_wrt_mono_rel [OF _ assms(1)]) (use apart_iv assms(2) in blast)

lemma uc_value_none: "\<forall>p \<in> set uc_set. fst p \<noteq> j \<Longrightarrow> uc_value j =
    j + (\<Sum>r \<leftarrow> uc_add. if in_add j r then snd (snd r) else 0) - (\<Sum>r \<leftarrow> uc_skip_dec. if in_dec j r then 1 else 0)"
  by (force simp: uc_value_def split: option.split dest!: map_of_SomeD)

lemma uc_add_value:
  assumes "r \<in> set uc_add" "in_add j r"
  shows "uc_value j = j + snd (snd r)" "uc_fixed (uc_value j)" "0 \<le> uc_value j" "uc_value j < 65536"
proof -
  obtain s e a where r: "r = (s, e, a)" by (cases r)
  note alone = add_alone [OF assms(1) in_spans(1) [OF assms(2)]]
  have "(\<Sum>r \<leftarrow> uc_add. if in_add j r then snd (snd r) else 0) = snd (snd r)"
    by (rule sum_list_one [OF sorted_wrt_spans [OF uc_apart_parts(1), of "in_add j" j] assms]) (rule in_spans(1))
  then show "uc_value j = j + snd (snd r)" using uc_value_none [OF alone(2)] alone(1) by (simp add: sum_list_none)
  then have v: "uc_value j = j + a" by (simp add: r)
  have im: "0 \<le> s + a" "e + a \<le> 65536" "\<forall>q \<in> set uc_spans. apart (s + a, e + a - 1) q"
    using uc_images(1) assms(1) by (auto simp: r)
  have j: "s \<le> j" "j < e" using assms(2) by (auto simp: r in_add_def)
  show "uc_fixed (uc_value j)" by (rule uc_fixed_apart [OF im(3)]) (use j v in \<open>auto simp: in_iv_def\<close>)
  show "0 \<le> uc_value j" "uc_value j < 65536" using im j v by auto
qed

lemma sorted_wrt_unique:
  "sorted_wrt (\<lambda>x y. apart (f x) (f y)) xs \<Longrightarrow> x \<in> set xs \<Longrightarrow> y \<in> set xs \<Longrightarrow> in_iv j (f x) \<Longrightarrow> in_iv j (f y) \<Longrightarrow> x = y"
  by (induction xs) (auto dest: apart_iv)

lemma uc_dec_value:
  assumes "r \<in> set uc_skip_dec" "in_dec j r"
  shows "uc_fixed (uc_value j)" "0 \<le> uc_value j" "uc_value j < 65536"
proof -
  obtain s e where r: "r = (s, e)" by (cases r)
  note alone = dec_alone [OF assms(1) in_spans(2) [OF assms(2)]]
  have "(\<Sum>r \<leftarrow> uc_skip_dec. if in_dec j r then 1 else 0) = (1 :: int)"
    by (rule sum_list_one [OF sorted_wrt_spans [OF uc_apart_parts(2), of "in_dec j" j] assms]) (rule in_spans(2))
  then have v: "uc_value j = j - 1" using uc_value_none [OF alone(2)] alone(1) by (simp add: sum_list_none)
  note below = dec_alone [OF assms(1) in_spans(3) [OF assms(2)]]
  have "\<not> in_dec (j - 1) q" if "q \<in> set uc_skip_dec" for q
  proof
    assume q: "in_dec (j - 1) q"
    then have "q = r" using sorted_wrt_unique [OF uc_apart_parts(2) that assms(1) in_spans(2) in_spans(3)] assms(2) by blast
    then show False using q assms(2) by (auto simp: r in_dec_def)
  qed
  then show "uc_fixed (uc_value j)" unfolding v uc_fixed_def using below by blast
  show "0 \<le> uc_value j" "uc_value j < 65536" using uc_bounds(2) assms v by (auto simp: r in_dec_def)
qed

lemma uc_value_fixed:
  assumes "0 \<le> j" "j < 65536"
  shows "uc_fixed (uc_value j) \<and> 0 \<le> uc_value j \<and> uc_value j < 65536"
proof -
  consider "uc_fixed j" | r where "r \<in> set uc_add" "in_add j r" | r where "r \<in> set uc_skip_dec" "in_dec j r"
    | r where "r \<in> set uc_set" "fst r = j" unfolding uc_fixed_def by blast
  then show ?thesis
  proof cases
    case 4
    then obtain v where "map_of uc_set j = Some v" by (metis map_of_eq_None_iff not_None_eq image_eqI)
    then have v: "uc_value j = v" "(j, v) \<in> set uc_set" by (simp_all add: uc_value_def map_of_SomeD)
    then have im: "0 \<le> v" "v < 65536" "\<forall>q \<in> set uc_spans. apart (v, v) q" using uc_images(2) by auto
    then show ?thesis using uc_fixed_apart [OF im(3), of v] v(1) by (simp add: in_iv_def)
  qed (use uc_fixed_value uc_add_value uc_dec_value assms in auto)
qed

text \<open>
  C33. The generated table. For a buffer of 65536 characters \<open>ntfs_upcase_table_generate\<close> stays
  inside the buffer. It maps \<open>a\<close> to \<open>z\<close> to \<open>A\<close> to \<open>Z\<close> and every character below 64 to itself, and
  every character in it is its own upper case: upcasing twice is upcasing once.
\<close>

theorem upcase_table_idempotent:
  assumes "length uc = 65536"
  shows "\<exists>uc'. ntfs_upcase_table_generate uc 131072 = Some uc' \<and> length uc' = 65536 \<and>
    (\<forall>c :: u16. uc' ! unat (uc' ! unat c) = uc' ! unat c) \<and>
    (\<forall>c. c < 64 \<longrightarrow> uc' ! unat c = c) \<and> (\<forall>c. 0x61 \<le> c \<and> c \<le> 0x7a \<longrightarrow> uc' ! unat c = c - 32)"
proof -
  obtain uc' where uc': "ntfs_upcase_table_generate uc 131072 = Some uc'" "length uc' = 65536"
    and nth: "\<And>j. j < 65536 \<Longrightarrow> uc' ! j = word_of_int (uc_value (int j))" using uc_table [OF assms] by blast
  have at: "uc' ! unat c = word_of_int (uc_value (uint c))" for c :: u16
    using nth [of "unat c"] unsigned_less [of c] by (simp add: of_nat_unat)
  have "uc' ! unat (uc' ! unat c) = uc' ! unat c" for c :: u16
  proof -
    have v: "uc_fixed (uc_value (uint c))" "0 \<le> uc_value (uint c)" "uc_value (uint c) < 65536"
      using uc_value_fixed [of "uint c"] uint_lt2p [of c] by simp_all
    then have "uint (uc' ! unat c) = uc_value (uint c)" by (simp add: at uint_word_of_int)
    then show ?thesis using at [of "uc' ! unat c"] uc_fixed_value [OF v(1)] at [of c] by simp
  qed
  moreover have "uc' ! unat c = c" if "c < 64" for c :: u16
  proof -
    have "uint c < 64" using that by (simp add: word_less_alt)
    then have "uc_fixed (uint c)" unfolding uc_fixed_def using uc_bounds by (fastforce simp: in_add_def in_dec_def)
    then show ?thesis using at [of c] uc_fixed_value by simp
  qed
  moreover have "uc' ! unat c = c - 32" if "0x61 \<le> c" "c \<le> 0x7a" for c :: u16
  proof -
    have c: "0x61 \<le> uint c" "uint c \<le> 0x7a" using that by (simp_all add: word_le_def)
    have r: "(0x61, 0x7b, - 32) \<in> set uc_add" by (simp add: uc_add_def)
    moreover have "in_add (uint c) (0x61, 0x7b, - 32)" using c by (simp add: in_add_def)
    ultimately have "uc_value (uint c) = uint c - 32" using uc_add_value(1) [of "(0x61, 0x7b, - 32)" "uint c"] by simp
    then show ?thesis using at [of c] by simp
  qed
  ultimately show ?thesis using uc' by blast
qed

theorem upcase_table_idempotent_witness:
  "\<exists>uc'. ntfs_upcase_table_generate (replicate 65536 0) 131072 = Some uc' \<and> uc' ! 0x6e = 0x4e"
proof -
  obtain uc' where uc': "ntfs_upcase_table_generate (replicate 65536 0) 131072 = Some uc'"
    and az: "\<forall>c. 0x61 \<le> c \<and> c \<le> 0x7a \<longrightarrow> uc' ! unat c = c - 32"
    using upcase_table_idempotent [OF length_replicate] by blast
  have "uc' ! unat (0x6e :: u16) = 0x6e - 32" by (rule az [rule_format]) simp
  then show ?thesis using uc' by simp
qed

end
