(* ===== verification/NTFS_Unistr.thy ===== *)
theory NTFS_Unistr
  imports NTFS_Prelude
begin

text \<open>
  Unicode names, \<open>kext/ntfs_unistr.c\<close>: comparing and collating names, upcasing them, and the
  upcase table the driver generates.

  A name is an array of 16-bit characters with its length; the array can go on behind the
  name. The machine is little endian, so \<open>le16_to_cpu\<close> is the identity. A function returns
  \<open>None\<close> where it would read or write outside an array.
\<close>

unbundle bit_operations_syntax

section \<open>The functions\<close>

definition ntfs_legal_ansi_char_array :: "u8 list" where
  "ntfs_legal_ansi_char_array = [
     0x00, 0x10, 0x10, 0x10, 0x10, 0x10, 0x10, 0x10,
     0x10, 0x10, 0x10, 0x10, 0x10, 0x10, 0x10, 0x10,
     0x10, 0x10, 0x10, 0x10, 0x10, 0x10, 0x10, 0x10,
     0x10, 0x10, 0x10, 0x10, 0x10, 0x10, 0x10, 0x10,
     0x17, 0x07, 0x18, 0x17, 0x17, 0x17, 0x17, 0x17,
     0x17, 0x17, 0x18, 0x16, 0x16, 0x17, 0x07, 0x00,
     0x17, 0x17, 0x17, 0x17, 0x17, 0x17, 0x17, 0x17,
     0x17, 0x17, 0x04, 0x16, 0x18, 0x16, 0x18, 0x18]"

definition bad_char :: "u16 \<Rightarrow> bool" where
  "bad_char c \<longleftrightarrow> c < 64 \<and> ntfs_legal_ansi_char_array ! unat c AND 8 \<noteq> 0"

text \<open>A character through the upcase table, if the table has an entry for it.\<close>

definition up_char :: "u16 list \<Rightarrow> nat \<Rightarrow> u16 \<Rightarrow> u16 option" where
  "up_char upcase upcase_len c = (if unat c < upcase_len then rd upcase (unat c) else Some c)"

text \<open>
  The first loop of \<open>ntfs_collate_names\<close>, over the characters both names have. \<open>Some None\<close>
  means that it ran to the end.
\<close>

function collate_common ::
    "u16 list \<Rightarrow> u16 list \<Rightarrow> nat \<Rightarrow> nat \<Rightarrow> int \<Rightarrow> bool \<Rightarrow> u16 list \<Rightarrow> nat \<Rightarrow> int option option" where
  "collate_common name1 name2 min_len cnt err_val case_sensitive upcase upcase_len =
     (if cnt < min_len then do {
        c1 \<leftarrow> rd name1 cnt;
        c2 \<leftarrow> rd name2 cnt;
        c1 \<leftarrow> (if case_sensitive then Some c1 else up_char upcase upcase_len c1);
        c2 \<leftarrow> (if case_sensitive then Some c2 else up_char upcase upcase_len c2);
        if bad_char c1 then Some (Some err_val)
        else if c1 < c2 then Some (Some (- 1))
        else if c1 > c2 then Some (Some 1)
        else collate_common name1 name2 min_len (cnt + 1) err_val case_sensitive upcase upcase_len }
      else Some None)"
  by pat_completeness auto
termination
  by (relation "measure (\<lambda>(name1, name2, min_len, cnt, rest). min_len - cnt)") auto

declare collate_common.simps [simp del]

text \<open>The second one, over the rest of a longer first name.\<close>

function collate_rest :: "u16 list \<Rightarrow> nat \<Rightarrow> nat \<Rightarrow> int \<Rightarrow> int option" where
  "collate_rest name1 name1_len cnt err_val = do {
     c1 \<leftarrow> rd name1 cnt;
     if bad_char c1 then Some err_val
     else if cnt + 1 < name1_len then collate_rest name1 name1_len (cnt + 1) err_val
     else Some 1 }"
  by pat_completeness auto
termination
  by (relation "measure (\<lambda>(name1, name1_len, cnt, err_val). name1_len - cnt)") auto

declare collate_rest.simps [simp del]

definition ntfs_collate_names ::
    "u16 list \<Rightarrow> nat \<Rightarrow> u16 list \<Rightarrow> nat \<Rightarrow> int \<Rightarrow> bool \<Rightarrow> u16 list \<Rightarrow> nat \<Rightarrow> int option" where
  "ntfs_collate_names name1 name1_len name2 name2_len err_val case_sensitive upcase upcase_len = do {
     let min_len = (if name2_len < name1_len then name2_len else name1_len);
     r \<leftarrow> collate_common name1 name2 min_len 0 err_val case_sensitive upcase upcase_len;
     case r of
       Some rc \<Rightarrow> Some rc
     | None \<Rightarrow>
         if name1_len < name2_len then Some (- 1)
         else if name1_len = name2_len then Some 0
         else collate_rest name1 name1_len min_len err_val }"

text \<open>
  \<open>ntfs_ucsncmp\<close> and \<open>ntfs_ucsncasecmp\<close> are the same loop over the first \<open>n\<close> characters, with
  and without the table.
\<close>

function ucs_loop :: "(u16 \<Rightarrow> u16 option) \<Rightarrow> u16 list \<Rightarrow> u16 list \<Rightarrow> nat \<Rightarrow> nat \<Rightarrow> int option" where
  "ucs_loop f s1 s2 n i =
     (if i < n then do {
        c1 \<leftarrow> rd s1 i;
        c1 \<leftarrow> f c1;
        c2 \<leftarrow> rd s2 i;
        c2 \<leftarrow> f c2;
        if c1 < c2 then Some (- 1)
        else if c1 > c2 then Some 1
        else if c1 = 0 then Some 0
        else ucs_loop f s1 s2 n (i + 1) }
      else Some 0)"
  by pat_completeness auto
termination
  by (relation "measure (\<lambda>(f, s1, s2, n, i). n - i)") auto

declare ucs_loop.simps [simp del]

definition ntfs_ucsncmp :: "u16 list \<Rightarrow> u16 list \<Rightarrow> nat \<Rightarrow> int option" where
  "ntfs_ucsncmp s1 s2 n = ucs_loop Some s1 s2 n 0"

definition ntfs_ucsncasecmp :: "u16 list \<Rightarrow> u16 list \<Rightarrow> nat \<Rightarrow> u16 list \<Rightarrow> nat \<Rightarrow> int option" where
  "ntfs_ucsncasecmp s1 s2 n upcase upcase_size = ucs_loop (up_char upcase upcase_size) s1 s2 n 0"

definition ntfs_are_names_equal ::
    "u16 list \<Rightarrow> nat \<Rightarrow> u16 list \<Rightarrow> nat \<Rightarrow> bool \<Rightarrow> u16 list \<Rightarrow> nat \<Rightarrow> bool option" where
  "ntfs_are_names_equal s1 s1_len s2 s2_len case_sensitive upcase upcase_len =
     (if s1_len \<noteq> s2_len then Some False
      else if case_sensitive then do { rc \<leftarrow> ntfs_ucsncmp s1 s2 s1_len; Some (rc = 0) }
      else do { rc \<leftarrow> ntfs_ucsncasecmp s1 s2 s1_len upcase upcase_len; Some (rc = 0) })"

function upcase_from :: "u16 list \<Rightarrow> nat \<Rightarrow> u16 list \<Rightarrow> nat \<Rightarrow> nat \<Rightarrow> u16 list option" where
  "upcase_from name name_len upcase upcase_len i =
     (if i < name_len then do {
        u \<leftarrow> rd name i;
        name \<leftarrow> (if unat u < upcase_len then do { v \<leftarrow> rd upcase (unat u); wr name i v } else Some name);
        upcase_from name name_len upcase upcase_len (i + 1) }
      else Some name)"
  by pat_completeness auto
termination
  by (relation "measure (\<lambda>(name, name_len, upcase, upcase_len, i). name_len - i)") auto

declare upcase_from.simps [simp del]

definition ntfs_upcase_name :: "u16 list \<Rightarrow> nat \<Rightarrow> u16 list \<Rightarrow> nat \<Rightarrow> u16 list option" where
  "ntfs_upcase_name name name_len upcase upcase_len = upcase_from name name_len upcase upcase_len 0"

section \<open>Comparing names\<close>

text \<open>Lists in lexicographic order, as the three-way comparison the code computes.\<close>

definition cmp_list :: "'a :: linorder list \<Rightarrow> 'a list \<Rightarrow> int" where
  "cmp_list xs ys = (if xs = ys then 0 else if ord_class.lexordp xs ys then - 1 else 1)"

lemma cmp_list_simps [simp]:
  "cmp_list [] [] = 0" "cmp_list [] (y # ys) = - 1" "cmp_list (x # xs) [] = 1"
  "cmp_list (x # xs) (y # ys) = (if x < y then - 1 else if y < x then 1 else cmp_list xs ys)"
  by (auto simp: cmp_list_def)

lemma cmp_list_append:
  "length as = length cs \<Longrightarrow> cmp_list (as @ bs) (cs @ ds) = (if as = cs then cmp_list bs ds else cmp_list as cs)"
  by (induction as cs rule: list_induct2) auto

lemma cmp_list_eq_0 [simp]: "cmp_list xs ys = 0 \<longleftrightarrow> xs = ys"
  by (simp add: cmp_list_def)

lemma cmp_list_refl [simp]: "cmp_list xs xs = 0"
  by simp

lemma cmp_list_range: "cmp_list xs ys \<in> {- 1, 0, 1}"
  by (simp add: cmp_list_def)

lemma cmp_list_anti: "cmp_list ys xs = - cmp_list xs ys"
  by (induction xs ys rule: list_induct2') auto

lemma cmp_list_trans: "cmp_list xs ys = - 1 \<Longrightarrow> cmp_list ys zs = - 1 \<Longrightarrow> cmp_list xs zs = - 1"
  using lexordp_trans [of xs ys zs] lexordp_irreflexive' [of xs]
  by (auto simp: cmp_list_def split: if_split_asm)

definition upc :: "u16 list \<Rightarrow> nat \<Rightarrow> u16 \<Rightarrow> u16" where
  "upc upcase n c = (if unat c < n then upcase ! unat c else c)"

lemma up_char_upc [simp]: "n \<le> length upcase \<Longrightarrow> up_char upcase n c = Some (upc upcase n c)"
  by (simp add: up_char_def upc_def rd_def)

text \<open>The characters as they are compared: as they are, or in upper case.\<close>

definition name_fold :: "bool \<Rightarrow> u16 list \<Rightarrow> nat \<Rightarrow> u16 \<Rightarrow> u16" where
  "name_fold case_sensitive upcase n = (if case_sensitive then id else upc upcase n)"

lemma collate_common_eq:
  assumes "n \<le> length upcase" "m \<le> length name1" "m \<le> length name2" "cnt \<le> m"
    and "\<forall>c \<in> set (take m name1). \<not> bad_char (name_fold cs upcase n c)"
  shows "collate_common name1 name2 m cnt err_val cs upcase n =
    (let u = map (name_fold cs upcase n) (drop cnt (take m name1)); v = map (name_fold cs upcase n) (drop cnt (take m name2))
     in Some (if u = v then None else Some (cmp_list u v)))"
  using assms(4)
proof (induction cnt rule: inc_induct)
  case base
  then show ?case by (subst collate_common.simps) simp
next
  case (step k)
  let ?f = "name_fold cs upcase n"
  have d: "drop k (take m name1) = name1 ! k # drop (Suc k) (take m name1)" "drop k (take m name2) = name2 ! k # drop (Suc k) (take m name2)"
    using step.hyps assms(2,3) by (simp_all add: Cons_nth_drop_Suc [symmetric])
  have "name1 ! k \<in> set (take m name1)" using step.hyps assms(2) by (auto simp: in_set_conv_nth)
  then have "\<not> bad_char (?f (name1 ! k))" using assms(5) by blast
  moreover have f: "(if cs then Some c else up_char upcase n c) = Some (?f c)" for c using assms(1) by (simp add: name_fold_def)
  moreover have "rd name1 k = Some (name1 ! k)" "rd name2 k = Some (name2 ! k)" using step.hyps assms(2,3) by (simp_all add: rd_def)
  ultimately show ?case using step.IH step.hyps unfolding d collate_common.simps [of _ _ _ k] f Let_def
    by (simp add: not_less_iff_gr_or_eq)
qed

lemma collate_rest_eq:
  assumes "k < length name1" "k < len" "len \<le> length name1" "\<forall>c \<in> set (take len name1). \<not> bad_char c"
  shows "collate_rest name1 len k err_val = Some 1"
  using assms
proof (induction name1 len k err_val rule: collate_rest.induct)
  case (1 name1 len k err_val)
  have "name1 ! k \<in> set (take len name1)" using 1(2-4) by (auto simp: in_set_conv_nth)
  then show ?case using 1 by (subst collate_rest.simps) (auto simp: rd_def)
qed

definition legal_name :: "u16 list \<Rightarrow> nat \<Rightarrow> u16 list \<Rightarrow> bool" where
  "legal_name upcase n xs = (\<forall>c \<in> set xs. \<not> bad_char c \<and> \<not> bad_char (upc upcase n c))"

lemma legal_name_fold: "legal_name upcase n xs \<Longrightarrow> c \<in> set xs \<Longrightarrow> \<not> bad_char c \<and> \<not> bad_char (name_fold cs upcase n c)"
  by (auto simp: legal_name_def name_fold_def)

lemma ntfs_collate_names_eq:
  assumes "n \<le> length upcase" "legal_name upcase n n1" "name1 = n1 @ g1" "name2 = n2 @ g2"
  shows "ntfs_collate_names name1 (length n1) name2 (length n2) err_val cs upcase n =
    Some (cmp_list (map (name_fold cs upcase n) n1) (map (name_fold cs upcase n) n2))"
proof -
  let ?f = "name_fold cs upcase n" and ?m = "min (length n1) (length n2)"
  have m: "(if length n2 < length n1 then length n2 else length n1) = ?m" by simp
  have t: "take ?m name1 = take ?m n1" "take ?m name2 = take ?m n2" by (simp_all add: assms(3,4) min_def)
  have "\<forall>c \<in> set (take ?m name1). \<not> bad_char (?f c)"
    unfolding t using legal_name_fold [OF assms(2)] by (auto dest: in_set_takeD)
  then have "collate_common name1 name2 ?m 0 err_val cs upcase n =
    Some (if map ?f (take ?m n1) = map ?f (take ?m n2) then None else Some (cmp_list (map ?f (take ?m n1)) (map ?f (take ?m n2))))"
    using collate_common_eq [of n upcase ?m name1 name2 0 cs err_val] assms t by (simp add: Let_def)
  moreover have "cmp_list (map ?f n1) (map ?f n2) =
    (if map ?f (take ?m n1) = map ?f (take ?m n2) then cmp_list (map ?f (drop ?m n1)) (map ?f (drop ?m n2))
     else cmp_list (map ?f (take ?m n1)) (map ?f (take ?m n2)))"
    using cmp_list_append [of "map ?f (take ?m n1)" "map ?f (take ?m n2)" "map ?f (drop ?m n1)" "map ?f (drop ?m n2)"]
    by (simp flip: map_append)
  moreover have "collate_rest name1 (length n1) ?m err_val = Some 1" if "length n2 < length n1"
    by (rule collate_rest_eq) (use that assms(2) in \<open>auto simp: assms(3) legal_name_def\<close>)
  moreover have "cmp_list (map ?f (drop ?m n1)) (map ?f (drop ?m n2)) =
      (if length n1 < length n2 then - 1 else if length n1 = length n2 then 0 else 1)"
    by (cases "drop (length n2) n1"; cases "drop (length n1) n2") (auto simp: min_def)
  ultimately show ?thesis unfolding ntfs_collate_names_def Let_def m by auto
qed

text \<open>
  C34. Collating names. For a legal first name \<open>ntfs_collate_names\<close> reads only the two names and
  the table, and returns -1, 0 or 1 as the first name is before, equal to or behind the
  second one in lexicographic order of their characters, in upper case unless the
  comparison is case sensitive.
\<close>

theorem ntfs_collate_names_correct:
  assumes "upcase_len \<le> length upcase" "legal_name upcase upcase_len n1"
  shows "ntfs_collate_names (n1 @ g1) (length n1) (n2 @ g2) (length n2) err_val case_sensitive upcase upcase_len =
    Some (cmp_list (map (name_fold case_sensitive upcase upcase_len) n1) (map (name_fold case_sensitive upcase upcase_len) n2))"
  by (rule ntfs_collate_names_eq [OF assms refl refl])

theorem ntfs_collate_names_correct_witness:
  "ntfs_collate_names ([0x61, 0x62] @ []) (length [0x61, 0x62 :: u16]) ([0x61] @ [0x63]) (length [0x61 :: u16]) 1 True [] 0 = Some 1"
proof -
  have "legal_name [] 0 [0x61, 0x62]" by (simp add: legal_name_def bad_char_def upc_def)
  from ntfs_collate_names_correct [OF _ this, of "[]" "[0x61]" "[0x63]" 1 True] show ?thesis
    by (simp add: name_fold_def del: append.simps list.size)
qed

section \<open>Equality of names\<close>

lemma ucs_loop_eq:
  assumes "i \<le> n" "n \<le> length s1" "n \<le> length s2"
  shows "ucs_loop (\<lambda>c. Some (g c)) s1 s2 n i = Some (cmp_list (takeWhile (\<lambda>c. c \<noteq> 0) (map g (drop i (take n s1))))
    (takeWhile (\<lambda>c. c \<noteq> 0) (map g (drop i (take n s2)))))"
  using assms(1)
proof (induction i rule: inc_induct)
  case base
  then show ?case by (subst ucs_loop.simps) simp
next
  case (step k)
  have d: "drop k (take n s1) = s1 ! k # drop (Suc k) (take n s1)" "drop k (take n s2) = s2 ! k # drop (Suc k) (take n s2)"
    using step.hyps assms(2,3) by (simp_all add: Cons_nth_drop_Suc [symmetric])
  show ?case unfolding d using step assms(2,3) by (subst ucs_loop.simps) (auto simp: rd_def word_gt_0)
qed

text \<open>
  Equality of names. \<open>ntfs_are_names_equal\<close> holds of two names of the same length exactly
  if they agree, in upper case unless the comparison is case sensitive, up to the first NUL
  character; for names without NUL that is equality.
\<close>

lemma ntfs_are_names_equal_correct:
  assumes "upcase_len \<le> length upcase"
  shows "ntfs_are_names_equal (n1 @ g1) (length n1) (n2 @ g2) (length n2) case_sensitive upcase upcase_len =
    Some (length n1 = length n2 \<and>
      takeWhile (\<lambda>c. c \<noteq> 0) (map (name_fold case_sensitive upcase upcase_len) n1) =
      takeWhile (\<lambda>c. c \<noteq> 0) (map (name_fold case_sensitive upcase upcase_len) n2))"
proof (cases "length n1 = length n2")
  case True
  have f: "Some = (\<lambda>c. Some (id c :: u16))" "up_char upcase upcase_len = (\<lambda>c. Some (upc upcase upcase_len c))"
    using assms by (simp_all add: fun_eq_iff)
  note eq = ucs_loop_eq [of 0 "length n1" "n1 @ g1" "n2 @ g2"]
  show ?thesis
  proof (cases case_sensitive)
    case cs: True
    then show ?thesis using True eq [where g = id, folded f(1)]
      by (simp add: ntfs_are_names_equal_def ntfs_ucsncmp_def name_fold_def)
  next
    case False
    then show ?thesis using True eq [where g = "upc upcase upcase_len", folded f(2)]
      by (simp add: ntfs_are_names_equal_def ntfs_ucsncasecmp_def name_fold_def)
  qed
qed (simp add: ntfs_are_names_equal_def)

section \<open>Upcasing a name\<close>

lemma upcase_from_eq:
  assumes "i \<le> n" "n \<le> length name" "m \<le> length upcase"
  shows "upcase_from name n upcase m i =
    Some (take i name @ map (upc upcase m) (drop i (take n name)) @ drop n name)"
  using assms(1,2)
proof (induction i arbitrary: name rule: inc_induct)
  case base
  then show ?case by (subst upcase_from.simps) simp
next
  case (step k)
  let ?name = "name[k := upc upcase m (name ! k)]"
  have "upcase_from name n upcase m k = upcase_from ?name n upcase m (Suc k)"
    using step.hyps step.prems assms(3) by (subst upcase_from.simps) (auto simp: rd_def wr_def upc_def)
  moreover have "take (Suc k) ?name = take k name @ [upc upcase m (name ! k)]"
    using step.hyps step.prems by (simp add: take_Suc_conv_app_nth)
  moreover have "drop k (take n name) = name ! k # drop (Suc k) (take n name)"
    using step.hyps step.prems by (simp add: Cons_nth_drop_Suc [symmetric])
  moreover have "drop (Suc k) (take n ?name) = drop (Suc k) (take n name)" by (simp add: take_update_swap)
  ultimately show ?case using step.IH [of ?name] step.hyps step.prems by simp
qed

lemma ntfs_upcase_name_eq:
  "m \<le> length upcase \<Longrightarrow> ntfs_upcase_name (n @ g) (length n) upcase m = Some (map (upc upcase m) n @ g)"
  by (simp add: ntfs_upcase_name_def upcase_from_eq)


end
