(* ===== verification/NTFS_Collate.thy ===== *)
theory NTFS_Collate
  imports NTFS_Unistr
begin

text \<open>
  Collation of index keys, \<open>kext/ntfs_collate.c\<close> and \<open>kext/ntfs_collate.h\<close>: the four comparison
  functions and the dispatch on the collation rule.

  A key is memory from the key's first byte on, and a length in bytes. Lengths are
  natural numbers: they come from unsigned fields of index entries. \<open>memcmp\<close> is the kernel's,
  which returns the difference of the first two bytes that differ.
\<close>

section \<open>Bytes\<close>

fun le16_array :: "u8 list \<Rightarrow> u16 list" where
  "le16_array (a # b # xs) = (ucast a + 256 * ucast b) # le16_array xs"
| "le16_array xs = []"

fun le32_array :: "u8 list \<Rightarrow> u32 list" where
  "le32_array (a # b # c # d # xs) =
     (ucast a + 256 * ucast b + 65536 * ucast c + 16777216 * ucast d) # le32_array xs"
| "le32_array xs = []"

fun memcmp :: "u8 list \<Rightarrow> u8 list \<Rightarrow> nat \<Rightarrow> int option" where
  "memcmp p1 p2 0 = Some 0"
| "memcmp (a # p1) (b # p2) (Suc n) = (if a \<noteq> b then Some (uint a - uint b) else memcmp p1 p2 n)"
| "memcmp p1 p2 (Suc n) = None"

section \<open>The collation functions\<close>

record ntfs_volume =
  upcase :: "u16 list"
  upcase_len :: nat

definition ntfs_collate_binary :: "u8 list \<Rightarrow> nat \<Rightarrow> u8 list \<Rightarrow> nat \<Rightarrow> int option" where
  "ntfs_collate_binary data1 data1_len data2 data2_len = do {
     let len = (if data2_len < data1_len then data2_len else data1_len);
     rc \<leftarrow> memcmp data1 data2 len;
     Some (if rc = 0 \<and> data1_len \<noteq> data2_len then (if len = data1_len then - 1 else 1) else rc) }"

text \<open>
  A filename attribute: the length of the name in characters is the byte at 0x40, the name
  begins at 0x42, which is also the size of the structure.
\<close>

definition fn_length :: "u8 list \<Rightarrow> nat option" where
  "fn_length fn = do { l \<leftarrow> rd fn 0x40; Some (unat l) }"

definition fn_name :: "u8 list \<Rightarrow> u16 list" where
  "fn_name fn = le16_array (drop 0x42 fn)"

definition ntfs_collate_filename :: "ntfs_volume \<Rightarrow> u8 list \<Rightarrow> nat \<Rightarrow> u8 list \<Rightarrow> nat \<Rightarrow> int option" where
  "ntfs_collate_filename vol data1 data1_len data2 data2_len =
     (if data1_len < 0x42 \<or> data2_len < 0x42 then None
      else do {
        l1 \<leftarrow> fn_length data1;
        l2 \<leftarrow> fn_length data2;
        rc \<leftarrow> ntfs_collate_names (fn_name data1) l1 (fn_name data2) l2 1 False (upcase vol) (upcase_len vol);
        if rc = 0
        then ntfs_collate_names (fn_name data1) l1 (fn_name data2) l2 1 True (upcase vol) (upcase_len vol)
        else Some rc })"

function collate_ulongs_loop :: "u32 list \<Rightarrow> u32 list \<Rightarrow> nat \<Rightarrow> nat \<Rightarrow> int option option" where
  "collate_ulongs_loop p1 p2 min_len i =
     (if i < min_len then do {
        u1 \<leftarrow> rd p1 i;
        u2 \<leftarrow> rd p2 i;
        if u1 > u2 then Some (Some 1)
        else if u1 < u2 then Some (Some (- 1))
        else collate_ulongs_loop p1 p2 min_len (i + 1) }
      else Some None)"
  by pat_completeness auto
termination
  by (relation "measure (\<lambda>(p1, p2, min_len, i). min_len - i)") auto

declare collate_ulongs_loop.simps [simp del]

definition ntfs_collate_ntofs_ulongs :: "u8 list \<Rightarrow> nat \<Rightarrow> u8 list \<Rightarrow> nat \<Rightarrow> int option" where
  "ntfs_collate_ntofs_ulongs data1 data1_len data2 data2_len =
     (if data1_len mod 4 \<noteq> 0 \<or> data2_len mod 4 \<noteq> 0 then None
      else do {
        let min_len = (if data2_len < data1_len then data2_len else data1_len) div 4;
        r \<leftarrow> collate_ulongs_loop (le32_array data1) (le32_array data2) min_len 0;
        case r of
          Some rc \<Rightarrow> Some rc
        | None \<Rightarrow> Some (if data1_len < data2_len then - 1 else if data1_len = data2_len then 0 else 1) })"

text \<open>
  The rule is a 32-bit number that is read as a signed \<open>int\<close>. Every value that is no rule the
  code knows, and \<open>COLLATION_UNICODE_STRING\<close>, is a panic.
\<close>

abbreviation (input) COLLATION_BINARY :: int where "COLLATION_BINARY \<equiv> 0"

abbreviation (input) COLLATION_FILENAME :: int where "COLLATION_FILENAME \<equiv> 1"

abbreviation (input) COLLATION_UNICODE_STRING :: int where "COLLATION_UNICODE_STRING \<equiv> 2"

abbreviation (input) COLLATION_NTOFS_ULONG :: int where "COLLATION_NTOFS_ULONG \<equiv> 0x10"

abbreviation (input) COLLATION_NTOFS_SID :: int where "COLLATION_NTOFS_SID \<equiv> 0x11"

abbreviation (input) COLLATION_NTOFS_SECURITY_HASH :: int where "COLLATION_NTOFS_SECURITY_HASH \<equiv> 0x12"

abbreviation (input) COLLATION_NTOFS_ULONGS :: int where "COLLATION_NTOFS_ULONGS \<equiv> 0x13"

definition ntfs_is_collation_rule_supported :: "int \<Rightarrow> bool" where
  "ntfs_is_collation_rule_supported cr \<longleftrightarrow>
     cr \<noteq> COLLATION_UNICODE_STRING \<and> ((0 \<le> cr \<and> cr \<le> 0x02) \<or> (0x10 \<le> cr \<and> cr \<le> 0x13))"

definition ntfs_collate :: "ntfs_volume \<Rightarrow> int \<Rightarrow> u8 list \<Rightarrow> nat \<Rightarrow> u8 list \<Rightarrow> nat \<Rightarrow> int option" where
  "ntfs_collate vol cr data1 data1_len data2 data2_len =
     (if cr = COLLATION_UNICODE_STRING \<or> cr < 0 then None
      else if cr \<le> 0x02 then
        (if cr = 0 then ntfs_collate_binary data1 data1_len data2 data2_len
         else ntfs_collate_filename vol data1 data1_len data2 data2_len)
      else if cr < 0x10 then None
      else if cr - 0x10 \<le> 3 then
        (if cr - 0x10 = 1 then ntfs_collate_binary data1 data1_len data2 data2_len
         else ntfs_collate_ntofs_ulongs data1 data1_len data2 data2_len)
      else None)"

section \<open>What a collation promises\<close>

text \<open>
  The contract between the collation functions and the search in the index: on the keys
  that are \<open>ok\<close>, a total order, as a comparison whose only results are -1, 0 and 1.
\<close>

locale collation =
  fixes ok :: "'k \<Rightarrow> bool" and cmp :: "'k \<Rightarrow> 'k \<Rightarrow> int"
  assumes cmp_range: "ok x \<Longrightarrow> ok y \<Longrightarrow> cmp x y \<in> {- 1, 0, 1}"
    and cmp_eq_0: "ok x \<Longrightarrow> ok y \<Longrightarrow> cmp x y = 0 \<longleftrightarrow> x = y"
    and cmp_anti: "ok x \<Longrightarrow> ok y \<Longrightarrow> cmp y x = - cmp x y"
    and cmp_trans: "ok x \<Longrightarrow> ok y \<Longrightarrow> ok z \<Longrightarrow> cmp x y = - 1 \<Longrightarrow> cmp y z = - 1 \<Longrightarrow> cmp x z = - 1"
begin

lemma cmp_irrefl: "ok x \<Longrightarrow> cmp x x \<noteq> - 1"
  using cmp_eq_0 [of x x] by simp

lemma cmp_cases:
  assumes "ok x" "ok y"
  obtains "cmp x y = - 1" "cmp y x = 1" | "x = y" | "cmp x y = 1" "cmp y x = - 1"
  using cmp_range [OF assms] cmp_eq_0 [OF assms] cmp_anti [OF assms] by auto

text \<open>A key that is behind the last key of a sorted list, or before its first one, is not in it.\<close>

abbreviation sorted_keys :: "'k list \<Rightarrow> bool" where
  "sorted_keys ks \<equiv> sorted_wrt (\<lambda>x y. cmp x y = - 1) ks"

lemma behind_last:
  assumes "sorted_keys (xs @ [x])" "cmp x k = - 1" "\<forall>y \<in> set (xs @ [x]). ok y" "ok k"
  shows "k \<notin> set (xs @ [x])"
proof
  assume "k \<in> set (xs @ [x])"
  then have "k = x \<or> cmp k x = - 1" using assms(1) by (auto simp: sorted_wrt_append)
  then show False using assms cmp_irrefl [of k] cmp_trans [of k x k] by auto
qed

lemma before_first:
  assumes "sorted_keys (x # xs)" "cmp k x = - 1" "\<forall>y \<in> set (x # xs). ok y" "ok k"
  shows "k \<notin> set (x # xs)"
proof
  assume "k \<in> set (x # xs)"
  then have "k = x \<or> cmp x k = - 1" using assms(1) by auto
  then show False using assms cmp_irrefl [of k] cmp_trans [of k x k] by auto
qed

end

text \<open>Lists of numbers in lexicographic order: the keys of \<open>ntfs_collate_ntofs_ulongs\<close>.\<close>

interpretation ulongs: collation "\<lambda>us. True" "cmp_list :: u32 list \<Rightarrow> u32 list \<Rightarrow> int"
  by unfold_locales (use cmp_list_range cmp_list_anti cmp_list_trans in auto)

text \<open>
  File names: first without regard to case, then as they are. This is what
  \<open>ntfs_collate_filename\<close> computes for legal names.
\<close>

definition name_ok :: "ntfs_volume \<Rightarrow> u16 list \<Rightarrow> bool" where
  "name_ok vol n \<longleftrightarrow> upcase_len vol \<le> length (upcase vol) \<and> legal_name (upcase vol) (upcase_len vol) n"

definition name_cmp :: "ntfs_volume \<Rightarrow> u16 list \<Rightarrow> u16 list \<Rightarrow> int" where
  "name_cmp vol m n =
     (let f = upc (upcase vol) (upcase_len vol); rc = cmp_list (map f m) (map f n)
      in if rc = 0 then cmp_list m n else rc)"

lemma name_cmp_trans:
  assumes "name_cmp vol l m = - 1" "name_cmp vol m n = - 1"
  shows "name_cmp vol l n = - 1"
proof -
  let ?f = "map (upc (upcase vol) (upcase_len vol))"
  have "cmp_list (?f l) (?f m) = - 1 \<or> ?f l = ?f m \<and> cmp_list l m = - 1"
    "cmp_list (?f m) (?f n) = - 1 \<or> ?f m = ?f n \<and> cmp_list m n = - 1"
    using assms by (auto simp: name_cmp_def Let_def split: if_split_asm)
  then show ?thesis
    using cmp_list_trans [of l m n] cmp_list_trans [of "?f l" "?f m" "?f n"] by (auto simp: name_cmp_def Let_def)
qed

interpretation names: collation "name_ok vol" "name_cmp vol" for vol
proof
  fix x y z :: "u16 list"
  let ?f = "map (upc (upcase vol) (upcase_len vol))"
  show "name_cmp vol x y \<in> {- 1, 0, 1}"
    using cmp_list_range [of x y] cmp_list_range [of "?f x" "?f y"] by (auto simp: name_cmp_def Let_def)
  show "name_cmp vol x y = 0 \<longleftrightarrow> x = y" by (auto simp: name_cmp_def Let_def)
  show "name_cmp vol y x = - name_cmp vol x y"
    using cmp_list_anti [of y x] cmp_list_anti [of "?f y" "?f x"] by (auto simp: name_cmp_def Let_def)
qed (rule name_cmp_trans)

section \<open>Keys in memory\<close>

lemma length_le16_array [simp]: "length (le16_array xs) = length xs div 2"
  by (induction xs rule: le16_array.induct) auto

lemma le16_array_take: "take n (le16_array xs) = le16_array (take (2 * n) xs)"
proof (induction xs arbitrary: n rule: le16_array.induct)
  case (1 a b xs)
  then show ?case by (cases n) auto
qed (auto simp: take_Cons split: nat.split)

lemma byte_digit:
  "uint a + 256 * q = uint a' + 256 * q' \<Longrightarrow> a = a' \<and> q = q'" for a a' :: u8
proof -
  assume eq: "uint a + 256 * q = uint a' + 256 * q'"
  have b: "0 \<le> uint a" "uint a < 256" "0 \<le> uint a'" "uint a' < 256" using uint_lt2p [of a] uint_lt2p [of a'] by simp_all
  then have "uint a = (uint a + 256 * q) mod 256" "uint a' = (uint a' + 256 * q') mod 256" by simp_all
  then have "uint a = uint a'" using eq by simp
  then show ?thesis using eq by (simp add: word_uint_eq_iff)
qed

lemma le16_eq_iff: "ucast a + 256 * ucast b = (ucast c + 256 * ucast d :: u16) \<longleftrightarrow> a = c \<and> b = d"
  for a b c d :: u8
proof
  assume eq: "ucast a + 256 * ucast b = (ucast c + 256 * ucast d :: u16)"
  have val: "uint (ucast x + 256 * ucast y :: u16) = uint x + 256 * uint y" for x y :: u8
    using uint_lt2p [of x] uint_lt2p [of y] by (simp add: uint_word_ariths uint_up_ucast is_up)
  have "uint a + 256 * uint b = uint c + 256 * uint d" using arg_cong [OF eq, of uint] by (simp only: val)
  from byte_digit [OF this] show "a = c \<and> b = d" by (simp add: word_uint_eq_iff)
qed simp

lemma le16_array_inj: "even (length xs) \<Longrightarrow> length xs = length ys \<Longrightarrow> le16_array xs = le16_array ys \<longleftrightarrow> xs = ys"
proof (induction xs arbitrary: ys rule: le16_array.induct)
  case (1 a b xs)
  then obtain c d ys' where ys: "ys = c # d # ys'" by (metis length_Suc_conv length_Cons)
  then show ?case using 1 le16_eq_iff [of a b c d] by auto
qed auto


lemma length_le32_array [simp]: "length (le32_array xs) = length xs div 4"
  by (induction xs rule: le32_array.induct) auto

lemma le32_array_take: "take n (le32_array xs) = le32_array (take (4 * n) xs)"
proof (induction xs arbitrary: n rule: le32_array.induct)
  case (1 a b c d xs)
  have "4 * Suc m = Suc (Suc (Suc (Suc (4 * m))))" for m :: nat by simp
  then show ?case using 1 by (cases n) (simp_all only: take_Suc_Cons le32_array.simps take_0 mult_0_right)
qed (auto simp: take_Cons split: nat.split)

lemma le32_eq_iff:
  "ucast a + 256 * ucast b + 65536 * ucast c + 16777216 * ucast d =
     (ucast a' + 256 * ucast b' + 65536 * ucast c' + 16777216 * ucast d' :: u32) \<longleftrightarrow>
   a = a' \<and> b = b' \<and> c = c' \<and> d = d'"
  for a b c d a' b' c' d' :: u8
proof
  assume eq: "ucast a + 256 * ucast b + 65536 * ucast c + 16777216 * ucast d =
     (ucast a' + 256 * ucast b' + 65536 * ucast c' + 16777216 * ucast d' :: u32)"
  have val: "uint (ucast x + 256 * ucast y + 65536 * ucast z + 16777216 * ucast w :: u32) =
      uint x + 256 * uint y + 65536 * uint z + 16777216 * uint w" for x y z w :: u8
    using uint_lt2p [of x] uint_lt2p [of y] uint_lt2p [of z] uint_lt2p [of w]
    by (simp add: uint_word_ariths uint_up_ucast is_up)
  have "uint a + 256 * uint b + 65536 * uint c + 16777216 * uint d =
      uint a' + 256 * uint b' + 65536 * uint c' + 16777216 * uint d'" using arg_cong [OF eq, of uint] by (simp only: val)
  then have 1: "uint a + 256 * (uint b + 256 * (uint c + 256 * uint d)) = uint a' + 256 * (uint b' + 256 * (uint c' + 256 * uint d'))"
    by (simp add: distrib_left)
  note 2 = byte_digit [OF 1, THEN conjunct2]
  note 3 = byte_digit [OF 2, THEN conjunct2]
  show "a = a' \<and> b = b' \<and> c = c' \<and> d = d'"
    using byte_digit [OF 1, THEN conjunct1] byte_digit [OF 2, THEN conjunct1] byte_digit [OF 3, THEN conjunct1]
      word_uint_eqI [OF byte_digit [OF 3, THEN conjunct2]] by blast
qed (elim conjE, simp only:)

lemma le32_array_inj: "4 dvd length xs \<Longrightarrow> length xs = length ys \<Longrightarrow> le32_array xs = le32_array ys \<longleftrightarrow> xs = ys"
proof (induction xs arbitrary: ys rule: le32_array.induct)
  case (1 a b c d xs)
  have "length ys = Suc (Suc (Suc (Suc (length xs))))" using 1(3) by simp
  then obtain a' b' c' d' ys' where ys: "ys = a' # b' # c' # d' # ys'" by (auto simp: length_Suc_conv)
  have "length (a # b # c # d # xs) = length xs + 4" by simp
  then have "4 dvd length xs" using 1(2) by (simp only: dvd_add_triv_right_iff)
  moreover have "length xs = length ys'" using 1(3) by (simp add: ys)
  ultimately have "le32_array xs = le32_array ys' \<longleftrightarrow> xs = ys'" by (rule 1(1))
  then show ?case unfolding ys le32_array.simps(1) list.inject le32_eq_iff by blast
qed (auto simp: dvd_eq_mod_eq_0)


text \<open>The name in a filename attribute, and the numbers of a key of numbers.\<close>

definition filename_at :: "u8 list \<Rightarrow> u16 list \<Rightarrow> bool" where
  "filename_at fn n \<longleftrightarrow> fn_length fn = Some (length n) \<and> take (length n) (fn_name fn) = n"

definition ulongs_at :: "u8 list \<Rightarrow> nat \<Rightarrow> u32 list \<Rightarrow> bool" where
  "ulongs_at data len us \<longleftrightarrow> len = 4 * length us \<and> take (length us) (le32_array data) = us"

lemma filename_atE:
  assumes "filename_at fn n"
  obtains g where "fn_name fn = n @ g" "fn_length fn = Some (length n)" "2 * length n \<le> length (drop 0x42 fn)"
proof
  show "fn_name fn = n @ drop (length n) (fn_name fn)" "fn_length fn = Some (length n)"
    using assms append_take_drop_id [of "length n" "fn_name fn"] by (simp_all add: filename_at_def)
  have "length n \<le> length (fn_name fn)" using assms by (metis filename_at_def length_take min.bounded_iff order_refl)
  then show "2 * length n \<le> length (drop 0x42 fn)" unfolding fn_name_def length_le16_array by linarith
qed

lemma filename_bytes:
  assumes "filename_at fn m" "filename_at fn' n" "length m = length n"
  shows "take (2 * length n) (drop 0x42 fn) = take (2 * length n) (drop 0x42 fn') \<longleftrightarrow> m = n"
proof -
  have "m = le16_array (take (2 * length n) (drop 0x42 fn))" "n = le16_array (take (2 * length n) (drop 0x42 fn'))"
    using assms le16_array_take [of "length n" "drop 0x42 fn"] le16_array_take [of "length n" "drop 0x42 fn'"]
    by (simp_all add: filename_at_def fn_name_def)
  moreover have "2 * length n \<le> length (drop 0x42 fn)" "2 * length n \<le> length (drop 0x42 fn')"
    using assms by (metis filename_atE)+
  ultimately show ?thesis
    using le16_array_inj [of "take (2 * length n) (drop 0x42 fn)" "take (2 * length n) (drop 0x42 fn')"] by auto
qed

lemma ulongs_atE:
  assumes "ulongs_at data len us"
  obtains g where "le32_array data = us @ g" "len = 4 * length us" "len \<le> length data"
proof
  show "le32_array data = us @ drop (length us) (le32_array data)" "len = 4 * length us"
    using assms append_take_drop_id [of "length us" "le32_array data"] by (simp_all add: ulongs_at_def)
  have "length us \<le> length (le32_array data)" using assms by (metis ulongs_at_def length_take min.bounded_iff order_refl)
  then show "len \<le> length data" using assms unfolding ulongs_at_def length_le32_array by linarith
qed

lemma ulongs_bytes:
  assumes "ulongs_at data len us" "ulongs_at data' len vs"
  shows "take len data = take len data' \<longleftrightarrow> us = vs"
proof -
  have l: "len = 4 * length us" "length vs = length us" using assms by (auto simp: ulongs_at_def)
  have "us = le32_array (take len data)" "vs = le32_array (take len data')"
    using assms le32_array_take [of "length us" data] le32_array_take [of "length us" data'] l by (simp_all add: ulongs_at_def)
  moreover have "len \<le> length data" "len \<le> length data'" using assms by (metis ulongs_atE)+
  ultimately show ?thesis using le32_array_inj [of "take len data" "take len data'"] l by auto
qed

section \<open>The functions compute the orders\<close>

lemma ntfs_collate_filename_eq:
  assumes "filename_at d1 m" "filename_at d2 n" "0x42 \<le> l1" "0x42 \<le> l2" "name_ok vol m"
  shows "ntfs_collate_filename vol d1 l1 d2 l2 = Some (name_cmp vol m n)"
proof -
  obtain g1 where g1: "fn_name d1 = m @ g1" "fn_length d1 = Some (length m)" using filename_atE [OF assms(1)] .
  obtain g2 where g2: "fn_name d2 = n @ g2" "fn_length d2 = Some (length n)" using filename_atE [OF assms(2)] .
  have "ntfs_collate_names (fn_name d1) (length m) (fn_name d2) (length n) 1 cs (upcase vol) (upcase_len vol) =
      Some (cmp_list (map (name_fold cs (upcase vol) (upcase_len vol)) m) (map (name_fold cs (upcase vol) (upcase_len vol)) n))" for cs
    using ntfs_collate_names_eq [OF _ _ g1(1) g2(1)] assms(5) by (simp add: name_ok_def)
  then show ?thesis using assms(3,4) g1(2) g2(2)
    by (simp add: ntfs_collate_filename_def name_cmp_def name_fold_def Let_def)
qed

lemma collate_ulongs_loop_eq:
  assumes "i \<le> m" "m \<le> length p1" "m \<le> length p2"
  shows "collate_ulongs_loop p1 p2 m i =
    Some (if drop i (take m p1) = drop i (take m p2) then None else Some (cmp_list (drop i (take m p1)) (drop i (take m p2))))"
  using assms(1)
proof (induction i rule: inc_induct)
  case base
  then show ?case by (subst collate_ulongs_loop.simps) simp
next
  case (step k)
  have d: "drop k (take m p1) = p1 ! k # drop (Suc k) (take m p1)" "drop k (take m p2) = p2 ! k # drop (Suc k) (take m p2)"
    using step.hyps assms(2,3) by (simp_all add: Cons_nth_drop_Suc [symmetric])
  have "rd p1 k = Some (p1 ! k)" "rd p2 k = Some (p2 ! k)" using step.hyps assms(2,3) by (simp_all add: rd_def)
  then show ?case using step.IH step.hyps unfolding d collate_ulongs_loop.simps [of _ _ _ k]
    by (simp add: not_less_iff_gr_or_eq)
qed

lemma ntfs_collate_ulongs_eq:
  assumes "ulongs_at d1 l1 us" "ulongs_at d2 l2 vs"
  shows "ntfs_collate_ntofs_ulongs d1 l1 d2 l2 = Some (cmp_list us vs)"
proof -
  let ?m = "min (length us) (length vs)"
  obtain g1 where g1: "le32_array d1 = us @ g1" "l1 = 4 * length us" using ulongs_atE [OF assms(1)] .
  obtain g2 where g2: "le32_array d2 = vs @ g2" "l2 = 4 * length vs" using ulongs_atE [OF assms(2)] .
  have m: "(if l2 < l1 then l2 else l1) div 4 = ?m" unfolding g1(2) g2(2) by (simp add: min_def)
  have t: "take ?m (le32_array d1) = take ?m us" "take ?m (le32_array d2) = take ?m vs"
    unfolding g1(1) g2(1) by (simp_all add: min_def)
  have "collate_ulongs_loop (le32_array d1) (le32_array d2) ?m 0 =
      Some (if take ?m us = take ?m vs then None else Some (cmp_list (take ?m us) (take ?m vs)))"
    using collate_ulongs_loop_eq [of 0 ?m "le32_array d1" "le32_array d2"] unfolding drop_0 t by (simp add: g1(1) g2(1))
  moreover have "cmp_list us vs = (if take ?m us = take ?m vs then cmp_list (drop ?m us) (drop ?m vs)
      else cmp_list (take ?m us) (take ?m vs))"
    using cmp_list_append [of "take ?m us" "take ?m vs" "drop ?m us" "drop ?m vs"] by simp
  moreover have "cmp_list (drop ?m us) (drop ?m vs) = (if l1 < l2 then - 1 else if l1 = l2 then 0 else 1)"
    unfolding g1(2) g2(2) by (cases "drop (length vs) us"; cases "drop (length us) vs") (auto simp: min_def)
  ultimately show ?thesis unfolding ntfs_collate_ntofs_ulongs_def Let_def m by (simp add: g1(2) g2(2))
qed

text \<open>
  C24. Filename collation is a total order. On attributes with legal names
  \<open>ntfs_collate_filename\<close> returns -1, 0 or 1, and 0 only for the same name; it is
  antisymmetric and transitive.
\<close>

theorem filename_collation_order:
  assumes "filename_at d1 l" "filename_at d2 m" "filename_at d3 n" "name_ok vol l" "name_ok vol m" "name_ok vol n"
    and "0x42 \<le> l1" "0x42 \<le> l2" "0x42 \<le> l3"
  shows "ntfs_collate_filename vol d1 l1 d2 l2 \<in> {Some (- 1), Some 0, Some 1} \<and>
    (ntfs_collate_filename vol d1 l1 d2 l2 = Some 0 \<longleftrightarrow> l = m) \<and>
    (ntfs_collate_filename vol d1 l1 d2 l2 = Some (- 1) \<longleftrightarrow> ntfs_collate_filename vol d2 l2 d1 l1 = Some 1) \<and>
    (ntfs_collate_filename vol d1 l1 d2 l2 = Some (- 1) \<longrightarrow> ntfs_collate_filename vol d2 l2 d3 l3 = Some (- 1) \<longrightarrow>
     ntfs_collate_filename vol d1 l1 d3 l3 = Some (- 1))"
proof -
  have eq: "ntfs_collate_filename vol d1 l1 d2 l2 = Some (name_cmp vol l m)" "ntfs_collate_filename vol d2 l2 d1 l1 = Some (name_cmp vol m l)"
    "ntfs_collate_filename vol d2 l2 d3 l3 = Some (name_cmp vol m n)" "ntfs_collate_filename vol d1 l1 d3 l3 = Some (name_cmp vol l n)"
    using assms by (auto intro!: ntfs_collate_filename_eq)
  show ?thesis unfolding eq
    using names.cmp_range [OF assms(4,5)] names.cmp_eq_0 [OF assms(4,5)] names.cmp_anti [OF assms(4,5)] names.cmp_trans [OF assms(4-6)]
    by auto
qed

theorem filename_collation_order_witness:
  "ntfs_collate_filename \<lparr>upcase = [], upcase_len = 0\<rparr> (replicate 64 0 @ [1, 0, 0x61, 0]) 68 (replicate 64 7 @ [1, 0, 0x61, 0]) 68 = Some 0"
proof -
  have f: "filename_at (replicate 64 b @ [1, 0, 0x61, 0]) [0x61]" for b
    by (simp add: filename_at_def fn_length_def fn_name_def rd_def nth_append)
  have "name_ok \<lparr>upcase = [], upcase_len = 0\<rparr> [0x61]" by (simp add: name_ok_def legal_name_def bad_char_def upc_def)
  then show ?thesis using filename_collation_order [OF f [of 0] f [of 7] f [of 0], of "\<lparr>upcase = [], upcase_len = 0\<rparr>" 68 68 68] by simp
qed

end
