(* ===== verification/NTFS_Index.thy ===== *)
theory NTFS_Index
  imports NTFS_Collate
begin

text \<open>
  Lookup in an index, a B+tree, of \<open>kext/ntfs_index.c\<close>: gathering the entries of a node
  (\<open>ntfs_index_get_entries\<close>), binary search in it (\<open>ntfs_index_lookup_in_node\<close>), preparing a
  context (\<open>ntfs_index_lookup_init\<close>), descending into a child node
  (\<open>ntfs_index_descend_into_child_node\<close>) and the whole lookup (\<open>ntfs_index_lookup\<close>).

  A node is the memory from its index header on, and a pointer to an entry is its offset
  there. What the file system layers below the index return is a parameter: \<open>page_map\<close> gives
  the page of the index allocation at an offset or an error, \<open>alloc\<close> says whether an
  allocation of so many elements succeeds, and \<open>index_root_result\<close> is what mapping the mft
  record and looking up the index root attribute came to. Locks are not modelled. Where the
  code frees or unmaps on an error path, the model returns the error.
\<close>

section \<open>Index entries\<close>

text \<open>
  The header of an entry: \<open>data_offset\<close> at 0 and \<open>data_length\<close> at 2 (view indexes), \<open>length\<close> at 8,
  \<open>key_length\<close> at 10, \<open>flags\<close> at 12, 16 bytes in all; then the key.
\<close>

abbreviation ie_length :: "u8 list \<Rightarrow> nat \<Rightarrow> nat option" where
  "ie_length mem ie \<equiv> rd16 mem (ie + 8)"

abbreviation ie_key_length :: "u8 list \<Rightarrow> nat \<Rightarrow> nat option" where
  "ie_key_length mem ie \<equiv> rd16 mem (ie + 10)"

abbreviation ie_key :: "u8 list \<Rightarrow> nat \<Rightarrow> u8 list" where
  "ie_key mem ie \<equiv> drop (ie + 16) mem"

definition ie_is_end :: "u8 list \<Rightarrow> nat \<Rightarrow> bool option" where
  "ie_is_end mem ie = do { f \<leftarrow> rd16 mem (ie + 12); Some (f div 2 mod 2 = 1) }"

definition ie_is_node :: "u8 list \<Rightarrow> nat \<Rightarrow> bool option" where
  "ie_is_node mem ie = do { f \<leftarrow> rd16 mem (ie + 12); Some (f mod 2 = 1) }"

definition ntfs_is_index_entry_valid :: "u8 list \<Rightarrow> nat \<Rightarrow> nat \<Rightarrow> bool option" where
  "ntfs_is_index_entry_valid mem ie index_end = do {
     len \<leftarrow> ie_length mem ie;
     if len < 16 \<or> index_end < ie + len then Some False
     else do { klen \<leftarrow> ie_key_length mem ie; Some (16 + klen \<le> len) } }"

text \<open>The further bounds checks for view indexes.\<close>

definition ie_view_bad :: "u8 list \<Rightarrow> nat \<Rightarrow> bool option" where
  "ie_view_bad mem ie = do {
     klen \<leftarrow> ie_key_length mem ie;
     dofs \<leftarrow> rd16 mem ie;
     if dofs < 16 + klen then Some True
     else do {
       dlen \<leftarrow> rd16 mem (ie + 2);
       len \<leftarrow> ie_length mem ie;
       Some (len < dofs + dlen) } }"

lemma valid_length: "ntfs_is_index_entry_valid mem ie index_end = Some True \<Longrightarrow>
    \<exists>len. ie_length mem ie = Some len \<and> 16 \<le> len \<and> ie + len \<le> index_end"
  by (auto simp: ntfs_is_index_entry_valid_def bind_eq_Some_conv split: if_splits)

text \<open>
  The loop over the entries: \<open>Inl\<close> is the error return, \<open>None\<close> the panic for more entries than
  the array has room for.
\<close>

function gather_entries :: "bool \<Rightarrow> u8 list \<Rightarrow> nat \<Rightarrow> nat \<Rightarrow> nat \<Rightarrow> nat list \<Rightarrow> (errno + nat list) option" where
  "gather_entries is_view mem index_end max_entries ie entries =
     (case ntfs_is_index_entry_valid mem ie index_end of
        None \<Rightarrow> None
      | Some False \<Rightarrow> Some (Inl EIO)
      | Some True \<Rightarrow>
          if max_entries \<le> length entries then None
          else do {
            last \<leftarrow> ie_is_end mem ie;
            if last then Some (Inr (entries @ [ie]))
            else do {
              bad \<leftarrow> (if is_view then ie_view_bad mem ie else Some False);
              if bad then Some (Inl EIO)
              else do {
                len \<leftarrow> ie_length mem ie;
                gather_entries is_view mem index_end max_entries (ie + len) (entries @ [ie]) } } })"
  by pat_completeness auto
termination
  by (relation "measure (\<lambda>(is_view, mem, index_end, max_entries, ie, entries). index_end - ie)")
    (auto dest!: valid_length)

declare gather_entries.simps [simp del]

section \<open>Contexts\<close>

text \<open>
  An index inode and a context. \<open>i_mem\<close> is the memory from \<open>ictx->index\<close> on; \<open>page\<close> and
  \<open>upl_ofs\<close> are the mapped page of a node that is not the root. The tree path is the list of
  contexts from the bottom up.
\<close>

record ntfs_index_inode =
  i_vol :: ntfs_volume
  is_view :: bool
  collation_rule :: int
  block_size :: nat
  vcn_size_shift :: nat
  index_alloc_present :: bool
  mft_record_size :: nat

record ntfs_index_context =
  i_mem :: "u8 list"
  i_page :: "u8 list"
  upl_ofs :: int
  is_root :: bool
  entries :: "nat list"
  nr_entries :: nat
  max_entries :: nat
  entry_nr :: nat

definition ntfs_index_ctx_init :: ntfs_index_context where
  "ntfs_index_ctx_init = \<lparr>i_mem = [], i_page = [], upl_ofs = 0, is_root = False, entries = [],
     nr_entries = 0, max_entries = 0, entry_nr = 0\<rparr>"

text \<open>The header of a node: \<open>entries_offset\<close>, \<open>index_length\<close>, \<open>allocated_size\<close>, \<open>flags\<close>.\<close>

definition ntfs_index_get_entries ::
    "(nat \<Rightarrow> bool) \<Rightarrow> ntfs_index_inode \<Rightarrow> ntfs_index_context \<Rightarrow> (errno \<times> ntfs_index_context) option" where
  "ntfs_index_get_entries alloc ni ictx =
     (if \<not> alloc (max_entries ictx) then Some (ENOMEM, ictx)
      else do {
        index_end \<leftarrow> rd32 (i_mem ictx) 4;
        ie \<leftarrow> rd32 (i_mem ictx) 0;
        r \<leftarrow> gather_entries (is_view ni) (i_mem ictx) index_end (max_entries ictx) ie [];
        case r of
          Inl err \<Rightarrow> Some (err, ictx)
        | Inr es \<Rightarrow> do {
            flags \<leftarrow> rd (i_mem ictx) 12;
            if length es < 2 \<and> \<not> is_root ictx \<and> unat flags mod 2 = 0 then Some (EIO, ictx)
            else Some (EOK, ictx\<lparr>entries := es, nr_entries := length es\<rparr>) } })"

text \<open>
  Preparing a context. The error path of the function returns \<open>err\<close> as it is; after a missing
  index root attribute that is 0, as the code sets it. The sizes of the structures are
  those of \<open>ntfs_layout.h\<close>; \<open>size_t\<close> arithmetic is modulo \<open>2 ^ 64\<close>.
\<close>

record index_root_result =
  record_map_err :: errno
  search_ctx_ok :: bool
  attr_lookup_err :: errno
  attrs_offset :: nat
  root_index :: "u8 list"

definition usub64 :: "nat \<Rightarrow> nat \<Rightarrow> nat" where
  "usub64 a b = (a + (2 ^ 64 - b mod 2 ^ 64)) mod 2 ^ 64"

definition min_entry_size :: "ntfs_index_inode \<Rightarrow> nat \<Rightarrow> nat" where
  "min_entry_size ni key_len =
     (if collation_rule ni \<noteq> COLLATION_FILENAME then
        (if collation_rule ni = COLLATION_NTOFS_SID then 16 + 12 else 16 + key_len)
      else 16 + 66)"

definition index_max_entries :: "ntfs_index_inode \<Rightarrow> nat \<Rightarrow> nat \<Rightarrow> nat" where
  "index_max_entries ni key_len attrs_ofs =
     (let min_size = min_entry_size ni key_len;
          n = uwrap (1 + usub64 (block_size ni) (40 + 16) div min_size)
      in if block_size ni < mft_record_size ni then
           (let n_root = uwrap (1 + usub64 (mft_record_size ni) (attrs_ofs + 23 + 1 + 32 + 16) div min_size)
            in if n < n_root then n_root else n)
         else n)"

text \<open>
  A context that has been used already, recognised by its \<open>max_entries\<close>, is a panic. The code also
  panics if the context is not the only node of its list (\<open>ictx->up != ictx\<close>): the argument here is a
  single node, so that this is the case by its type.
\<close>

definition ntfs_index_lookup_init ::
    "(nat \<Rightarrow> bool) \<Rightarrow> ntfs_index_inode \<Rightarrow> index_root_result \<Rightarrow> nat \<Rightarrow> ntfs_index_context \<Rightarrow>
     (errno \<times> ntfs_index_context) option" where
  "ntfs_index_lookup_init alloc ni res key_len ictx =
     (if max_entries ictx \<noteq> 0 then None
      else if \<not> ntfs_is_collation_rule_supported (collation_rule ni) then Some (ENOTSUP, ictx)
      else if record_map_err res \<noteq> EOK then Some (record_map_err res, ictx)
      else if \<not> search_ctx_ok res then Some (ENOMEM, ictx)
      else if attr_lookup_err res = ENOENT then Some (EOK, ictx)
      else if attr_lookup_err res \<noteq> EOK then Some (attr_lookup_err res, ictx)
      else ntfs_index_get_entries alloc ni
             (ictx\<lparr>max_entries := index_max_entries ni key_len (attrs_offset res), i_mem := root_index res, is_root := True\<rparr>))"

section \<open>Search in a node\<close>

text \<open>\<open>bcmp\<close> of \<open>n\<close> bytes, as equality.\<close>

definition bcmp_equal :: "u8 list \<Rightarrow> u8 list \<Rightarrow> nat \<Rightarrow> bool option" where
  "bcmp_equal p q n = (if n \<le> length p \<and> n \<le> length q then Some (take n p = take n q) else None)"

text \<open>What is searched for: the key, and the part of it that is compared for an exact match.\<close>

record index_key =
  key :: "u8 list"
  key_len :: nat
  match_key :: "u8 list"
  match_key_len :: nat

text \<open>Comparing with one entry: 0 for an exact match, otherwise what the collation returns.\<close>

definition node_probe :: "ntfs_index_inode \<Rightarrow> index_key \<Rightarrow> u8 list \<Rightarrow> nat \<Rightarrow> int option" where
  "node_probe ni k mem ie = do {
     (ie_match_key_len, ie_match_key) \<leftarrow>
       (if \<not> is_view ni then do { l \<leftarrow> fn_length (ie_key mem ie); Some (2 * l, drop 0x42 (ie_key mem ie)) }
        else do { l \<leftarrow> ie_key_length mem ie; Some (l, ie_key mem ie) });
     same \<leftarrow> (if match_key_len k = ie_match_key_len
               then bcmp_equal (match_key k) ie_match_key ie_match_key_len else Some False);
     if same then Some 0
     else do {
       klen \<leftarrow> ie_key_length mem ie;
       ntfs_collate (i_vol ni) (collation_rule ni) (key k) (key_len k) (ie_key mem ie) klen } }"

text \<open>
  The binary search, for any way to compare. The result is whether there was a match, and
  the number of the entry. \<open>min_left\<close> is never above \<open>max_right\<close>: see \<open>node_search_located\<close>.
\<close>

function node_search :: "(nat \<Rightarrow> int option) \<Rightarrow> nat list \<Rightarrow> nat \<Rightarrow> nat \<Rightarrow> (bool \<times> nat) option" where
  "node_search probe es min_left max_right =
     (if max_right < min_left then None
      else (let cur_entry = (min_left + max_right) div 2 in
        case rd es cur_entry of
          None \<Rightarrow> None
        | Some ie \<Rightarrow>
           (case probe ie of
              None \<Rightarrow> None
            | Some rc \<Rightarrow>
                if rc = 0 then Some (True, cur_entry)
                else if rc = - 1 then
                  (if cur_entry = min_left then Some (False, cur_entry)
                   else node_search probe es min_left (cur_entry - 1))
                else
                  (if cur_entry = max_right then Some (False, cur_entry + 1)
                   else node_search probe es (cur_entry + 1) max_right))))"
  by pat_completeness auto
termination
  by (relation "measure (\<lambda>(probe, es, min_left, max_right). Suc max_right - min_left)") auto

declare node_search.simps [simp del]

definition ntfs_index_lookup_in_node ::
    "ntfs_index_inode \<Rightarrow> ntfs_index_context \<Rightarrow> index_key \<Rightarrow> (errno \<times> ntfs_index_context) option" where
  "ntfs_index_lookup_in_node ni ictx k = do {
     (found, i) \<leftarrow>
       (if nr_entries ictx = 1 then Some (False, 0)
        else node_search (node_probe ni k (i_mem ictx)) (entries ictx) 0 (usub (nr_entries ictx) 2));
     ie \<leftarrow> rd (entries ictx) i;
     Some (if found then EOK else ENOENT, ictx\<lparr>entry_nr := i\<rparr>) }"

section \<open>Descending\<close>

abbreviation magic_INDX :: nat where "magic_INDX \<equiv> 0x58444e49"

text \<open>The page size is that of x86-64.\<close>

abbreviation PAGE_SIZE :: nat where "PAGE_SIZE \<equiv> 4096"

text \<open>The checks of the index block at offset \<open>ia\<close> of a page: an error, or that it is good.\<close>

definition index_block_check :: "ntfs_index_inode \<Rightarrow> u8 list \<Rightarrow> nat \<Rightarrow> int \<Rightarrow> errno option" where
  "index_block_check ni page ia vcn = do {
     magic \<leftarrow> rd32 page ia;
     if magic \<noteq> magic_INDX then Some EIO
     else do {
       ia_vcn \<leftarrow> rd64 page (ia + 16);
       if ia_vcn \<noteq> vcn then Some EIO
       else do {
         allocated_size \<leftarrow> rd32 page (ia + 24 + 8);
         if 24 + allocated_size \<noteq> block_size ni then Some EIO
         else if PAGE_SIZE < ia + block_size ni then None
         else do {
           index_length \<leftarrow> rd32 page (ia + 24 + 4);
           Some (if block_size ni < 24 + index_length then EIO else EOK) } } } }"

definition ntfs_index_descend_into_child_node ::
    "(int \<Rightarrow> errno + u8 list) \<Rightarrow> (nat \<Rightarrow> bool) \<Rightarrow> ntfs_index_inode \<Rightarrow> ntfs_index_context \<Rightarrow>
     (errno \<times> ntfs_index_context) option" where
  "ntfs_index_descend_into_child_node page_map alloc ni ictx = do {
     ie \<leftarrow> rd (entries ictx) (entry_nr ictx);
     node \<leftarrow> ie_is_node (i_mem ictx) ie;
     if \<not> node then None
     else do {
       flags \<leftarrow> rd (i_mem ictx) 12;
       len \<leftarrow> ie_length (i_mem ictx) ie;
       if unat flags mod 2 = 0 then Some (EIO, ictx)
       else do {
         vcn \<leftarrow> (if ie + len < 8 then None else rd64 (i_mem ictx) (ie + len - 8));
         let pos = s64 (vcn * 2 ^ vcn_size_shift ni);
         let ofs = pos - pos mod int PAGE_SIZE;
         if vcn < 0 \<or> (is_root ictx \<and> \<not> index_alloc_present ni) then Some (EIO, ictx)
         else (case (if \<not> is_root ictx \<and> ofs = upl_ofs ictx then Inr (i_page ictx) else page_map ofs) of
             Inl err \<Rightarrow> Some (err, ictx)
           | Inr page \<Rightarrow> do {
               let ia = nat (pos mod int PAGE_SIZE);
               err \<leftarrow> index_block_check ni page ia vcn;
               if err \<noteq> EOK then Some (err, ictx)
               else if \<not> alloc 1 then Some (ENOMEM, ictx)
               else ntfs_index_get_entries alloc ni
                      \<lparr>i_mem = drop (ia + 24) page, i_page = page, upl_ofs = ofs, is_root = False, entries = [],
                        nr_entries = 0, max_entries = max_entries ictx, entry_nr = 0\<rparr> }) } } }"

section \<open>The lookup\<close>

text \<open>
  The loop of \<open>ntfs_index_lookup\<close>, which ends only where an entry is found or has no child
  node: \<open>depth\<close> bounds how often it descends, and \<open>None\<close> is also the result when that is
  exceeded. The result holds the tree path, the bottom-most context first.
\<close>

fun index_lookup_from ::
    "nat \<Rightarrow> (int \<Rightarrow> errno + u8 list) \<Rightarrow> (nat \<Rightarrow> bool) \<Rightarrow> ntfs_index_inode \<Rightarrow> index_key \<Rightarrow>
     ntfs_index_context list \<Rightarrow> ntfs_index_context \<Rightarrow> (errno \<times> ntfs_index_context list) option" where
  "index_lookup_from depth page_map alloc ni k path ictx = do {
     (err, ictx) \<leftarrow> ntfs_index_lookup_in_node ni ictx k;
     ie \<leftarrow> rd (entries ictx) (entry_nr ictx);
     node \<leftarrow> ie_is_node (i_mem ictx) ie;
     if err = EOK \<or> \<not> node then Some (err, ictx # path)
     else case depth of
       0 \<Rightarrow> None
     | Suc d \<Rightarrow> do {
         (err, child) \<leftarrow> ntfs_index_descend_into_child_node page_map alloc ni ictx;
         if err \<noteq> EOK then Some (err, ictx # path)
         else index_lookup_from d page_map alloc ni k (ictx # path) child } }"

declare index_lookup_from.simps [simp del]

definition ntfs_index_lookup ::
    "nat \<Rightarrow> (int \<Rightarrow> errno + u8 list) \<Rightarrow> (nat \<Rightarrow> bool) \<Rightarrow> ntfs_index_inode \<Rightarrow> index_root_result \<Rightarrow>
     u8 list \<Rightarrow> nat \<Rightarrow> ntfs_index_context \<Rightarrow> (errno \<times> ntfs_index_context list) option" where
  "ntfs_index_lookup depth page_map alloc ni res data data_len ictx =
     (if data = [] \<or> data_len = 0 then None
      else do {
        k \<leftarrow> (if \<not> is_view ni then do {
                l \<leftarrow> fn_length data;
                Some \<lparr>key = data, key_len = data_len, match_key = drop 0x42 data, match_key_len = 2 * l\<rparr> }
              else Some \<lparr>key = data, key_len = data_len, match_key = data, match_key_len = data_len\<rparr>);
        (err, ictx) \<leftarrow> ntfs_index_lookup_init alloc ni res data_len ictx;
        if err \<noteq> EOK then Some (err, [ictx])
        else index_lookup_from depth page_map alloc ni k [] ictx })"

end
