(* ===== verification/NTFS_Index_Lookup.thy ===== *)
theory NTFS_Index_Lookup
  imports NTFS_Index
begin

text \<open>
  What index lookup promises. Inside the locale \<open>collation\<close> the binary search is correct for
  every total order; \<open>index_keys\<close> adds that comparing with an entry computes that order, and
  proves the lookup in a whole tree. The locale is interpreted for directories
  (\<open>COLLATION_FILENAME\<close>) and for the indexes of numbers; the collation of security identifiers
  does not satisfy it, and an example shows the lookup that fails. The last part is
  about the entries of a node: bounds, and what a corrupt node can do.
\<close>

section \<open>The binary search\<close>

text \<open>
  Where the comparison is a collation and the entries are sorted, the search finds the
  key if one of them has it, and otherwise the position where it belongs.
\<close>

context collation
begin

definition located :: "'k \<Rightarrow> 'k list \<Rightarrow> bool \<times> nat \<Rightarrow> bool" where
  "located k ks r = (case r of (found, i) \<Rightarrow>
     if found then i < length ks \<and> ks ! i = k
     else i \<le> length ks \<and> (\<forall>j < i. cmp (ks ! j) k = - 1) \<and> (\<forall>j. i \<le> j \<longrightarrow> j < length ks \<longrightarrow> cmp k (ks ! j) = - 1))"

lemma node_search_located:
  assumes sorted: "sorted_keys ks" "\<forall>x \<in> set ks. ok x" "ok k"
    and es: "length ks \<le> length es" "\<forall>i < length ks. probe (es ! i) = Some (cmp k (ks ! i))"
    and range: "l \<le> r" "r < length ks"
    and outside: "\<forall>j < l. cmp (ks ! j) k = - 1" "\<forall>j. r < j \<longrightarrow> j < length ks \<longrightarrow> cmp k (ks ! j) = - 1"
  shows "\<exists>res. node_search probe es l r = Some res \<and> located k ks res"
  using range outside
proof (induction "Suc r - l" arbitrary: l r rule: less_induct)
  case less
  let ?m = "(l + r) div 2"
  have m: "l \<le> ?m" "?m \<le> r" "?m < length ks" using less.prems(1,2) by auto
  then have okm: "ok (ks ! ?m)" using sorted(2) by simp
  have rd: "rd es ?m = Some (es ! ?m)" "probe (es ! ?m) = Some (cmp k (ks ! ?m))" using es m by (simp_all add: rd_def)
  have left: "cmp (ks ! i) (ks ! j) = - 1" if "i < j" "j < length ks" for i j
    using sorted_wrt_nth_less [OF sorted(1) that] .
  have step: "node_search probe es l r = (if cmp k (ks ! ?m) = 0 then Some (True, ?m)
      else if cmp k (ks ! ?m) = - 1 then (if ?m = l then Some (False, ?m) else node_search probe es l (?m - 1))
      else (if ?m = r then Some (False, ?m + 1) else node_search probe es (?m + 1) r))"
    using less.prems(1) rd by (subst node_search.simps) (simp add: Let_def)
  from sorted(3) okm show ?case
  proof (cases rule: cmp_cases)
    case 1
    have after: "cmp k (ks ! j) = - 1" if "?m \<le> j" "j < length ks" for j
    proof (cases "j = ?m")
      case False
      then show ?thesis using 1 left [of ?m j] that cmp_trans [OF sorted(3) okm] sorted(2) by simp
    qed (use 1 in simp)
    show ?thesis
    proof (cases "?m = l")
      case True
      then show ?thesis using step 1 after less.prems m unfolding located_def by auto
    next
      case False
      then have "\<exists>res. node_search probe es l (?m - 1) = Some res \<and> located k ks res"
        using less.prems m after by (intro less.hyps) auto
      then show ?thesis using step 1 False by simp
    qed
  next
    case 2
    then have "cmp k (ks ! ?m) = 0" using cmp_eq_0 [OF sorted(3) okm] by simp
    then show ?thesis using step 2 m by (simp add: located_def)
  next
    case 3
    have before: "cmp (ks ! j) k = - 1" if "j \<le> ?m" for j
    proof (cases "j = ?m")
      case False
      then show ?thesis using 3 left [of j ?m] that m cmp_trans [OF _ okm sorted(3), of "ks ! j"] sorted(2) by simp
    qed (use 3 in simp)
    show ?thesis
    proof (cases "?m = r")
      case True
      then show ?thesis using step 3 before less.prems m unfolding located_def by auto
    next
      case False
      then have "\<exists>res. node_search probe es (?m + 1) r = Some res \<and> located k ks res"
        using less.prems m before by (intro less.hyps) auto
      then show ?thesis using step 3 False by simp
    qed
  qed
qed

end

section \<open>The tree\<close>

text \<open>
  An index as the driver reads it: a node with its entries in \<open>entries\<close>, for each entry the
  keys of the sub-node that \<open>ntfs_index_descend_into_child_node\<close> leads to (none, if the entry
  has no sub-node) and the key of the entry, and the keys of the sub-node of the end entry.
  The height bounds the length of a path. All keys, from left to right, are the last argument.
\<close>

definition tree_keys :: "('k list \<times> 'k) list \<Rightarrow> 'k list \<Rightarrow> 'k list" where
  "tree_keys cks c = concat (map (\<lambda>(c, x). c @ [x]) cks) @ c"

inductive index_tree ::
    "(u8 list \<Rightarrow> nat \<Rightarrow> 'k \<Rightarrow> bool) \<Rightarrow> (int \<Rightarrow> errno + u8 list) \<Rightarrow> (nat \<Rightarrow> bool) \<Rightarrow> ntfs_index_inode \<Rightarrow>
     nat \<Rightarrow> ntfs_index_context \<Rightarrow> 'k list \<Rightarrow> bool"
  for entry_key page_map alloc ni where
  node: "index_tree entry_key page_map alloc ni h ictx (tree_keys cks c)"
  if "entries ictx = es @ [e]" "nr_entries ictx = Suc (length es)" "length es < 2 ^ 31"
    "list_all2 (entry_key (i_mem ictx)) es (map snd cks)"
    "\<And>i. i \<le> length es \<Longrightarrow>
       ie_is_node (i_mem ictx) ((es @ [e]) ! i) = Some False \<and> (map fst cks @ [c]) ! i = [] \<or>
       ie_is_node (i_mem ictx) ((es @ [e]) ! i) = Some True \<and>
       (\<exists>g child. g < h \<and> ntfs_index_descend_into_child_node page_map alloc ni (ictx\<lparr>entry_nr := i\<rparr>) = Some (EOK, child) \<and>
          index_tree entry_key page_map alloc ni g child ((map fst cks @ [c]) ! i))"

lemma tree_keys_split:
  assumes "i \<le> length cks"
  shows "tree_keys cks c = concat (map (\<lambda>(c, x). c @ [x]) (take i cks)) @ (map fst cks @ [c]) ! i @
    (if i < length cks then snd (cks ! i) # tree_keys (drop (Suc i) cks) c else [])"
proof (cases "i < length cks")
  case True
  then have "cks = take i cks @ cks ! i # drop (Suc i) cks" by (simp add: id_take_nth_drop)
  from arg_cong [OF this, of "\<lambda>l. concat (map (\<lambda>(c, x). c @ [x]) l)"]
  have "tree_keys cks c = concat (map (\<lambda>(c, x). c @ [x]) (take i cks)) @ fst (cks ! i) @ snd (cks ! i) # tree_keys (drop (Suc i) cks) c"
    by (simp add: tree_keys_def case_prod_unfold)
  then show ?thesis using True by (simp add: nth_append)
qed (use assms in \<open>simp add: tree_keys_def nth_append\<close>)

lemma concat_pairs_snoc:
  "0 < i \<Longrightarrow> i \<le> length cks \<Longrightarrow> \<exists>xs. concat (map (\<lambda>(c, x). c @ [x]) (take i cks)) = xs @ [snd (cks ! (i - 1))]"
proof -
  assume "0 < i" "i \<le> length cks"
  then have "take i cks = take (i - 1) cks @ [cks ! (i - 1)]" by (metis Suc_diff_1 Suc_le_lessD take_Suc_conv_app_nth)
  then show ?thesis by (auto split: prod.split)
qed

lemma node_keys_subset: "snd ` set cks \<subseteq> set (tree_keys cks c)"
  by (force simp: tree_keys_def)

lemma node_keys_sorted: "sorted_wrt P (tree_keys cks c) \<Longrightarrow> sorted_wrt P (map snd cks)"
proof (induction cks)
  case (Cons ck cks)
  obtain d x where ck: "ck = (d, x)" by (cases ck)
  have "tree_keys (ck # cks) c = d @ x # tree_keys cks c" by (simp add: tree_keys_def ck)
  then show ?case using Cons node_keys_subset [of cks c] by (auto simp: ck sorted_wrt_append)
qed simp

text \<open>
  What the search needs to know about the keys of an index: the keys that are stored are
  those of a collation, and comparing with an entry computes it.
\<close>

locale index_keys = collation ok cmp for ok :: "'k \<Rightarrow> bool" and cmp :: "'k \<Rightarrow> 'k \<Rightarrow> int" +
  fixes ni :: ntfs_index_inode and query :: "index_key \<Rightarrow> 'k \<Rightarrow> bool" and entry_key :: "u8 list \<Rightarrow> nat \<Rightarrow> 'k \<Rightarrow> bool"
  assumes probe: "query q k \<Longrightarrow> entry_key mem ie x \<Longrightarrow> ok k \<Longrightarrow> ok x \<Longrightarrow> node_probe ni q mem ie = Some (cmp k x)"
begin

lemma lookup_in_node_located:
  assumes node: "entries ictx = es @ [e]" "nr_entries ictx = Suc (length es)" "length es < 2 ^ 31"
    and keys: "list_all2 (entry_key (i_mem ictx)) es ks" "sorted_keys ks" "\<forall>x \<in> set ks. ok x" "ok k" "query q k"
  shows "\<exists>found i. ntfs_index_lookup_in_node ni ictx q = Some (if found then EOK else ENOENT, ictx\<lparr>entry_nr := i\<rparr>) \<and>
    located k ks (found, i)"
proof (cases "es = []")
  case True
  then show ?thesis using node keys(1)
    by (intro exI [of _ False] exI [of _ 0]) (simp add: ntfs_index_lookup_in_node_def rd_def located_def)
next
  case False
  have l: "length ks = length es" using keys(1) by (simp add: list_all2_lengthD)
  have "node_probe ni q (i_mem ictx) ((es @ [e]) ! i) = Some (cmp k (ks ! i))" if "i < length ks" for i
    using keys that l list_all2_nthD2 [OF keys(1), of i] by (auto simp: nth_append intro!: probe)
  moreover have "\<forall>j. length es - 1 < j \<longrightarrow> j < length ks \<longrightarrow> cmp k (ks ! j) = - 1" "length es - 1 < length ks" using l False by auto
  ultimately obtain found i where s: "node_search (node_probe ni q (i_mem ictx)) (es @ [e]) 0 (length es - 1) = Some (found, i)" "located k ks (found, i)"
    using node_search_located [OF keys(2-4), of "es @ [e]" "node_probe ni q (i_mem ictx)" 0 "length es - 1"] l by auto
  then have "i \<le> length es" using l by (auto simp: located_def split: if_split_asm)
  moreover have "usub (Suc (length es)) 2 = length es - 1"
    using usub_le [of 2 "Suc (length es)"] False node(3) by (cases es) auto
  ultimately show ?thesis using s node False
    by (intro exI [of _ found] exI [of _ i]) (simp add: ntfs_index_lookup_in_node_def rd_def)
qed

text \<open>
  In a node that does not have the key itself, only the sub-node at the position that was
  found can have it.
\<close>

lemma tree_keys_located:
  assumes "sorted_keys (tree_keys cks c)" "\<forall>x \<in> set (tree_keys cks c). ok x" "ok k"
    and "located k (map snd cks) (False, i)"
  shows "k \<in> set (tree_keys cks c) \<longleftrightarrow> k \<in> set ((map fst cks @ [c]) ! i)"
proof -
  let ?pre = "concat (map (\<lambda>(c, x). c @ [x]) (take i cks))"
  let ?post = "if i < length cks then snd (cks ! i) # tree_keys (drop (Suc i) cks) c else []"
  have i: "i \<le> length cks" "\<forall>j < i. cmp (snd (cks ! j)) k = - 1" "i < length cks \<Longrightarrow> cmp k (snd (cks ! i)) = - 1"
    using assms(4) by (auto simp: located_def)
  note split = tree_keys_split [OF i(1), of c]
  have "k \<notin> set ?pre"
  proof (cases "i = 0")
    case False
    then obtain xs where xs: "?pre = xs @ [snd (cks ! (i - 1))]" using concat_pairs_snoc [of i cks] i(1) by auto
    have "sorted_keys ?pre" using assms(1) unfolding split by (simp add: sorted_wrt_append)
    moreover have "\<forall>y \<in> set ?pre. ok y" using assms(2) unfolding split by simp
    ultimately show ?thesis using behind_last [of xs "snd (cks ! (i - 1))" k] i False assms(3) unfolding xs by simp
  qed simp
  moreover have "k \<notin> set ?post"
  proof (cases "i < length cks")
    case True
    have "sorted_keys ?post" using assms(1) unfolding split sorted_wrt_append by simp
    moreover have "\<forall>y \<in> set ?post. ok y" using assms(2) unfolding split by simp
    ultimately show ?thesis using before_first [of "snd (cks ! i)" "tree_keys (drop (Suc i) cks) c" k] i(3) True assms(3) by simp
  qed simp
  ultimately show ?thesis unfolding split set_append Un_iff by blast
qed

lemma lookup_from_tree:
  assumes "index_tree entry_key page_map alloc ni h ictx keys" "h \<le> depth"
    and "sorted_keys keys" "\<forall>x \<in> set keys. ok x" "ok k" "query q k"
  shows "\<exists>err c path'. index_lookup_from depth page_map alloc ni q path ictx = Some (err, c # path') \<and>
    (if k \<in> set keys then err = EOK \<and> (\<exists>ie. rd (entries c) (entry_nr c) = Some ie \<and> entry_key (i_mem c) ie k) else err = ENOENT)"
  using assms(1-4)
proof (induction arbitrary: depth path)
  case (node ictx es e cks c h)
  have ks: "sorted_keys (map snd cks)" "\<forall>x \<in> set (map snd cks). ok x"
    using node.prems(2,3) node_keys_sorted node_keys_subset [of cks c] by auto
  obtain found i where n: "ntfs_index_lookup_in_node ni ictx q = Some (if found then EOK else ENOENT, ictx\<lparr>entry_nr := i\<rparr>)"
    and loc: "located k (map snd cks) (found, i)"
    using lookup_in_node_located [OF node.hyps(1-4) ks assms(5,6)] by blast
  have l: "length cks = length es" using node.hyps(4) by (simp add: list_all2_lengthD)
  then have i: "i \<le> length es" using loc by (auto simp: located_def split: if_split_asm)
  have rd: "rd (es @ [e]) i = Some ((es @ [e]) ! i)" using i by (simp add: rd_def)
  consider "ie_is_node (i_mem ictx) ((es @ [e]) ! i) = Some False" "(map fst cks @ [c]) ! i = []"
    | g child where "ie_is_node (i_mem ictx) ((es @ [e]) ! i) = Some True" "g < h"
      "ntfs_index_descend_into_child_node page_map alloc ni (ictx\<lparr>entry_nr := i\<rparr>) = Some (EOK, child)"
      "index_tree entry_key page_map alloc ni g child ((map fst cks @ [c]) ! i)"
      "\<And>depth path. g \<le> depth \<Longrightarrow> sorted_keys ((map fst cks @ [c]) ! i) \<Longrightarrow> \<forall>x \<in> set ((map fst cks @ [c]) ! i). ok x \<Longrightarrow>
        \<exists>err d path'. index_lookup_from depth page_map alloc ni q path child = Some (err, d # path') \<and>
          (if k \<in> set ((map fst cks @ [c]) ! i) then err = EOK \<and> (\<exists>ie. rd (entries d) (entry_nr d) = Some ie \<and> entry_key (i_mem d) ie k) else err = ENOENT)"
    using node.IH [OF i] by blast
  note sub = this
  have step: "index_lookup_from depth page_map alloc ni q path ictx = do {
      node \<leftarrow> ie_is_node (i_mem ictx) ((es @ [e]) ! i);
      if found \<or> \<not> node then Some (if found then EOK else ENOENT, ictx\<lparr>entry_nr := i\<rparr> # path)
      else case depth of 0 \<Rightarrow> None
      | Suc d \<Rightarrow> do {
          (err, child) \<leftarrow> ntfs_index_descend_into_child_node page_map alloc ni (ictx\<lparr>entry_nr := i\<rparr>);
          if err \<noteq> EOK then Some (err, ictx\<lparr>entry_nr := i\<rparr> # path)
          else index_lookup_from d page_map alloc ni q (ictx\<lparr>entry_nr := i\<rparr> # path) child } }"
    using n rd node.hyps(1) by (subst index_lookup_from.simps) (cases found; simp)
  show ?case
  proof (cases found)
    case True
    then have k: "i < length es" "k = snd (cks ! i)" using loc l by (auto simp: located_def)
    then have "entry_key (i_mem ictx) ((es @ [e]) ! i) k"
      using list_all2_nthD [OF node.hyps(4), of i] l by (simp add: nth_append)
    moreover have "k \<in> set (tree_keys cks c)" using k l node_keys_subset [of cks c] by (metis image_subset_iff nth_mem)
    moreover have "index_lookup_from depth page_map alloc ni q path ictx = Some (EOK, ictx\<lparr>entry_nr := i\<rparr> # path)"
      using sub True by cases (simp_all add: step)
    ultimately show ?thesis using rd node.hyps(1) by simp
  next
    case False
    have keys: "k \<in> set (tree_keys cks c) \<longleftrightarrow> k \<in> set ((map fst cks @ [c]) ! i)"
      using tree_keys_located [OF node.prems(2,3) assms(5)] loc False by simp
    from sub show ?thesis
    proof cases
      case 1
      then show ?thesis using False keys by (simp add: step)
    next
      case (2 g child)
      then obtain d where d: "depth = Suc d" "g \<le> d" using node.prems(1) by (cases depth) auto
      have "sorted_keys ((map fst cks @ [c]) ! i)" "\<forall>x \<in> set ((map fst cks @ [c]) ! i). ok x"
        using node.prems(2,3) unfolding tree_keys_split [OF i [folded l]] by (simp_all add: sorted_wrt_append)
      moreover have "index_lookup_from depth page_map alloc ni q path ictx =
          index_lookup_from d page_map alloc ni q (ictx\<lparr>entry_nr := i\<rparr> # path) child"
        using 2(1,3) False d(1) by (subst step) simp
      ultimately show ?thesis using 2(5) [OF d(2), of "ictx\<lparr>entry_nr := i\<rparr> # path"] unfolding keys by simp
    qed
  qed
qed

end

section \<open>Directories and indexes of numbers\<close>

definition dir_query :: "ntfs_index_inode \<Rightarrow> index_key \<Rightarrow> u16 list \<Rightarrow> bool" where
  "dir_query ni q n \<longleftrightarrow> \<not> is_view ni \<and> collation_rule ni = COLLATION_FILENAME \<and> filename_at (key q) n \<and>
     0x42 \<le> key_len q \<and> match_key q = drop 0x42 (key q) \<and> match_key_len q = 2 * length n"

definition dir_key :: "u8 list \<Rightarrow> nat \<Rightarrow> u16 list \<Rightarrow> bool" where
  "dir_key mem ie n \<longleftrightarrow> filename_at (ie_key mem ie) n \<and> (\<exists>l. ie_key_length mem ie = Some l \<and> 0x42 \<le> l)"

lemma dir_probe:
  assumes "dir_query ni q m" "dir_key mem ie n" "name_ok (i_vol ni) m"
  shows "node_probe ni q mem ie = Some (name_cmp (i_vol ni) m n)"
proof -
  let ?fn = "drop (ie + 16) mem"
  have q: "\<not> is_view ni" "collation_rule ni = 1" "filename_at (key q) m" "0x42 \<le> key_len q"
    "match_key q = drop 0x42 (key q)" "match_key_len q = 2 * length m" using assms(1) by (auto simp: dir_query_def)
  obtain l where e: "filename_at ?fn n" "ie_key_length mem ie = Some l" "0x42 \<le> l" using assms(2) by (auto simp: dir_key_def)
  have fl: "fn_length ?fn = Some (length n)" "2 * length n \<le> length (drop 0x42 ?fn)" "2 * length m \<le> length (drop 0x42 (key q))"
    using e(1) q(3) by (auto elim: filename_atE)
  have c: "ntfs_collate (i_vol ni) (collation_rule ni) (key q) (key_len q) ?fn l = Some (name_cmp (i_vol ni) m n)"
    using ntfs_collate_filename_eq [OF q(3) e(1) q(4) e(3) assms(3)] by (simp add: ntfs_collate_def q(2))
  have z: "name_cmp (i_vol ni) n n = 0" by (simp add: name_cmp_def)
  show ?thesis
  proof (cases "length m = length n")
    case True
    have b: "bcmp_equal (match_key q) (drop 0x42 ?fn) (2 * length n) = Some (m = n)"
      using fl(2,3) True filename_bytes [OF q(3) e(1) True] unfolding bcmp_equal_def q(5) by simp
    show ?thesis using q(1,6) True b c e(2) z fl(1) by (cases "m = n") (simp_all add: node_probe_def)
  next
    case False
    then show ?thesis using q(1,6) c e(2) fl(1) by (simp add: node_probe_def)
  qed
qed

interpretation dir: index_keys "name_ok (i_vol ni)" "name_cmp (i_vol ni)" ni "dir_query ni" dir_key for ni
  by unfold_locales (rule dir_probe)

definition ulongs_query :: "ntfs_index_inode \<Rightarrow> index_key \<Rightarrow> u32 list \<Rightarrow> bool" where
  "ulongs_query ni q us \<longleftrightarrow> is_view ni \<and>
     collation_rule ni \<in> {COLLATION_NTOFS_ULONG, COLLATION_NTOFS_SECURITY_HASH, COLLATION_NTOFS_ULONGS} \<and>
     ulongs_at (key q) (key_len q) us \<and> match_key q = key q \<and> match_key_len q = key_len q"

definition ulongs_key :: "u8 list \<Rightarrow> nat \<Rightarrow> u32 list \<Rightarrow> bool" where
  "ulongs_key mem ie us \<longleftrightarrow> (\<exists>l. ie_key_length mem ie = Some l \<and> ulongs_at (ie_key mem ie) l us)"

lemma ulongs_probe:
  assumes "ulongs_query ni q us" "ulongs_key mem ie vs"
  shows "node_probe ni q mem ie = Some (cmp_list us vs)"
proof -
  let ?data = "drop (ie + 16) mem"
  have q: "is_view ni" "collation_rule ni \<in> {0x10, 0x12, 0x13}" "ulongs_at (key q) (key_len q) us"
    "match_key q = key q" "match_key_len q = key_len q" using assms(1) by (auto simp: ulongs_query_def)
  obtain l where e: "ie_key_length mem ie = Some l" "ulongs_at ?data l vs" using assms(2) by (auto simp: ulongs_key_def)
  have c: "ntfs_collate (i_vol ni) (collation_rule ni) (key q) (key_len q) ?data l = Some (cmp_list us vs)"
    using ntfs_collate_ulongs_eq [OF q(3) e(2)] q(2) by (auto simp: ntfs_collate_def)
  show ?thesis
  proof (cases "key_len q = l")
    case True
    have "l \<le> length (key q)" "l \<le> length ?data" using q(3) e(2) True by (auto elim: ulongs_atE)
    then have b: "bcmp_equal (match_key q) ?data l = Some (us = vs)"
      using ulongs_bytes [OF q(3) [unfolded True] e(2)] by (simp add: bcmp_equal_def q(4))
    show ?thesis using q(1,5) True b c e(1) by (cases "us = vs") (simp_all add: node_probe_def)
  next
    case False
    then show ?thesis using q(1,5) c e(1) by (simp add: node_probe_def)
  qed
qed

interpretation view: index_keys "\<lambda>us. True" cmp_list ni "ulongs_query ni" ulongs_key for ni
  by unfold_locales (rule ulongs_probe)

section \<open>Lookups\<close>

text \<open>
  C22. Looking up a name in a directory. The root is set up, the index is a sorted tree of
  legal names as the driver reads it, of a height up to \<open>depth\<close>, and the key is a filename
  attribute with a legal name. Then \<open>ntfs_index_lookup\<close> returns 0 exactly if the name is in the
  directory, with a context whose entry has that name, and \<open>ENOENT\<close> otherwise.
\<close>

theorem directory_lookup_correct:
  assumes "\<not> is_view ni" "collation_rule ni = COLLATION_FILENAME" "filename_at data n" "0x42 \<le> data_len"
    and "ntfs_index_lookup_init alloc ni res data_len ictx = Some (EOK, root)"
    and "index_tree dir_key page_map alloc ni h root names" "h \<le> depth"
    and "sorted_wrt (\<lambda>x y. name_cmp (i_vol ni) x y = - 1) names" "\<forall>x \<in> set names. name_ok (i_vol ni) x" "name_ok (i_vol ni) n"
  shows "\<exists>c path. ntfs_index_lookup depth page_map alloc ni res data data_len ictx =
      Some (if n \<in> set names then EOK else ENOENT, c # path) \<and>
    (n \<in> set names \<longrightarrow> (\<exists>ie. rd (entries c) (entry_nr c) = Some ie \<and> dir_key (i_mem c) ie n))"
proof -
  define q where "q = \<lparr>key = data, key_len = data_len, match_key = drop 0x42 data, match_key_len = 2 * length n\<rparr>"
  have "dir_query ni q n" using assms(1-4) by (simp add: dir_query_def q_def)
  from dir.lookup_from_tree [OF assms(6-10) this, of "[]"]
  obtain err c path where l: "index_lookup_from depth page_map alloc ni q [] root = Some (err, c # path)"
    "if n \<in> set names then err = EOK \<and> (\<exists>ie. rd (entries c) (entry_nr c) = Some ie \<and> dir_key (i_mem c) ie n) else err = ENOENT" by blast
  have fl: "fn_length data = Some (length n)" using assms(3) by (simp add: filename_at_def)
  then have "data \<noteq> []" "data_len \<noteq> 0" using assms(4) by (auto simp: fn_length_def rd_def)
  then have "ntfs_index_lookup depth page_map alloc ni res data data_len ictx = Some (err, c # path)"
    using assms(1,5) fl l(1) by (simp add: ntfs_index_lookup_def q_def)
  then show ?thesis using l(2) by (simp split: if_split_asm)
qed

text \<open>
  C23. Looking up a key in an index of numbers (\<open>$SII\<close>, \<open>$SDH\<close>, \<open>$Q\<close>, the object and reparse
  point indexes), whose collation rule is one of the three that
  \<open>ntfs_collate_ntofs_ulongs\<close> implements: the same.
\<close>

theorem view_lookup_correct:
  assumes "is_view ni" "collation_rule ni \<in> {COLLATION_NTOFS_ULONG, COLLATION_NTOFS_SECURITY_HASH, COLLATION_NTOFS_ULONGS}"
    and "ulongs_at data data_len us" "us \<noteq> []"
    and "ntfs_index_lookup_init alloc ni res data_len ictx = Some (EOK, root)"
    and "index_tree ulongs_key page_map alloc ni h root keys" "h \<le> depth" "sorted_wrt (\<lambda>x y. cmp_list x y = - 1) keys"
  shows "\<exists>c path. ntfs_index_lookup depth page_map alloc ni res data data_len ictx =
      Some (if us \<in> set keys then EOK else ENOENT, c # path) \<and>
    (us \<in> set keys \<longrightarrow> (\<exists>ie. rd (entries c) (entry_nr c) = Some ie \<and> ulongs_key (i_mem c) ie us))"
proof -
  define q where "q = \<lparr>key = data, key_len = data_len, match_key = data, match_key_len = data_len\<rparr>"
  have "ulongs_query ni q us" using assms(1-3) by (simp add: ulongs_query_def q_def)
  from view.lookup_from_tree [OF assms(6-8) _ _ this, of "[]"]
  obtain err c path where l: "index_lookup_from depth page_map alloc ni q [] root = Some (err, c # path)"
    "if us \<in> set keys then err = EOK \<and> (\<exists>ie. rd (entries c) (entry_nr c) = Some ie \<and> ulongs_key (i_mem c) ie us) else err = ENOENT" by auto
  have "data \<noteq> []" "data_len \<noteq> 0" using assms(3,4) by (auto simp: ulongs_at_def)
  then have "ntfs_index_lookup depth page_map alloc ni res data data_len ictx = Some (err, c # path)"
    using assms(1,5) l(1) by (simp add: ntfs_index_lookup_def q_def)
  then show ?thesis using l(2) by (simp split: if_split_asm)
qed

text \<open>
  An index without its root. When the index root attribute is missing,
  \<open>ntfs_index_lookup_init\<close> returns success, because its error path returns the 0 that it set
  to have the error reported as \<open>EIO\<close>; the search then reads an entry through the pointer
  array that was never allocated.
\<close>

lemma index_lookup_missing_root_faults:
  assumes "ntfs_is_collation_rule_supported (collation_rule ni)" "record_map_err res = EOK" "search_ctx_ok res"
    and "attr_lookup_err res = ENOENT"
  shows "ntfs_index_lookup_init alloc ni res data_len ntfs_index_ctx_init = Some (EOK, ntfs_index_ctx_init) \<and>
    ntfs_index_lookup depth page_map alloc ni res data data_len ntfs_index_ctx_init = None"
proof -
  have i: "ntfs_index_lookup_init alloc ni res data_len ntfs_index_ctx_init = Some (EOK, ntfs_index_ctx_init)"
    using assms by (simp add: ntfs_index_lookup_init_def ntfs_index_ctx_init_def)
  have "ntfs_index_lookup_in_node ni ntfs_index_ctx_init q = None" for q
    by (simp add: ntfs_index_lookup_in_node_def ntfs_index_ctx_init_def node_search.simps rd_def)
  then have "index_lookup_from depth page_map alloc ni q [] ntfs_index_ctx_init = None" for q
    by (subst index_lookup_from.simps) simp
  then show ?thesis using i by (simp add: ntfs_index_lookup_def split: bind_splits)
qed

section \<open>Entries\<close>

lemma valid_Some: "ie + 12 \<le> length mem \<Longrightarrow> \<exists>b. ntfs_is_index_entry_valid mem ie index_end = Some b"
  by (simp add: ntfs_is_index_entry_valid_def rd16_def rd_def) blast

text \<open>What the loop gathers behind what it has: the entries that follow each other in memory.\<close>

fun entry_chain :: "u8 list \<Rightarrow> nat \<Rightarrow> nat \<Rightarrow> nat list \<Rightarrow> bool" where
  "entry_chain mem index_end ie [] = False"
| "entry_chain mem index_end ie (e # es) \<longleftrightarrow> e = ie \<and>
     (\<exists>len klen. ie_length mem e = Some len \<and> ie_key_length mem e = Some klen \<and> 16 + klen \<le> len \<and> e + len \<le> index_end \<and>
        (if es = [] then ie_is_end mem e = Some True
         else ie_is_end mem e = Some False \<and> entry_chain mem index_end (e + len) es))"

lemma valid_True: "ntfs_is_index_entry_valid mem ie index_end = Some True \<longleftrightarrow>
    (\<exists>len klen. ie_length mem ie = Some len \<and> ie_key_length mem ie = Some klen \<and> 16 + klen \<le> len \<and> ie + len \<le> index_end)"
  by (cases "ie_length mem ie"; cases "ie_key_length mem ie") (auto simp: ntfs_is_index_entry_valid_def)

lemma gather_entries_EIO: "gather_entries vw mem index_end mx ie es = Some (Inl err) \<Longrightarrow> err = EIO"
proof (induction vw mem index_end mx ie es rule: gather_entries.induct)
  case (1 vw mem index_end mx ie es)
  then show ?case
    by (subst (asm) (2) gather_entries.simps) (auto simp: bind_eq_Some_conv split: option.splits bool.splits if_splits)
qed

lemma gather_entries_chain:
  "gather_entries vw mem index_end mx ie es = Some (Inr es') \<Longrightarrow>
   \<exists>new. es' = es @ new \<and> length es' \<le> mx \<and> entry_chain mem index_end ie new"
proof (induction vw mem index_end mx ie es rule: gather_entries.induct)
  case (1 vw mem index_end mx ie es)
  have v: "ntfs_is_index_entry_valid mem ie index_end = Some True" "length es < mx"
    using 1(2) by (subst (asm) gather_entries.simps; auto split: option.splits bool.splits if_splits)+
  then obtain len klen where lk: "ie_length mem ie = Some len" "ie_key_length mem ie = Some klen" "16 + klen \<le> len" "ie + len \<le> index_end"
    unfolding valid_True by blast
  from 1(2) v obtain last where last: "ie_is_end mem ie = Some last"
    by (subst (asm) gather_entries.simps) (auto simp: bind_eq_Some_conv)
  show ?case
  proof (cases last)
    case True
    then have "es' = es @ [ie]" using 1(2) v last by (subst (asm) gather_entries.simps) simp
    then show ?thesis using lk last True v(2) by auto
  next
    case False
    have bad: "(if vw then ie_view_bad mem ie else Some False) = Some False"
      and rec: "gather_entries vw mem index_end mx (ie + len) (es @ [ie]) = Some (Inr es')"
      using 1(2) v last False lk(1) by (subst (asm) gather_entries.simps; auto simp: bind_eq_Some_conv split: if_splits)+
    from 1(1) [OF v(1) _ _ last _ bad _ lk(1) rec] v(2) False
    obtain new where new: "es' = (es @ [ie]) @ new" "length es' \<le> mx" "entry_chain mem index_end (ie + len) new" by auto
    moreover have "entry_chain mem index_end ie (ie # new)" using lk last False new(3) by (cases new) auto
    ultimately show ?thesis by auto
  qed
qed

text \<open>
  C31. Entries stay inside their node. Every entry that \<open>ntfs_index_get_entries\<close> puts into the
  context lies with its key between the start of the node and its end, each entry begins
  where the one before it ends, only the last one is an end entry, and there are at most
  \<open>max_entries\<close>.
\<close>

theorem index_entries_inside_node:
  assumes "ntfs_index_get_entries alloc ni ictx = Some (EOK, ictx')"
  shows "\<exists>index_end ie. rd32 (i_mem ictx) 4 = Some index_end \<and> rd32 (i_mem ictx) 0 = Some ie \<and>
    entry_chain (i_mem ictx) index_end ie (entries ictx') \<and> nr_entries ictx' = length (entries ictx') \<and>
    length (entries ictx') \<le> max_entries ictx"
proof -
  obtain index_end ie r where r: "rd32 (i_mem ictx) 4 = Some index_end" "rd32 (i_mem ictx) 0 = Some ie"
    "gather_entries (is_view ni) (i_mem ictx) index_end (max_entries ictx) ie [] = Some r"
    using assms by (auto simp: ntfs_index_get_entries_def bind_eq_Some_conv split: if_split_asm)
  then obtain es where es: "r = Inr es"
    using assms gather_entries_EIO [of "is_view ni" "i_mem ictx" index_end "max_entries ictx" ie "[]"]
    by (cases r) (auto simp: ntfs_index_get_entries_def split: if_split_asm)
  then have "ictx' = ictx\<lparr>entries := es, nr_entries := length es\<rparr>"
    using assms r by (auto simp: ntfs_index_get_entries_def bind_eq_Some_conv split: if_split_asm)
  then show ?thesis using r gather_entries_chain [of "is_view ni" "i_mem ictx" index_end "max_entries ictx" ie "[]" es] es by auto
qed

lemma gather_entries_returns:
  assumes "index_end + 16 \<le> length mem" "ie \<le> index_end" "index_end \<le> ie + 16 * (mx - length es)"
  shows "\<exists>r. gather_entries vw mem index_end mx ie es = Some r"
  using assms
proof (induction vw mem index_end mx ie es rule: gather_entries.induct)
  case (1 vw mem index_end mx ie es)
  have rd: "\<exists>n. rd16 mem (ie + k) = Some n" if "k \<le> 14" for k using 1(2,3) that by (simp add: rd16_def rd_def)
  obtain b where b: "ntfs_is_index_entry_valid mem ie index_end = Some b" using valid_Some [of ie mem index_end] 1(2,3) by auto
  show ?case
  proof (cases b)
    case False
    then show ?thesis using b by (subst gather_entries.simps) simp
  next
    case True
    then obtain len where len: "ie_length mem ie = Some len" "16 \<le> len" "ie + len \<le> index_end" using b valid_length [of mem ie index_end] by auto
    have room: "length es < mx" using 1(4) len by (cases "length es < mx") auto
    obtain last where last: "ie_is_end mem ie = Some last" using rd [of 12] by (auto simp: ie_is_end_def)
    have "\<exists>bad. ie_view_bad mem ie = Some bad"
      using rd [of 0] rd [of 2] rd [of 8] rd [of 10] by (auto simp: ie_view_bad_def)
    then obtain bad where bad: "(if vw then ie_view_bad mem ie else Some False) = Some bad" by (cases vw) auto
    have "\<exists>r. gather_entries vw mem index_end mx (ie + len) (es @ [ie]) = Some r" if "\<not> last" "\<not> bad"
      using 1(1) [of True, OF _ _ _ last _ bad _ len(1)] b True that room len 1(2,4) by auto
    then show ?thesis using b True room last bad len(1) by (subst gather_entries.simps) auto
  qed
qed

text \<open>
  C32. A node the driver can always read: its \<open>entries_offset\<close> is not above its \<open>index_length\<close>, memory
  goes on for 16 bytes behind its end (the header of an entry is read before the entry is known to
  fit) and the array of entries is as long as there can be entry headers. Then
  \<open>ntfs_index_get_entries\<close> returns, whatever the entries of the node are.
\<close>

theorem index_get_entries_returns:
  assumes "rd32 (i_mem ictx) 4 = Some index_end" "rd32 (i_mem ictx) 0 = Some ie" "ie \<le> index_end"
    and "index_end + 16 \<le> length (i_mem ictx)" "index_end \<le> ie + 16 * max_entries ictx"
  shows "\<exists>err ictx'. ntfs_index_get_entries alloc ni ictx = Some (err, ictx')"
proof -
  obtain r where r: "gather_entries (is_view ni) (i_mem ictx) index_end (max_entries ictx) ie [] = Some r"
    using gather_entries_returns [OF assms(4,3), of "max_entries ictx" "[]" "is_view ni"] assms(5) by auto
  have "\<exists>b. rd (i_mem ictx) 12 = Some b" using assms(4) by (simp add: rd_def)
  then show ?thesis using assms(1,2) r by (cases r) (auto simp: ntfs_index_get_entries_def)
qed

theorem index_get_entries_returns_witness:
  "\<exists>err ictx'. ntfs_index_get_entries (\<lambda>n. True)
     \<lparr>i_vol = \<lparr>upcase = [], upcase_len = 0\<rparr>, is_view = False, collation_rule = 1, block_size = 4096, vcn_size_shift = 12,
       index_alloc_present = True, mft_record_size = 1024\<rparr>
     \<lparr>i_mem = [16, 0, 0, 0, 32, 0, 0, 0] @ replicate 40 9, i_page = [], upl_ofs = 0, is_root = True, entries = [], nr_entries = 0,
       max_entries = 1, entry_nr = 0\<rparr> = Some (err, ictx')"
  by (rule index_get_entries_returns [of _ 32 16]) (simp_all add: rd32_def rd16_def rd_def)

theorem index_entries_inside_node_witness:
  "\<exists>index_end ie. rd32 ([16, 0, 0, 0, 32, 0, 0, 0] @ replicate 16 0 @ [16, 0, 0, 0, 2, 0, 0, 0]) 4 = Some index_end \<and>
     rd32 ([16, 0, 0, 0, 32, 0, 0, 0] @ replicate 16 0 @ [16, 0, 0, 0, 2, 0, 0, 0]) 0 = Some ie \<and>
     entry_chain ([16, 0, 0, 0, 32, 0, 0, 0] @ replicate 16 0 @ [16, 0, 0, 0, 2, 0, 0, 0]) index_end ie [16]"
proof -
  let ?ni = "\<lparr>i_vol = \<lparr>upcase = [], upcase_len = 0\<rparr>, is_view = False, collation_rule = 1, block_size = 4096, vcn_size_shift = 12,
    index_alloc_present = True, mft_record_size = 1024\<rparr>"
  let ?ictx = "\<lparr>i_mem = [16, 0, 0, 0, 32, 0, 0, 0] @ replicate 16 0 @ [16, 0, 0, 0, 2, 0, 0, 0], i_page = [], upl_ofs = 0, is_root = True,
    entries = [], nr_entries = 0, max_entries = 1, entry_nr = 0\<rparr>"
  have "ntfs_index_get_entries (\<lambda>n. True) ?ni ?ictx = Some (EOK, ?ictx\<lparr>entries := [16], nr_entries := 1\<rparr>)"
    by (simp add: ntfs_index_get_entries_def gather_entries.simps ntfs_is_index_entry_valid_def ie_is_end_def rd32_def rd16_def rd_def nth_append)
  from index_entries_inside_node [OF this] show ?thesis by (simp only: ntfs_index_context.simps) blast
qed

text \<open>An entry that is nothing but a header, with no flag set.\<close>

definition short_entry :: "u8 list" where
  "short_entry = [0, 0, 0, 0, 0, 0, 0, 0, 16, 0, 0, 0, 0, 0, 0, 0]"

lemma length_short_entry: "length short_entry = 16"
  by (simp add: short_entry_def)

lemma gather_short_entries:
  assumes "mem = pre @ concat (replicate n short_entry) @ post" "length pre + 16 * n \<le> index_end" "mx < length es + n" "length es \<le> mx"
  shows "gather_entries False mem index_end mx (length pre) es = None"
  using assms
proof (induction n arbitrary: pre es)
  case (Suc n)
  have mem: "mem = pre @ short_entry @ concat (replicate n short_entry) @ post" using Suc.prems(1) by simp
  have r: "ie_length mem (length pre) = Some 16" "ie_key_length mem (length pre) = Some 0" "ie_is_end mem (length pre) = Some False"
    unfolding mem by (simp_all add: rd16_def rd_def nth_append short_entry_def ie_is_end_def)
  then have "ntfs_is_index_entry_valid mem (length pre) index_end = Some True"
    using Suc.prems(2) by (simp add: ntfs_is_index_entry_valid_def)
  moreover have "gather_entries False mem index_end mx (length pre + 16) (es @ [length pre]) = None" if "length es < mx"
    using Suc.IH [of "pre @ short_entry" "es @ [length pre]"] Suc.prems mem that length_short_entry by simp
  ultimately show ?case using r by (subst gather_entries.simps) simp
qed simp

section \<open>Examples\<close>

text \<open>The facts that evaluate a lookup.\<close>

lemmas index_eval = ntfs_index_lookup_init_def ntfs_is_collation_rule_supported_def index_max_entries_def min_entry_size_def
  usub64_def uwrap_def ntfs_index_get_entries_def gather_entries.simps ntfs_is_index_entry_valid_def ie_view_bad_def ie_is_end_def
  rd32_def rd16_def rd_def nth_append ntfs_index_ctx_init_def

text \<open>An index of security identifiers, as \<open>$Quota:$O\<close> is one, with three of them in its root.\<close>

definition sid_bytes :: "u8 \<Rightarrow> u8 list" where
  "sid_bytes x = [1, 1, 0, 0, 0, 0, 0, 5, x, 0, 0, 0]"

definition sid_entry :: "u8 \<Rightarrow> u8 list" where
  "sid_entry x = [28, 0, 0, 0, 0, 0, 0, 0, 32, 0, 12, 0, 0, 0, 0, 0] @ sid_bytes x @ [0, 0, 0, 0]"

definition sid_index :: "u8 list" where
  "sid_index = [16, 0, 0, 0, 128, 0, 0, 0, 128, 0, 0, 0, 0, 0, 0, 0] @ sid_entry 18 @ sid_entry 20 @ sid_entry 32 @
     [0, 0, 0, 0, 0, 0, 0, 0, 16, 0, 0, 0, 2, 0, 0, 0]"

definition sid_inode :: ntfs_index_inode where
  "sid_inode = \<lparr>i_vol = \<lparr>upcase = [], upcase_len = 0\<rparr>, is_view = True, collation_rule = COLLATION_NTOFS_SID, block_size = 4096,
     vcn_size_shift = 12, index_alloc_present = False, mft_record_size = 1024\<rparr>"

definition sid_root :: index_root_result where
  "sid_root = \<lparr>record_map_err = EOK, search_ctx_ok = True, attr_lookup_err = EOK, attrs_offset = 56, root_index = sid_index\<rparr>"

lemma sid_init:
  "ntfs_index_lookup_init (\<lambda>n. True) sid_inode sid_root 12 ntfs_index_ctx_init =
     Some (EOK, \<lparr>i_mem = sid_index, i_page = [], upl_ofs = 0, is_root = True, entries = [16, 48, 80, 112], nr_entries = 4,
       max_entries = 145, entry_nr = 0\<rparr>)"
  by (simp add: index_eval sid_inode_def sid_root_def sid_index_def sid_entry_def sid_bytes_def)

text \<open>
  C37. A security identifier that is not found. \<open>ntfs_collate_binary\<close> returns what \<open>memcmp\<close>
  returns, while the search takes only -1 for \<open>before\<close>: in an index of security identifiers
  it goes right where it should go left. Here the root holds S-1-5-18, S-1-5-20 and
  S-1-5-32, sorted; S-1-5-18 is the first entry, and \<open>ntfs_index_lookup\<close> returns \<open>ENOENT\<close>.
\<close>

theorem sid_lookup_misses_entry:
  "take 12 (ie_key sid_index 16) = sid_bytes 18 \<and>
   ntfs_collate_binary (sid_bytes 18) 12 (sid_bytes 20) 12 = Some (- 2) \<and>
   (\<exists>c. ntfs_index_lookup depth page_map (\<lambda>n. True) sid_inode sid_root (sid_bytes 18) 12 ntfs_index_ctx_init = Some (ENOENT, [c]))"
proof -
  let ?k = "\<lparr>key = sid_bytes 18, key_len = 12, match_key = sid_bytes 18, match_key_len = 12\<rparr>"
  have key: "drop 32 sid_index = sid_bytes 18 @ drop 44 sid_index" "drop 64 sid_index = sid_bytes 20 @ drop 76 sid_index"
    "drop 96 sid_index = sid_bytes 32 @ drop 108 sid_index"
    by (simp_all add: sid_index_def sid_entry_def sid_bytes_def)
  have klen: "ie_key_length sid_index 48 = Some 12" "ie_key_length sid_index 80 = Some 12"
    "ie_is_node sid_index 112 = Some False"
    by (simp_all add: sid_index_def sid_entry_def sid_bytes_def rd16_def rd_def ie_is_node_def)
  have cmp: "memcmp (sid_bytes 18 @ xs) (sid_bytes x @ ys) 12 = Some (18 - uint x)" if "x \<noteq> 18" for x xs ys
  proof -
    have "(12 :: nat) = Suc (Suc (Suc (Suc (Suc (Suc (Suc (Suc (Suc (Suc (Suc (Suc (0))))))))))))" by simp
    then show ?thesis using that by (simp only: sid_bytes_def append.simps memcmp.simps) simp
  qed
  have "node_probe sid_inode ?k sid_index 48 = Some (- 2)" "node_probe sid_inode ?k sid_index 80 = Some (- 14)"
    using cmp [of 20 "[]"] cmp [of 32 "[]"] klen
    by (simp_all add: node_probe_def sid_inode_def key bcmp_equal_def ntfs_collate_def ntfs_collate_binary_def) (simp_all add: sid_bytes_def)
  then have "node_search (node_probe sid_inode ?k sid_index) [16, 48, 80, 112] 0 2 = Some (False, 3)"
    by (simp add: node_search.simps rd_def)
  then have "index_lookup_from depth page_map (\<lambda>n. True) sid_inode ?k [] \<lparr>i_mem = sid_index, i_page = [], upl_ofs = 0, is_root = True,
      entries = [16, 48, 80, 112], nr_entries = 4, max_entries = 145, entry_nr = 0\<rparr> =
    Some (ENOENT, [\<lparr>i_mem = sid_index, i_page = [], upl_ofs = 0, is_root = True,
      entries = [16, 48, 80, 112], nr_entries = 4, max_entries = 145, entry_nr = 3\<rparr>])"
    using klen by (subst index_lookup_from.simps) (simp add: ntfs_index_lookup_in_node_def usub_def uwrap_def rd_def)
  then have "\<exists>c. ntfs_index_lookup depth page_map (\<lambda>n. True) sid_inode sid_root (sid_bytes 18) 12 ntfs_index_ctx_init = Some (ENOENT, [c])"
    using sid_init by (simp add: ntfs_index_lookup_def sid_inode_def) (simp add: sid_bytes_def)
  moreover have "ntfs_collate_binary (sid_bytes 18) 12 (sid_bytes 20) 12 = Some (- 2)"
    using cmp [of 20 "[]" "[]"] by (simp add: ntfs_collate_binary_def)
  ultimately show ?thesis using key(1) by (simp add: sid_bytes_def)
qed

text \<open>A directory with one name, and an index of numbers with one key.\<close>

definition dir_index :: "u8 list" where
  "dir_index = [16, 0, 0, 0, 120, 0, 0, 0, 120, 0, 0, 0, 0, 0, 0, 0] @
     [0, 0, 0, 0, 0, 0, 0, 0, 88, 0, 68, 0, 0, 0, 0, 0] @ replicate 64 0 @ [1, 0, 0x61, 0, 0, 0, 0, 0] @
     [0, 0, 0, 0, 0, 0, 0, 0, 16, 0, 0, 0, 2, 0, 0, 0]"

definition dir_inode :: ntfs_index_inode where
  "dir_inode = \<lparr>i_vol = \<lparr>upcase = [], upcase_len = 0\<rparr>, is_view = False, collation_rule = COLLATION_FILENAME, block_size = 4096,
     vcn_size_shift = 12, index_alloc_present = False, mft_record_size = 1024\<rparr>"

definition dir_root :: index_root_result where
  "dir_root = \<lparr>record_map_err = EOK, search_ctx_ok = True, attr_lookup_err = EOK, attrs_offset = 56, root_index = dir_index\<rparr>"

abbreviation leaf_context :: "u8 list \<Rightarrow> nat \<Rightarrow> nat \<Rightarrow> nat \<Rightarrow> ntfs_index_context" where
  "leaf_context mem ie e n \<equiv> \<lparr>i_mem = mem, i_page = [], upl_ofs = 0, is_root = True, entries = [ie, e], nr_entries = 2,
     max_entries = n, entry_nr = 0\<rparr>"

lemma dir_init: "ntfs_index_lookup_init (\<lambda>n. True) dir_inode dir_root 68 ntfs_index_ctx_init = Some (EOK, leaf_context dir_index 16 104 50)"
  by (simp add: index_eval dir_inode_def dir_root_def dir_index_def)

lemma leaf_tree:
  assumes "entry_key mem ie k" "ie_is_node mem ie = Some False" "ie_is_node mem e = Some False"
  shows "index_tree entry_key page_map alloc ni 0 (leaf_context mem ie e n) [k]"
proof -
  have "index_tree entry_key page_map alloc ni 0 (leaf_context mem ie e n) (tree_keys [([], k)] [])"
    by (rule index_tree.node [where es = "[ie]" and e = e]) (use assms in \<open>auto simp: nth_Cons' le_Suc_eq\<close>)
  then show ?thesis by (simp add: tree_keys_def)
qed

theorem directory_lookup_correct_witness:
  "\<exists>c path. ntfs_index_lookup 0 (\<lambda>ofs. Inl EIO) (\<lambda>n. True) dir_inode dir_root (replicate 64 7 @ [1, 0, 0x61, 0]) 68 ntfs_index_ctx_init =
     Some (EOK, c # path)"
proof -
  have f: "filename_at (replicate 64 7 @ [1, 0, 0x61, 0]) [0x61]"
    by (simp add: filename_at_def fn_length_def fn_name_def rd_def nth_append)
  have "drop 32 dir_index = replicate 64 0 @ [1, 0, 0x61, 0, 0, 0, 0, 0] @ drop 104 dir_index" by (simp add: dir_index_def)
  then have "dir_key dir_index 16 [0x61]"
    by (simp add: dir_key_def filename_at_def fn_length_def fn_name_def rd_def nth_append) (simp add: dir_index_def rd16_def rd_def nth_append)
  moreover have "ie_is_node dir_index 16 = Some False" "ie_is_node dir_index 104 = Some False"
    by (simp_all add: ie_is_node_def dir_index_def rd16_def rd_def nth_append)
  ultimately have tree: "index_tree dir_key (\<lambda>ofs. Inl EIO) (\<lambda>n. True) dir_inode 0 (leaf_context dir_index 16 104 50) [[0x61]]"
    by (rule leaf_tree)
  have ok: "name_ok (i_vol dir_inode) [0x61]" by (simp add: dir_inode_def name_ok_def legal_name_def bad_char_def upc_def)
  from directory_lookup_correct [OF _ _ f _ dir_init tree, of 0] ok show ?thesis by (auto simp: dir_inode_def)
qed

definition ulong_index :: "u8 list" where
  "ulong_index = [16, 0, 0, 0, 56, 0, 0, 0, 56, 0, 0, 0, 0, 0, 0, 0] @
     [20, 0, 4, 0, 0, 0, 0, 0, 24, 0, 4, 0, 0, 0, 0, 0, 0, 1, 0, 0, 9, 9, 9, 9] @ [0, 0, 0, 0, 0, 0, 0, 0, 16, 0, 0, 0, 2, 0, 0, 0]"

definition ulong_inode :: ntfs_index_inode where
  "ulong_inode = dir_inode\<lparr>is_view := True, collation_rule := COLLATION_NTOFS_ULONG\<rparr>"

lemma ulong_init: "ntfs_index_lookup_init (\<lambda>n. True) ulong_inode (dir_root\<lparr>root_index := ulong_index\<rparr>) 4 ntfs_index_ctx_init =
    Some (EOK, leaf_context ulong_index 16 40 203)"
  by (simp add: index_eval dir_inode_def ulong_inode_def dir_root_def ulong_index_def)

theorem view_lookup_correct_witness:
  "\<exists>c path. ntfs_index_lookup 0 (\<lambda>ofs. Inl EIO) (\<lambda>n. True) ulong_inode (dir_root\<lparr>root_index := ulong_index\<rparr>) [1, 1, 0, 0] 4 ntfs_index_ctx_init =
     Some (ENOENT, c # path)"
proof -
  have f: "ulongs_at [1, 1, 0, 0] 4 [257]" by (simp add: ulongs_at_def)
  have "ulongs_key ulong_index 16 [256]"
    by (simp add: ulongs_key_def ulongs_at_def ulong_index_def rd16_def rd_def)
  moreover have "ie_is_node ulong_index 16 = Some False" "ie_is_node ulong_index 40 = Some False"
    by (simp_all add: ie_is_node_def ulong_index_def rd16_def rd_def)
  ultimately have tree: "index_tree ulongs_key (\<lambda>ofs. Inl EIO) (\<lambda>n. True) ulong_inode 0 (leaf_context ulong_index 16 40 203) [[256]]"
    by (rule leaf_tree)
  from view_lookup_correct [OF _ _ f _ ulong_init tree, of 0] show ?thesis by (auto simp: ulong_inode_def)
qed

text \<open>
  C38. A node that stops the kernel. An index entry may be as short as its header, but the
  array of entries has room only for entries with keys. A node of more short entries than
  that, none of them the end entry, passes every check and panics.
\<close>

theorem index_get_entries_panics:
  assumes "i_mem ictx = pre @ concat (replicate n short_entry) @ post"
    and "rd32 (i_mem ictx) 0 = Some (length pre)" "rd32 (i_mem ictx) 4 = Some index_end" "length pre + 16 * n \<le> index_end"
    and "max_entries ictx < n" "alloc (max_entries ictx)" "\<not> is_view ni"
  shows "ntfs_index_get_entries alloc ni ictx = None"
  using gather_short_entries [OF assms(1,4), of "max_entries ictx" "[]"] assms(2,3,5-7) by (simp add: ntfs_index_get_entries_def)

theorem index_get_entries_panics_witness:
  "ntfs_index_get_entries (\<lambda>n. True) dir_inode
     (ntfs_index_ctx_init\<lparr>i_mem := [16, 0, 0, 0, 0x40, 3, 0, 0, 0x40, 3, 0, 0, 0, 0, 0, 0] @ concat (replicate 51 short_entry) @ [],
        max_entries := index_max_entries dir_inode 68 56\<rparr>) = None"
proof -
  have "index_max_entries dir_inode 68 56 = 50"
    by (simp add: index_max_entries_def min_entry_size_def usub64_def uwrap_def dir_inode_def)
  then show ?thesis
    by (intro index_get_entries_panics [where index_end = 832 and n = 51 and post = "[]" and
        pre = "[16, 0, 0, 0, 0x40, 3, 0, 0, 0x40, 3, 0, 0, 0, 0, 0, 0]"])
      (simp_all add: rd32_def rd16_def rd_def dir_inode_def)
qed

end
