(* ===== verification/NTFS_Mst.thy ===== *)
theory NTFS_Mst
  imports NTFS_Prelude
begin

text \<open>
  Multi sector transfer protection, \<open>kext/ntfs_mst.c\<close>. Every 512-byte sector of an mft
  record or index block ends in a 16-bit slot that holds the update sequence number while
  the record is on disk; the data that belongs there is kept in the update sequence array
  (usa) in the record's header.

  The record is an array of 16-bit units, as the code addresses it: units 0 and 1 are the
  magic, unit 2 is \<open>usa_ofs\<close> (in bytes), unit 3 is \<open>usa_count\<close>. A null pointer is the empty
  array. Values are in the host's byte order, which on the supported (little endian)
  machines is the disk's.
\<close>

section \<open>The code\<close>

definition magic_BAAD_lo :: u16 where "magic_BAAD_lo = 0x4142"

definition magic_BAAD_hi :: u16 where "magic_BAAD_hi = 0x4441"

definition magic_HOLE_lo :: u16 where "magic_HOLE_lo = 0x4f48"

definition magic_HOLE_hi :: u16 where "magic_HOLE_hi = 0x454c"

text \<open>The loop that looks for an incomplete transfer: \<open>False\<close> when a sector does not end in the usn.\<close>

fun mst_check :: "nat \<Rightarrow> u16 list \<Rightarrow> nat \<Rightarrow> u16 \<Rightarrow> bool option" where
  "mst_check 0 b data_pos usn = Some True"
| "mst_check (Suc usa_count) b data_pos usn = do {
     d \<leftarrow> rd b data_pos;
     if d \<noteq> usn then Some False
     else mst_check usa_count b (data_pos + 256) usn }"

text \<open>The loop that puts the saved data back, shared by post_read and post_write.\<close>

fun mst_restore :: "nat \<Rightarrow> u16 list \<Rightarrow> nat \<Rightarrow> nat \<Rightarrow> u16 list option" where
  "mst_restore 0 b usa_pos data_pos = Some b"
| "mst_restore (Suc usa_count) b usa_pos data_pos = do {
     d \<leftarrow> rd b (usa_pos + 1);
     b \<leftarrow> wr b data_pos d;
     mst_restore usa_count b (usa_pos + 1) (data_pos + 256) }"

definition mst_bad_layout :: "nat \<Rightarrow> nat \<Rightarrow> nat \<Rightarrow> bool" where
  "mst_bad_layout sz usa_ofs usa_count \<longleftrightarrow>
     sz mod 512 \<noteq> 0 \<or> odd usa_ofs \<or> usa_ofs + usa_count * 2 > sz \<or> sz div 512 \<noteq> usa_count"

definition ntfs_mst_fixup_post_read :: "u16 list \<Rightarrow> nat \<Rightarrow> (errno \<times> u16 list) option" where
  "ntfs_mst_fixup_post_read b sz = do {
     ofs \<leftarrow> rd b 2;
     cnt \<leftarrow> rd b 3;
     let usa_ofs = unat ofs;
     let usa_count = unat (cnt - 1);
     if mst_bad_layout sz usa_ofs usa_count then Some (EOK, b)
     else do {
       let usa_pos = usa_ofs div 2;
       usn \<leftarrow> rd b usa_pos;
       complete \<leftarrow> mst_check usa_count b 255 usn;
       if \<not> complete then do {
         b \<leftarrow> wr b 0 magic_BAAD_lo;
         b \<leftarrow> wr b 1 magic_BAAD_hi;
         Some (EIO, b) }
       else do {
         b \<leftarrow> mst_restore usa_count b usa_pos 255;
         Some (EOK, b) } } }"

definition mst_next_usn :: "u16 \<Rightarrow> u16" where
  "mst_next_usn old = (let usn = old + 1 in if usn = 0xffff \<or> usn = 0 then 1 else usn)"

text \<open>The loop of pre_write: save the data in the usa, put the usn in its place.\<close>

fun mst_save :: "nat \<Rightarrow> u16 list \<Rightarrow> nat \<Rightarrow> nat \<Rightarrow> u16 \<Rightarrow> u16 list option" where
  "mst_save 0 b usa_pos data_pos le_usn = Some b"
| "mst_save (Suc usa_count) b usa_pos data_pos le_usn = do {
     d \<leftarrow> rd b data_pos;
     b \<leftarrow> wr b (usa_pos + 1) d;
     b \<leftarrow> wr b data_pos le_usn;
     mst_save usa_count b (usa_pos + 1) (data_pos + 256) le_usn }"

definition mst_refused :: "u16 \<Rightarrow> u16 \<Rightarrow> bool" where
  "mst_refused m0 m1 \<longleftrightarrow>
     (m0 = magic_BAAD_lo \<and> m1 = magic_BAAD_hi) \<or> (m0 = magic_HOLE_lo \<and> m1 = magic_HOLE_hi)"

definition ntfs_mst_fixup_pre_write :: "u16 list \<Rightarrow> nat \<Rightarrow> (errno \<times> u16 list) option" where
  "ntfs_mst_fixup_pre_write b sz =
     (if b = [] then Some (EINVAL, b)
      else do {
        m0 \<leftarrow> rd b 0;
        m1 \<leftarrow> rd b 1;
        if mst_refused m0 m1 then Some (EINVAL, b)
        else do {
          ofs \<leftarrow> rd b 2;
          cnt \<leftarrow> rd b 3;
          let usa_ofs = unat ofs;
          let usa_count = unat (cnt - 1);
          if mst_bad_layout sz usa_ofs usa_count then Some (EINVAL, b)
          else do {
            let usa_pos = usa_ofs div 2;
            old \<leftarrow> rd b usa_pos;
            let le_usn = mst_next_usn old;
            b \<leftarrow> wr b usa_pos le_usn;
            b \<leftarrow> mst_save usa_count b usa_pos 255 le_usn;
            Some (EOK, b) } } })"

definition ntfs_mst_fixup_post_write :: "u16 list \<Rightarrow> u16 list option" where
  "ntfs_mst_fixup_post_write b = do {
     ofs \<leftarrow> rd b 2;
     cnt \<leftarrow> rd b 3;
     mst_restore (unat (cnt - 1)) b (unat ofs div 2) 255 }"

section \<open>What a protected record looks like\<close>

text \<open>
  The layout \<open>kext/ntfs_layout.h\<close> asks of a protected record of \<open>n\<close> sectors: the usa starts
  behind the header and ends in front of the last unit of the first sector.
\<close>

definition mst_record :: "nat \<Rightarrow> u16 list \<Rightarrow> bool" where
  "mst_record n b \<longleftrightarrow>
     length b = 256 * n \<and> 0 < n \<and> unat (b ! 3) = n + 1 \<and> even (unat (b ! 2)) \<and>
     8 \<le> unat (b ! 2) \<and> unat (b ! 2) + 2 * (n + 1) \<le> 510"

abbreviation usa_at :: "u16 list \<Rightarrow> nat" where
  "usa_at b \<equiv> unat (b ! 2) div 2"

text \<open>Units outside the usa, where the record keeps its own data.\<close>

definition outside_usa :: "nat \<Rightarrow> u16 list \<Rightarrow> nat \<Rightarrow> bool" where
  "outside_usa n b i \<longleftrightarrow> i < usa_at b \<or> usa_at b + n < i"

definition same_data :: "nat \<Rightarrow> u16 list \<Rightarrow> u16 list \<Rightarrow> bool" where
  "same_data n b b' \<longleftrightarrow>
     length b' = length b \<and> (\<forall>i < length b. outside_usa n b i \<longrightarrow> b' ! i = b ! i)"

section \<open>The loops\<close>

text \<open>The condition the loops keep: what is left of the usa lies in front of the next sector end.\<close>

definition usa_room :: "nat \<Rightarrow> u16 list \<Rightarrow> nat \<Rightarrow> nat \<Rightarrow> bool" where
  "usa_room n b usa_pos data_pos \<longleftrightarrow> usa_pos + n < data_pos \<and> (0 < n \<longrightarrow> data_pos + 256 * (n - 1) < length b)"

lemma usa_room_Suc [intro]:
  "usa_room (Suc n) b usa_pos data_pos \<Longrightarrow> length b' = length b \<Longrightarrow> usa_room n b' (Suc usa_pos) (data_pos + 256)"
  by (cases n) (auto simp: usa_room_def)

lemma usa_room_SucD:
  assumes "usa_room (Suc n) b usa_pos data_pos"
  shows "data_pos < length b" and "Suc usa_pos < data_pos" and "Suc usa_pos < length b"
  using assms by (auto simp: usa_room_def)

lemma mst_check_iff:
  assumes "0 < n \<longrightarrow> data_pos + 256 * (n - 1) < length b"
  shows "mst_check n b data_pos usn = Some (\<forall>k < n. b ! (data_pos + 256 * k) = usn)"
  using assms
proof (induction n arbitrary: data_pos)
  case 0
  then show ?case by simp
next
  case (Suc n)
  have here: "data_pos < length b" using Suc.prems by simp
  have IH: "mst_check n b (data_pos + 256) usn = Some (\<forall>k < n. b ! (data_pos + 256 + 256 * k) = usn)"
    using Suc.prems by (intro Suc.IH) (cases n, auto)
  have "(\<forall>k < Suc n. b ! (data_pos + 256 * k) = usn) \<longleftrightarrow>
        b ! data_pos = usn \<and> (\<forall>k < n. b ! (data_pos + 256 + 256 * k) = usn)"
    by (auto simp: All_less_Suc2 algebra_simps)
  then show ?case by (auto simp: rd_Some [OF here] IH)
qed

text \<open>
  Saving followed by restoring gives back every unit outside the usa. The usa region may have
  been written to before, so the statement compares with the record \<open>b\<close> at the loop's start.
\<close>

lemma mst_save_spec:
  assumes "usa_room n b usa_pos data_pos"
  shows "\<exists>b'. mst_save n b usa_pos data_pos usn = Some b' \<and> length b' = length b \<and>
           (\<forall>k < n. b' ! (usa_pos + 1 + k) = b ! (data_pos + 256 * k)) \<and>
           (\<forall>k < n. b' ! (data_pos + 256 * k) = usn) \<and>
           (\<forall>i < length b. (i \<le> usa_pos \<or> usa_pos + n < i) \<longrightarrow> (\<forall>k < n. i \<noteq> data_pos + 256 * k) \<longrightarrow> b' ! i = b ! i)"
  using assms
proof (induction n arbitrary: b usa_pos data_pos)
  case 0
  then show ?case by simp
next
  case (Suc n)
  note pos = usa_room_SucD [OF Suc.prems]
  define b1 where "b1 = b[Suc usa_pos := b ! data_pos, data_pos := usn]"
  have len1: "length b1 = length b" by (simp add: b1_def)
  have "usa_room n b1 (Suc usa_pos) (data_pos + 256)" using Suc.prems len1 by blast
  from Suc.IH [OF this] obtain b' where
    run: "mst_save n b1 (Suc usa_pos) (data_pos + 256) usn = Some b'" and len: "length b' = length b1" and
    sav: "\<forall>k < n. b' ! (Suc usa_pos + 1 + k) = b1 ! (data_pos + 256 + 256 * k)" and
    usn: "\<forall>k < n. b' ! (data_pos + 256 + 256 * k) = usn" and
    rest: "\<forall>i < length b1. (i \<le> Suc usa_pos \<or> Suc usa_pos + n < i) \<longrightarrow>
       (\<forall>k < n. i \<noteq> data_pos + 256 + 256 * k) \<longrightarrow> b' ! i = b1 ! i" by blast
  have room: "Suc usa_pos + n < data_pos" using Suc.prems by (simp add: usa_room_def)
  have first: "b' ! Suc usa_pos = b ! data_pos" "b' ! data_pos = usn"
    using rest pos room by (auto simp: len1 b1_def nth_list_update)
  have sav': "b' ! (usa_pos + 1 + k) = b ! (data_pos + 256 * k)" if "k < Suc n" for k
    using that sav first(1) room by (cases k) (auto simp: b1_def nth_list_update algebra_simps)
  have usn': "b' ! (data_pos + 256 * k) = usn" if "k < Suc n" for k
    using that usn first(2) by (cases k) (auto simp: algebra_simps)
  have rest': "b' ! i = b ! i"
    if "i < length b" "i \<le> usa_pos \<or> usa_pos + Suc n < i" "\<forall>k < Suc n. i \<noteq> data_pos + 256 * k" for i
  proof -
    have "i \<noteq> data_pos" using that(3) by force
    moreover have "\<forall>k < n. i \<noteq> data_pos + 256 + 256 * k" using that(3) by force
    moreover have "i \<le> Suc usa_pos \<or> Suc usa_pos + n < i" using that(2) by auto
    ultimately have "b' ! i = b1 ! i" using rest that(1) len1 by auto
    then show ?thesis using \<open>i \<noteq> data_pos\<close> that(2) by (auto simp: b1_def nth_list_update)
  qed
  have "mst_save (Suc n) b usa_pos data_pos usn = Some b'"
    using pos run by (simp add: rd_Some wr_Some b1_def)
  then show ?case using len len1 sav' usn' rest' by (intro exI [of _ b']) simp
qed

lemma mst_restore_spec:
  assumes "usa_room n b usa_pos data_pos"
  shows "\<exists>b'. mst_restore n b usa_pos data_pos = Some b' \<and> length b' = length b \<and>
           (\<forall>k < n. b' ! (data_pos + 256 * k) = b ! (usa_pos + 1 + k)) \<and>
           (\<forall>i < length b. (\<forall>k < n. i \<noteq> data_pos + 256 * k) \<longrightarrow> b' ! i = b ! i)"
  using assms
proof (induction n arbitrary: b usa_pos data_pos)
  case 0
  then show ?case by simp
next
  case (Suc n)
  note pos = usa_room_SucD [OF Suc.prems]
  define b1 where "b1 = b[data_pos := b ! Suc usa_pos]"
  have len1: "length b1 = length b" by (simp add: b1_def)
  have "usa_room n b1 (Suc usa_pos) (data_pos + 256)" using Suc.prems len1 by blast
  from Suc.IH [OF this] obtain b' where
    run: "mst_restore n b1 (Suc usa_pos) (data_pos + 256) = Some b'" and len: "length b' = length b1" and
    dat: "\<forall>k < n. b' ! (data_pos + 256 + 256 * k) = b1 ! (Suc usa_pos + 1 + k)" and
    rest: "\<forall>i < length b1. (\<forall>k < n. i \<noteq> data_pos + 256 + 256 * k) \<longrightarrow> b' ! i = b1 ! i" by blast
  have room: "Suc usa_pos + n < data_pos" using Suc.prems by (simp add: usa_room_def)
  have first: "b' ! data_pos = b ! Suc usa_pos"
    using rest pos by (auto simp: len1 b1_def nth_list_update)
  have dat': "b' ! (data_pos + 256 * k) = b ! (usa_pos + 1 + k)" if "k < Suc n" for k
    using that dat first room by (cases k) (auto simp: b1_def nth_list_update algebra_simps)
  have rest': "b' ! i = b ! i" if "i < length b" "\<forall>k < Suc n. i \<noteq> data_pos + 256 * k" for i
  proof -
    have "i \<noteq> data_pos" using that(2) by force
    moreover have "\<forall>k < n. i \<noteq> data_pos + 256 + 256 * k" using that(2) by force
    ultimately show ?thesis using rest that(1) len1 by (auto simp: b1_def nth_list_update)
  qed
  have "mst_restore (Suc n) b usa_pos data_pos = Some b'"
    using pos run by (simp add: rd_Some wr_Some b1_def)
  then show ?case using len len1 dat' rest' by (intro exI [of _ b']) simp
qed

section \<open>Lemmas on whole records\<close>

lemma mst_record_layout:
  assumes "mst_record n b"
  shows "length b = 256 * n" and "0 < n" and "unat (b ! 3 - 1) = n"
    and "\<not> mst_bad_layout (512 * n) (unat (b ! 2)) (unat (b ! 3 - 1))"
    and "3 < usa_at b" and "usa_at b + n < 255" and "usa_at b < length b"
    and "3 < length b"
proof -
  have "b ! 3 \<noteq> 0" using assms by (auto simp: mst_record_def)
  then show cnt: "unat (b ! 3 - 1) = n" using assms by (simp add: mst_record_def unat_minus_one)
  show "length b = 256 * n" "0 < n" "3 < length b" using assms by (auto simp: mst_record_def)
  show "3 < usa_at b" "usa_at b + n < 255" "usa_at b < length b" using assms by (auto simp: mst_record_def)
  show "\<not> mst_bad_layout (512 * n) (unat (b ! 2)) (unat (b ! 3 - 1))"
    using assms cnt by (auto simp: mst_record_def mst_bad_layout_def)
qed

lemma mst_record_room: "mst_record n b \<Longrightarrow> length b' = length b \<Longrightarrow> usa_room n b' (usa_at b) 255"
  by (auto dest: mst_record_layout simp: usa_room_def)

lemma mst_next_usn_valid: "mst_next_usn x \<noteq> 0" "mst_next_usn x \<noteq> 0xffff"
  by (auto simp: mst_next_usn_def Let_def)

lemma mst_next_usn_fresh: "mst_next_usn x \<noteq> x"
  by (auto simp: mst_next_usn_def Let_def eq_diff_eq [symmetric])

text \<open>A record on disk: every sector ends in the usn.\<close>

definition mst_sealed :: "nat \<Rightarrow> u16 list \<Rightarrow> bool" where
  "mst_sealed n b \<longleftrightarrow> (\<forall>k < n. b ! (255 + 256 * k) = b ! usa_at b)"

lemma post_read_eq:
  assumes "mst_record n b"
  shows "ntfs_mst_fixup_post_read b (512 * n) =
    (if mst_sealed n b
     then map_option (Pair EOK) (mst_restore n b (usa_at b) 255)
     else Some (EIO, b[0 := magic_BAAD_lo, 1 := magic_BAAD_hi]))"
proof -
  note L = mst_record_layout [OF assms]
  have chk: "mst_check n b 255 (b ! usa_at b) = Some (mst_sealed n b)"
    unfolding mst_sealed_def using L(1,2) by (intro mst_check_iff) auto
  show ?thesis
    using L by (cases "mst_restore n b (usa_at b) 255")
      (simp_all add: ntfs_mst_fixup_post_read_def rd_Some wr_Some chk)
qed

lemma pre_write_spec:
  assumes "mst_record n b" and "\<not> mst_refused (b ! 0) (b ! 1)"
  obtains b' where "ntfs_mst_fixup_pre_write b (512 * n) = Some (EOK, b')"
    and "length b' = length b"
    and "b' ! usa_at b = mst_next_usn (b ! usa_at b)"
    and "\<And>k. k < n \<Longrightarrow> b' ! (255 + 256 * k) = mst_next_usn (b ! usa_at b)"
    and "\<And>k. k < n \<Longrightarrow> b' ! (usa_at b + 1 + k) = b ! (255 + 256 * k)"
    and "\<And>i. i < length b \<Longrightarrow> outside_usa n b i \<Longrightarrow> (\<forall>k < n. i \<noteq> 255 + 256 * k) \<Longrightarrow> b' ! i = b ! i"
proof -
  note L = mst_record_layout [OF assms(1)]
  let ?usn = "mst_next_usn (b ! usa_at b)"
  define b1 where "b1 = b[usa_at b := ?usn]"
  have len1: "length b1 = length b" by (simp add: b1_def)
  from mst_save_spec [OF mst_record_room [OF assms(1) len1], of ?usn] obtain b' where
    run: "mst_save n b1 (usa_at b) 255 ?usn = Some b'" and len: "length b' = length b1" and
    sav: "\<forall>k < n. b' ! (usa_at b + 1 + k) = b1 ! (255 + 256 * k)" and
    usn: "\<forall>k < n. b' ! (255 + 256 * k) = ?usn" and
    rest: "\<forall>i < length b1. (i \<le> usa_at b \<or> usa_at b + n < i) \<longrightarrow>
      (\<forall>k < n. i \<noteq> 255 + 256 * k) \<longrightarrow> b' ! i = b1 ! i" by blast
  have ne: "b \<noteq> []" using L(8) by auto
  show thesis
  proof (rule that [of b'])
    show "ntfs_mst_fixup_pre_write b (512 * n) = Some (EOK, b')"
      using L ne assms(2) run by (simp add: ntfs_mst_fixup_pre_write_def rd_Some wr_Some b1_def)
    show "length b' = length b" by (simp add: len len1)
    have "b' ! usa_at b = b1 ! usa_at b" using rest L len1 by auto
    then show "b' ! usa_at b = ?usn" using L by (simp add: b1_def)
    show "b' ! (255 + 256 * k) = ?usn" if "k < n" for k using usn that by blast
    show "b' ! (usa_at b + 1 + k) = b ! (255 + 256 * k)" if "k < n" for k
      using sav that L(6) by (auto simp: b1_def)
    show "b' ! i = b ! i" if "i < length b" "outside_usa n b i" "\<forall>k < n. i \<noteq> 255 + 256 * k" for i
      using rest that len1 by (auto simp: b1_def outside_usa_def nth_list_update)
  qed
qed

lemma usa_not_sector_end:
  assumes "mst_record n b" and "k < n"
  shows "outside_usa n b (255 + 256 * k)" and "255 + 256 * k < length b"
  using mst_record_layout [OF assms(1)] assms(2) by (auto simp: outside_usa_def)

lemma header_not_sector_end:
  assumes "mst_record n b" and "i \<le> 3"
  shows "outside_usa n b i" and "\<forall>k < n. i \<noteq> 255 + 256 * k"
  using mst_record_layout [OF assms(1)] assms(2) by (auto simp: outside_usa_def)

lemma pre_write_record:
  assumes "mst_record n b" and "\<not> mst_refused (b ! 0) (b ! 1)"
    and "ntfs_mst_fixup_pre_write b (512 * n) = Some (EOK, b')"
  shows "mst_record n b'" and "usa_at b' = usa_at b" and "mst_sealed n b'"
    and "b' ! usa_at b = mst_next_usn (b ! usa_at b)" and "length b' = length b"
    and "b' ! 2 = b ! 2" and "b' ! 3 = b ! 3"
proof -
  from pre_write_spec [OF assms(1,2)] assms(3) have
    len: "length b' = length b" and
    u: "b' ! usa_at b = mst_next_usn (b ! usa_at b)" and
    s: "\<And>k. k < n \<Longrightarrow> b' ! (255 + 256 * k) = mst_next_usn (b ! usa_at b)" and
    r: "\<And>i. i < length b \<Longrightarrow> outside_usa n b i \<Longrightarrow> (\<forall>k < n. i \<noteq> 255 + 256 * k) \<Longrightarrow> b' ! i = b ! i"
    by (metis option.inject prod.inject)+
  have "3 < length b" using mst_record_layout(8) [OF assms(1)] .
  then show h: "b' ! 2 = b ! 2" "b' ! 3 = b ! 3"
    using r header_not_sector_end [OF assms(1)] by auto
  show "length b' = length b" by (rule len)
  show "mst_record n b'" using assms(1) len h by (simp add: mst_record_def)
  show "usa_at b' = usa_at b" by (simp add: h)
  show "mst_sealed n b'" using s u h by (simp add: mst_sealed_def)
  show "b' ! usa_at b = mst_next_usn (b ! usa_at b)" by (rule u)
qed

text \<open>Restoring what pre_write saved, whichever of the two callers does it.\<close>

lemma restore_after_pre_write:
  assumes "mst_record n b" and "\<not> mst_refused (b ! 0) (b ! 1)"
    and "ntfs_mst_fixup_pre_write b (512 * n) = Some (EOK, b')"
  obtains b'' where "mst_restore n b' (usa_at b) 255 = Some b''" and "same_data n b b''"
proof -
  note P = pre_write_record [OF assms]
  from pre_write_spec [OF assms(1,2)] assms(3) have
    sav: "\<And>k. k < n \<Longrightarrow> b' ! (usa_at b + 1 + k) = b ! (255 + 256 * k)" and
    r: "\<And>i. i < length b \<Longrightarrow> outside_usa n b i \<Longrightarrow> (\<forall>k < n. i \<noteq> 255 + 256 * k) \<Longrightarrow> b' ! i = b ! i"
    by (metis option.inject prod.inject)+
  from mst_restore_spec [OF mst_record_room [OF assms(1) P(5)]] obtain b'' where
    run: "mst_restore n b' (usa_at b) 255 = Some b''" and len: "length b'' = length b'" and
    dat: "\<forall>k < n. b'' ! (255 + 256 * k) = b' ! (usa_at b + 1 + k)" and
    rest: "\<forall>i < length b'. (\<forall>k < n. i \<noteq> 255 + 256 * k) \<longrightarrow> b'' ! i = b' ! i" by blast
  have "b'' ! i = b ! i" if "i < length b" "outside_usa n b i" for i
  proof (cases "\<forall>k < n. i \<noteq> 255 + 256 * k")
    case True
    then show ?thesis using rest r that P(5) by simp
  next
    case False
    then obtain k where k: "k < n" "i = 255 + 256 * k" by blast
    with dat sav show ?thesis by simp
  qed
  then have "same_data n b b''" using len P(5) by (simp add: same_data_def)
  with run show thesis by (rule that)
qed

text \<open>The memory the save loop needs: it stops outside the record exactly when the usa does.\<close>

lemma mst_save_None: "length b \<le> usa_pos + n \<Longrightarrow> 0 < n \<Longrightarrow> mst_save n b usa_pos data_pos usn = None"
proof (induction n arbitrary: b usa_pos data_pos)
  case (Suc n)
  show ?case
  proof (cases "data_pos < length b \<and> Suc usa_pos < length b")
    case True
    with Suc.prems have "0 < n" by auto
    with True Suc.prems show ?thesis by (simp add: rd_Some wr_Some Suc.IH)
  next
    case False
    then show ?thesis by (auto simp: rd_def wr_def)
  qed
qed simp

lemma mst_save_Some:
  "usa_pos + n < length b \<Longrightarrow> 0 < n \<longrightarrow> data_pos + 256 * (n - 1) < length b \<Longrightarrow>
   \<exists>b'. mst_save n b usa_pos data_pos usn = Some b'"
proof (induction n arbitrary: b usa_pos data_pos)
  case (Suc n)
  have "data_pos < length b" "Suc usa_pos < length b" using Suc.prems by auto
  moreover have "\<exists>b'. mst_save n (b[Suc usa_pos := b ! data_pos, data_pos := usn])
      (Suc usa_pos) (data_pos + 256) usn = Some b'"
    using Suc.prems by (intro Suc.IH) (cases n, auto)+
  ultimately show ?case by (simp add: rd_Some wr_Some)
qed simp

section \<open>Properties\<close>

text \<open>
  C9. Writing a protected record and reading it back returns the same data: after
  \<open>ntfs_mst_fixup_pre_write\<close> the record is sealed with a fresh, valid update sequence number,
  and \<open>ntfs_mst_fixup_post_read\<close> accepts it and restores every unit of it outside the usa.
\<close>

theorem mst_write_read_roundtrip:
  assumes "mst_record n b" and "\<not> mst_refused (b ! 0) (b ! 1)"
  shows "\<exists>b' b''. ntfs_mst_fixup_pre_write b (512 * n) = Some (EOK, b') \<and>
           ntfs_mst_fixup_post_read b' (512 * n) = Some (EOK, b'') \<and>
           ntfs_mst_fixup_post_write b' = Some b'' \<and>
           same_data n b b'' \<and> b' ! usa_at b \<notin> {0, 0xffff, b ! usa_at b}"
proof -
  from pre_write_spec [OF assms] obtain b' where
    w: "ntfs_mst_fixup_pre_write b (512 * n) = Some (EOK, b')" by metis
  note P = pre_write_record [OF assms w]
  from restore_after_pre_write [OF assms w] obtain b'' where
    r: "mst_restore n b' (usa_at b) 255 = Some b''" and s: "same_data n b b''" by blast
  have "ntfs_mst_fixup_post_read b' (512 * n) = Some (EOK, b'')"
    using P(3) r by (simp add: post_read_eq [OF P(1)] P(6))
  moreover have "ntfs_mst_fixup_post_write b' = Some b''"
    using r mst_record_layout(3,8) [OF P(1)] by (simp add: ntfs_mst_fixup_post_write_def rd_Some P(6,7))
  ultimately show ?thesis using w s P(4) mst_next_usn_valid mst_next_usn_fresh by auto
qed

theorem mst_write_read_roundtrip_witness:
  "\<exists>b' b''. ntfs_mst_fixup_pre_write ((replicate 256 0)[2 := 8, 3 := 2, 255 := 7]) 512 = Some (EOK, b') \<and>
     ntfs_mst_fixup_post_read b' 512 = Some (EOK, b'') \<and> b'' ! 255 = 7"
proof -
  let ?b = "(replicate 256 0)[2 := 8, 3 := 2, 255 := 7] :: u16 list"
  have r: "mst_record 1 ?b" by (simp add: mst_record_def)
  have m: "\<not> mst_refused (?b ! 0) (?b ! 1)"
    by (simp add: mst_refused_def magic_BAAD_lo_def magic_HOLE_lo_def)
  from mst_write_read_roundtrip [OF r m] obtain b' b'' where
    w: "ntfs_mst_fixup_pre_write ?b 512 = Some (EOK, b')" and
    d: "ntfs_mst_fixup_post_read b' 512 = Some (EOK, b'')" and s: "same_data 1 ?b b''" by auto
  from s have "b'' ! 255 = ?b ! 255" by (simp add: same_data_def outside_usa_def)
  then show ?thesis using w d by auto
qed

text \<open>
  C10. A torn write is detected. \<open>d\<close> is the record as it is on disk, \<open>b\<close> a later version of
  it in memory (with the same usa and the usn that was read), \<open>d'\<close> what is written for it. If
  the disk ends up with some sectors of \<open>d\<close> and some of \<open>d'\<close>, reading the mixture
  fails with \<open>EIO\<close> and only marks the record as \<open>BAAD\<close>.
\<close>

theorem mst_torn_write_detected:
  assumes d: "mst_record n d" "mst_sealed n d"
    and b: "mst_record n b" "\<not> mst_refused (b ! 0) (b ! 1)" "b ! 2 = d ! 2" "b ! usa_at b = d ! usa_at d"
    and w: "ntfs_mst_fixup_pre_write b (512 * n) = Some (EOK, d')"
    and t: "length t = 256 * n"
      "\<forall>s < n. take 256 (drop (256 * s) t) = take 256 (drop (256 * s) (if s \<in> new then d' else d))"
    and torn: "s0 < n" "s0 \<notin> new" "s1 < n" "s1 \<in> new"
  shows "ntfs_mst_fixup_post_read t (512 * n) = Some (EIO, t[0 := magic_BAAD_lo, 1 := magic_BAAD_hi])"
proof -
  note P = pre_write_record [OF b(1,2) w]
  note L = mst_record_layout [OF d(1)]
  have unit: "t ! (256 * s + j) = (if s \<in> new then d' else d) ! (256 * s + j)" if "s < n" "j < 256" for s j
  proof -
    let ?x = "if s \<in> new then d' else d"
    have "length ?x = 256 * n" using P(5) L(1) mst_record_layout(1) [OF b(1)] by auto
    moreover have "256 * s + j < 256 * n" using that by linarith
    moreover have "take 256 (drop (256 * s) t) ! j = take 256 (drop (256 * s) ?x) ! j" using t(2) that(1) by metis
    ultimately show ?thesis using that(2) t(1) by (simp add: nth_drop)
  qed
  have b3: "b ! 3 = d ! 3"
    using b(1) d(1) by (simp add: mst_record_def word_unat_eq_iff)
  have hdr: "t ! 2 = d ! 2" "t ! 3 = d ! 3"
    using unit [of 0 2] unit [of 0 3] L(2) P(6,7) b(3) b3 by (auto simp flip: numeral_2_eq_2 split: if_splits)
  then have rec_t: "mst_record n t" using d(1) t(1) by (simp add: mst_record_def)
  have "t ! (255 + 256 * s0) = d ! usa_at d"
    using unit [of s0 255] torn(1,2) d(2) by (simp add: mst_sealed_def add.commute)
  moreover have "t ! (255 + 256 * s1) = mst_next_usn (d ! usa_at d)"
    using unit [of s1 255] torn(3,4) P(2,3,4) b(4) by (simp add: mst_sealed_def add.commute)
  ultimately have "\<not> mst_sealed n t"
    unfolding mst_sealed_def using torn(1,3) mst_next_usn_fresh by metis
  then show ?thesis by (simp add: post_read_eq [OF rec_t])
qed

theorem mst_torn_write_detected_witness:
  "\<exists>d' t. ntfs_mst_fixup_pre_write ((replicate 512 0)[2 := 8, 3 := 3, 4 := 5]) 1024 = Some (EOK, d') \<and>
     ntfs_mst_fixup_post_read t 1024 = Some (EIO, t[0 := magic_BAAD_lo, 1 := magic_BAAD_hi]) \<and>
     take 256 t = take 256 d'"
proof -
  let ?b = "(replicate 512 0)[2 := 8, 3 := 3, 4 := 5] :: u16 list"
  let ?d = "(replicate 512 0)[2 := 8, 3 := 3, 4 := 5, 255 := 5, 511 := 5] :: u16 list"
  have d: "mst_record 2 ?d" "mst_sealed 2 ?d"
    by (simp_all add: mst_record_def mst_sealed_def less_2_cases_iff all_conj_distrib imp_conjL)
  have b: "mst_record 2 ?b" "\<not> mst_refused (?b ! 0) (?b ! 1)" "?b ! 2 = ?d ! 2" "?b ! usa_at ?b = ?d ! usa_at ?d"
    by (simp_all add: mst_record_def mst_refused_def magic_BAAD_lo_def magic_HOLE_lo_def)
  from pre_write_spec [OF b(1,2)] obtain d' where
    w: "ntfs_mst_fixup_pre_write ?b (512 * 2) = Some (EOK, d')" by metis
  have len: "length d' = 512" using pre_write_record(5) [OF b(1,2) w] by simp
  let ?t = "take 256 d' @ drop 256 ?d"
  have "\<forall>s < 2. take 256 (drop (256 * s) ?t) = take 256 (drop (256 * s) (if s \<in> {0} then d' else ?d))"
    using len by (simp add: less_2_cases_iff all_conj_distrib imp_conjL)
  from mst_torn_write_detected [OF d b w _ this, of 1 0] len
  have "ntfs_mst_fixup_post_read ?t 1024 = Some (EIO, ?t[0 := magic_BAAD_lo, 1 := magic_BAAD_hi])" by simp
  moreover have "take 256 ?t = take 256 d'" using len by simp
  ultimately show ?thesis using w by (intro exI [of _ d'] exI [of _ ?t]) (simp only: numeral_eq_iff, simp)
qed

text \<open>
  C11. Where the layout check is one entry short: for a record of \<open>n\<close> sectors whose
  \<open>usa_count\<close> fits it, \<open>ntfs_mst_fixup_pre_write\<close> touches memory outside the record
  exactly when \<open>usa_ofs\<close> is \<open>510 * n\<close>. The check leaves room for \<open>usa_count - 1\<close>
  entries, but the usa has \<open>usa_count\<close> of them.
\<close>

theorem mst_pre_write_out_of_bounds_iff:
  assumes "length b = 256 * n" "0 < n" "unat (b ! 3) = n + 1" "even (unat (b ! 2))"
    and "\<not> mst_refused (b ! 0) (b ! 1)"
  shows "ntfs_mst_fixup_pre_write b (512 * n) = None \<longleftrightarrow> unat (b ! 2) = 510 * n"
proof -
  let ?ofs = "unat (b ! 2)"
  have "b ! 3 \<noteq> 0" using assms(3) by auto
  then have cnt: "unat (b ! 3 - 1) = n" using assms(3) by (simp add: unat_minus_one)
  have bad: "mst_bad_layout (512 * n) ?ofs n \<longleftrightarrow> 510 * n < ?ofs"
    using assms(4) by (auto simp: mst_bad_layout_def)
  have in_b: "?ofs div 2 < length b" if "?ofs \<le> 510 * n" using that assms(1,2) by linarith
  let ?usn = "mst_next_usn (b ! (?ofs div 2))"
  let ?b1 = "b[?ofs div 2 := ?usn]"
  have "3 < length b" "b \<noteq> []" using assms(1,2) by auto
  then have eq: "ntfs_mst_fixup_pre_write b (512 * n) =
      (if 510 * n < ?ofs then Some (EINVAL, b)
       else map_option (Pair EOK) (mst_save n ?b1 (?ofs div 2) 255 ?usn))"
    using in_b assms(5) cnt bad
    by (cases "mst_save n ?b1 (?ofs div 2) 255 ?usn") (auto simp: ntfs_mst_fixup_pre_write_def rd_Some wr_Some)
  have "mst_save n ?b1 (?ofs div 2) 255 ?usn = None" if "?ofs = 510 * n"
    using that assms(1,2) by (intro mst_save_None) auto
  moreover have "\<exists>b'. mst_save n ?b1 (?ofs div 2) 255 ?usn = Some b'" if "?ofs < 510 * n"
    using that assms(1,2) by (intro mst_save_Some) auto
  ultimately show ?thesis unfolding eq by (cases "?ofs = 510 * n"; cases "?ofs < 510 * n") auto
qed

theorem mst_pre_write_out_of_bounds_iff_witness:
  "ntfs_mst_fixup_pre_write ((replicate 256 0)[2 := 510, 3 := 2]) 512 = None"
  using mst_pre_write_out_of_bounds_iff [of "(replicate 256 0)[2 := 510, 3 := 2]" 1]
  by (simp add: mst_refused_def magic_BAAD_lo_def magic_HOLE_lo_def)

end
