(* ===== verification/NTFS_Runlist.thy ===== *)
theory NTFS_Runlist
  imports NTFS_Prelude
begin

text \<open>
  The in-memory runlist of \<open>kext/ntfs_runlist.h\<close> and \<open>kext/ntfs_runlist.c\<close>: the data
  structure, the functions that grow and shrink its array, and the lookups. A runlist maps
  the virtual cluster numbers (vcn) of an attribute to logical cluster numbers (lcn) of the
  device. It is an array of runs that ends in an element of length 0.

  A vcn, lcn or length is an \<open>int\<close> here. The functions of this theory only add and subtract
  such numbers inside one runlist, so nothing leaves the 64-bit range while the runlist's own
  numbers are below it; the code that computes them from data on disk, where that is not so,
  is in \<open>NTFS_Mapping_Pairs\<close>, with the wrap-around written out.
\<close>

section \<open>Data\<close>

text \<open>The field \<open>length\<close> of the C structure is \<open>rlen\<close> here.\<close>

record ntfs_rl_element =
  vcn :: int
  lcn :: int
  rlen :: int

text \<open>
  \<open>rl\<close> is the whole allocated array, \<open>alloc_count\<close> elements long, of which the first
  \<open>elements\<close> are in use. The null pointer is the empty array.
\<close>

record ntfs_runlist =
  rl :: "ntfs_rl_element list"
  elements :: nat
  alloc_count :: nat

abbreviation LCN_HOLE :: int where "LCN_HOLE \<equiv> - 1"

abbreviation LCN_RL_NOT_MAPPED :: int where "LCN_RL_NOT_MAPPED \<equiv> - 2"

abbreviation LCN_ENOENT :: int where "LCN_ENOENT \<equiv> - 3"

definition ntfs_rl_init :: ntfs_runlist where
  "ntfs_rl_init = \<lparr>rl = [], elements = 0, alloc_count = 0\<rparr>"

definition upd :: "'a list \<Rightarrow> nat \<Rightarrow> ('a \<Rightarrow> 'a) \<Rightarrow> 'a list option" where
  "upd xs i f = do { x \<leftarrow> rd xs i; wr xs i (f x) }"

lemma upd_append [mem_simps]: "i = length xs \<Longrightarrow> upd (xs @ y # ys) i f = Some (xs @ f y # ys)"
  by (simp add: upd_def mem_simps)

lemma upd_Some [mem_simps]: "i < length xs \<Longrightarrow> upd xs i f = Some (xs[i := f (xs ! i)])"
  by (simp add: upd_def mem_simps)

lemmas arr_simps = rd_def wr_def upd_def copy_els_def move_els_def nth_append list_update_append

section \<open>The array of elements\<close>

text \<open>
  Memory comes from \<open>IONewData\<close>, which is the parameter \<open>io\<close>: asked for \<open>n\<close> elements it
  returns an array with arbitrary contents, or \<open>None\<close> when there is no memory. What is
  assumed of it is that the array has the length asked for and that it does not hand out
  arrays of more than 1.5 gigabytes (\<open>rl_max\<close> elements), far from the 4 gigabytes at which the
  32-bit size computations of the callers would wrap around.
\<close>

type_synonym rl_alloc = "nat \<Rightarrow> ntfs_rl_element list option"

abbreviation rl_max :: nat where "rl_max \<equiv> 2 ^ 26"

definition alloc_ok :: "rl_alloc \<Rightarrow> bool" where
  "alloc_ok io \<longleftrightarrow> (\<forall>n b. io n = Some b \<longrightarrow> length b = n \<and> n \<le> rl_max)"

text \<open>The array size for \<open>n\<close> elements of 24 bytes, in units of elements: whole blocks of 1024 bytes.\<close>

definition rl_new_count :: "nat \<Rightarrow> nat" where
  "rl_new_count n = uwrap ((n * 24 + 1023) div 1024 * 1024) div 24"

definition ntfs_rl_inc :: "rl_alloc \<Rightarrow> ntfs_runlist \<Rightarrow> nat \<Rightarrow> (errno \<times> ntfs_runlist) option" where
  "ntfs_rl_inc io r delta =
     (let new_elements = uwrap (elements r + delta); new_count = rl_new_count new_elements in
      if alloc_count r < new_count then
        (case io new_count of
           None \<Rightarrow> Some (ENOMEM, r)
         | Some new_rl \<Rightarrow> do {
             new_rl \<leftarrow> copy_els new_rl 0 (rl r) 0 (elements r);
             Some (EOK, r\<lparr>rl := new_rl, alloc_count := new_count, elements := new_elements\<rparr>) })
      else Some (EOK, r\<lparr>elements := new_elements\<rparr>))"

definition ntfs_rl_ins :: "rl_alloc \<Rightarrow> ntfs_runlist \<Rightarrow> nat \<Rightarrow> nat \<Rightarrow> (errno \<times> ntfs_runlist) option" where
  "ntfs_rl_ins io r pos ins_count =
     (if elements r < pos then None
      else let new_elements = uwrap (elements r + ins_count); new_count = rl_new_count new_elements in
      if new_count \<le> alloc_count r then
        (if ins_count \<noteq> 0 then do {
           xs \<leftarrow> move_els (rl r) (pos + ins_count) pos (elements r - pos);
           Some (EOK, r\<lparr>rl := xs, elements := new_elements\<rparr>) }
         else Some (EOK, r))
      else
        (case io new_count of
           None \<Rightarrow> Some (ENOMEM, r)
         | Some new_rl \<Rightarrow> do {
             new_rl \<leftarrow> copy_els new_rl 0 (rl r) 0 pos;
             new_rl \<leftarrow> copy_els new_rl (pos + ins_count) (rl r) pos (elements r - pos);
             Some (EOK, r\<lparr>rl := new_rl, elements := new_elements, alloc_count := new_count\<rparr>) }))"

definition ntfs_rl_shrink :: "rl_alloc \<Rightarrow> ntfs_runlist \<Rightarrow> nat \<Rightarrow> ntfs_runlist option" where
  "ntfs_rl_shrink io r new_elements =
     (if elements r < new_elements \<or> alloc_count r = 0 \<or> rl r = [] then None
      else let new_count = rl_new_count new_elements in
      if new_count < alloc_count r then
        (case io new_count of
           None \<Rightarrow> Some (r\<lparr>elements := new_elements\<rparr>)
         | Some new_rl \<Rightarrow> do {
             new_rl \<leftarrow> copy_els new_rl 0 (rl r) 0 new_elements;
             Some (r\<lparr>rl := new_rl, alloc_count := new_count, elements := new_elements\<rparr>) })
      else if new_count \<noteq> alloc_count r then None
      else Some (r\<lparr>elements := new_elements\<rparr>))"

section \<open>Lookups\<close>

text \<open>
  The result pairs the lcn with the value stored through \<open>clusters\<close>, if any is stored. The
  array is passed from the element the loop looks at; running off its end is \<open>None\<close>.
\<close>

fun vcn_to_lcn_loop :: "ntfs_rl_element list \<Rightarrow> int \<Rightarrow> (int \<times> int option) option" where
  "vcn_to_lcn_loop [] v = None"
| "vcn_to_lcn_loop (e # es) v =
     (if rlen e \<noteq> 0 then
        (case es of
           [] \<Rightarrow> None
         | e' # _ \<Rightarrow>
             if v < vcn e' then
               (let ofs = v - vcn e in
                Some (if 0 \<le> lcn e then lcn e + ofs else lcn e, Some (rlen e - ofs)))
             else vcn_to_lcn_loop es v)
      else Some (if lcn e < 0 then lcn e else LCN_ENOENT, Some 0))"

definition ntfs_rl_vcn_to_lcn :: "ntfs_rl_element list \<Rightarrow> int \<Rightarrow> (int \<times> int option) option" where
  "ntfs_rl_vcn_to_lcn xs v =
     (if v < 0 then None
      else case xs of
        [] \<Rightarrow> Some (LCN_RL_NOT_MAPPED, None)
      | e # _ \<Rightarrow> if v < vcn e then Some (LCN_ENOENT, None) else vcn_to_lcn_loop xs v)"

text \<open>The element is returned as its index in the array, a null pointer as \<open>None\<close>.\<close>

fun find_vcn_loop :: "ntfs_rl_element list \<Rightarrow> int \<Rightarrow> nat option option" where
  "find_vcn_loop [] v = None"
| "find_vcn_loop (e # es) v =
     (if rlen e \<noteq> 0 then
        (case es of
           [] \<Rightarrow> None
         | e' # _ \<Rightarrow>
             if v < vcn e' then Some (if LCN_HOLE \<le> lcn e then Some 0 else None)
             else map_option (map_option Suc) (find_vcn_loop es v))
      else Some (if lcn e = LCN_ENOENT then Some 0 else None))"

definition ntfs_rl_find_vcn_nolock :: "ntfs_rl_element list \<Rightarrow> int \<Rightarrow> nat option option" where
  "ntfs_rl_find_vcn_nolock xs v =
     (if v < 0 then None
      else case xs of
        [] \<Rightarrow> Some None
      | e # _ \<Rightarrow> if v < vcn e then Some None else find_vcn_loop xs v)"

text \<open>
  The loop \<open>while (rl->length && v >= rl[1].vcn) rl++\<close> that several functions start with:
  how many elements it skips.
\<close>

fun rl_skip :: "ntfs_rl_element list \<Rightarrow> int \<Rightarrow> nat option" where
  "rl_skip [] v = None"
| "rl_skip (e # es) v =
     (if rlen e \<noteq> 0 then
        (case es of
           [] \<Rightarrow> None
         | e' # _ \<Rightarrow> if vcn e' \<le> v then map_option Suc (rl_skip es v) else Some 0)
      else Some 0)"

text \<open>The counting loop of \<open>ntfs_rl_get_nr_real_clusters\<close>, after the first run.\<close>

fun nr_real_loop :: "ntfs_rl_element list \<Rightarrow> int \<Rightarrow> int \<Rightarrow> int option" where
  "nr_real_loop [] end_vcn nr = None"
| "nr_real_loop (e # es) end_vcn nr =
     (if rlen e \<noteq> 0 then
        (case es of
           [] \<Rightarrow> None
         | e' # _ \<Rightarrow>
             if 0 \<le> end_vcn \<and> end_vcn \<le> vcn e' then
               Some (if 0 \<le> lcn e then nr + (end_vcn - vcn e) else nr)
             else nr_real_loop es end_vcn (if 0 \<le> lcn e then nr + rlen e else nr))
      else Some nr)"

definition ntfs_rl_get_nr_real_clusters :: "ntfs_runlist \<Rightarrow> int \<Rightarrow> int \<Rightarrow> int option" where
  "ntfs_rl_get_nr_real_clusters r start_vcn cnt =
     (if start_vcn < 0 \<or> cnt < 0 then None
      else if elements r = 0 \<or> cnt = 0 then Some 0
      else do {
        let end_vcn = start_vcn + cnt;
        i \<leftarrow> (if 0 < start_vcn then ntfs_rl_find_vcn_nolock (rl r) start_vcn
             else Some (if rl r = [] then None else Some 0));
        case i of
          None \<Rightarrow> Some 0
        | Some i \<Rightarrow> do {
            e \<leftarrow> rd (rl r) i;
            if rlen e = 0 then Some 0
            else if 0 \<le> lcn e then do {
              e' \<leftarrow> rd (rl r) (i + 1);
              let nr = vcn e' - (start_vcn - vcn e);
              if cnt < nr then Some cnt else nr_real_loop (drop (i + 1) (rl r)) end_vcn nr }
            else nr_real_loop (drop (i + 1) (rl r)) end_vcn 0 } })"

section \<open>Well-formed runlists\<close>

text \<open>
  \<open>rl_chain s xs t\<close>: the runs \<open>xs\<close> cover the vcns from \<open>s\<close> up to \<open>t\<close> without gap or
  overlap, and each of them is mapped, a hole or not mapped yet.
\<close>

fun rl_chain :: "int \<Rightarrow> ntfs_rl_element list \<Rightarrow> int \<Rightarrow> bool" where
  "rl_chain s [] t \<longleftrightarrow> s = t"
| "rl_chain s (e # es) t \<longleftrightarrow>
     vcn e = s \<and> 0 < rlen e \<and> LCN_RL_NOT_MAPPED \<le> lcn e \<and> rl_chain (s + rlen e) es t"

definition rl_term :: "ntfs_rl_element \<Rightarrow> bool" where
  "rl_term t \<longleftrightarrow> rlen t = 0 \<and> (lcn t = LCN_ENOENT \<or> lcn t = LCN_RL_NOT_MAPPED)"

definition rl_wf :: "ntfs_rl_element list \<Rightarrow> bool" where
  "rl_wf es \<longleftrightarrow> es \<noteq> [] \<and> rl_chain 0 (butlast es) (vcn (last es)) \<and> rl_term (last es)"

text \<open>What the runlist says about a vcn, independent of the code that searches it.\<close>

definition run_lcn :: "ntfs_rl_element \<Rightarrow> int \<Rightarrow> int" where
  "run_lcn e v = (if 0 \<le> lcn e then lcn e + (v - vcn e) else lcn e)"

fun rl_map :: "ntfs_rl_element list \<Rightarrow> int \<Rightarrow> int option" where
  "rl_map [] v = None"
| "rl_map (e # es) v = (if vcn e \<le> v \<and> v < vcn e + rlen e then Some (run_lcn e v) else rl_map es v)"

definition rl_lookup :: "ntfs_rl_element list \<Rightarrow> int \<Rightarrow> int" where
  "rl_lookup es v = (case rl_map es v of Some l \<Rightarrow> l | None \<Rightarrow> lcn (last es))"

text \<open>The elements in use, and the state of the array that every function below keeps.\<close>

abbreviation els :: "ntfs_runlist \<Rightarrow> ntfs_rl_element list" where
  "els r \<equiv> take (elements r) (rl r)"

definition rl_arr_ok :: "ntfs_runlist \<Rightarrow> bool" where
  "rl_arr_ok r \<longleftrightarrow> length (rl r) = alloc_count r \<and> elements r \<le> alloc_count r \<and> alloc_count r \<le> rl_max"

text \<open>
  The functions that grow a runlist also see to it that the array has the size that
  \<open>ntfs_rl_shrink\<close> expects; \<open>ntfs_mapping_pairs_decompress\<close> does not.
\<close>

definition rl_mem_ok :: "ntfs_runlist \<Rightarrow> bool" where
  "rl_mem_ok r \<longleftrightarrow> length (rl r) = alloc_count r \<and> elements r \<le> alloc_count r \<and>
     rl_new_count (elements r) \<le> alloc_count r \<and> alloc_count r \<le> rl_max"

named_theorems rl_simps

lemma rl_chain_append [rl_simps]:
  "rl_chain s (xs @ e # ys) t \<longleftrightarrow>
     rl_chain s xs (vcn e) \<and> 0 < rlen e \<and> LCN_RL_NOT_MAPPED \<le> lcn e \<and> rl_chain (vcn e + rlen e) ys t"
  by (induction xs arbitrary: s) auto

lemma rl_chain_le: "rl_chain s xs t \<Longrightarrow> s \<le> t"
  by (induction xs arbitrary: s) force+

lemma rl_wf_snoc [rl_simps]: "rl_wf (xs @ [t]) \<longleftrightarrow> rl_chain 0 xs (vcn t) \<and> rl_term t"
  by (simp add: rl_wf_def)

lemma rl_wfE:
  assumes "rl_wf es"
  obtains xs t where "es = xs @ [t]" "rl_chain 0 xs (vcn t)" "rl_term t"
  using assms by (cases es rule: rev_cases) (auto simp: rl_simps rl_wf_def)

lemma rl_map_append: "rl_map (xs @ ys) v = (case rl_map xs v of None \<Rightarrow> rl_map ys v | Some l \<Rightarrow> Some l)"
  by (induction xs) auto

lemma rl_map_chain: "rl_chain s xs t \<Longrightarrow> rl_map xs v = None \<longleftrightarrow> v < s \<or> t \<le> v"
proof (induction xs arbitrary: s)
  case (Cons e es)
  then have "rl_chain (s + rlen e) es t" "s + rlen e \<le> t" using rl_chain_le by auto
  with Cons show ?case by auto
qed auto

lemma rl_map_below: "rl_chain s xs t \<Longrightarrow> v < s \<Longrightarrow> rl_map xs v = None"
  by (simp add: rl_map_chain)

lemma rl_map_above: "rl_chain s xs t \<Longrightarrow> t \<le> v \<Longrightarrow> rl_map xs v = None"
  by (simp add: rl_map_chain)

lemma rl_map_term [simp]: "rl_term t \<Longrightarrow> rl_map [t] v = None"
  by (simp add: rl_term_def)

lemma rl_lookup_snoc: "rl_term t \<Longrightarrow> rl_lookup (xs @ [t]) v = (case rl_map xs v of Some l \<Rightarrow> l | None \<Rightarrow> lcn t)"
  by (auto simp: rl_lookup_def rl_map_append rl_term_def split: option.splits)

text \<open>
  The search: the element a vcn lies in splits the runlist. \<open>g\<close> is whatever follows the
  elements in the array.
\<close>

lemma rl_skip_split:
  assumes "rl_chain s xs (vcn t)" and "rl_term t" and "s \<le> v"
  obtains (run) pre e post where "xs = pre @ e # post" "rl_skip (xs @ t # g) v = Some (length pre)"
      "vcn e \<le> v" "v < vcn e + rlen e"
  | (beyond) "rl_skip (xs @ t # g) v = Some (length xs)" "vcn t \<le> v"
  using assms
proof (induction xs arbitrary: s thesis)
  case Nil
  then show ?case by (simp add: rl_term_def)
next
  case (Cons e es)
  show ?case
  proof (cases "v < vcn e + rlen e")
    case True
    have "rl_skip ((e # es) @ t # g) v = Some 0"
      using True Cons.prems(3) by (cases es) (auto simp: rl_term_def)
    then show ?thesis using True Cons.prems by (intro Cons.prems(1) [of "[]" e es]) auto
  next
    case False
    have step: "rl_skip ((e # es) @ t # g) v = map_option Suc (rl_skip (es @ t # g) v)"
      using False Cons.prems(3) by (cases es) auto
    have chain: "rl_chain (s + rlen e) es (vcn t)" "s + rlen e \<le> v" using Cons.prems(3) False by auto
    show ?thesis
    proof (rule Cons.IH [OF _ _ chain(1) Cons.prems(4) chain(2)])
      fix pre e' post
      assume "es = pre @ e' # post" "rl_skip (es @ t # g) v = Some (length pre)" "vcn e' \<le> v" "v < vcn e' + rlen e'"
      then show thesis using step by (intro Cons.prems(1) [of "e # pre" e' post]) auto
    next
      assume "rl_skip (es @ t # g) v = Some (length es)" "vcn t \<le> v"
      then show thesis using step by (intro Cons.prems(2)) auto
    qed
  qed
qed

lemma rl_skip_at:
  assumes "rl_chain s (pre @ e # post) (vcn t)" "rl_term t" "vcn e \<le> v" "v < vcn e + rlen e"
  shows "rl_skip ((pre @ e # post) @ t # g) v = Some (length pre)"
  using assms
proof (induction pre arbitrary: s)
  case Nil
  then show ?case by (cases post) (auto simp: rl_term_def)
next
  case (Cons p pre)
  have "vcn (hd (pre @ [e])) = s + rlen p" "rl_chain (s + rlen p) pre (vcn e)"
    using Cons.prems(1) by (cases pre; auto simp: rl_simps)+
  then have "vcn (hd (pre @ [e])) \<le> v" using rl_chain_le Cons.prems(3) by fastforce
  then show ?case using Cons by (cases pre) auto
qed

lemma vcn_to_lcn_loop_eq:
  assumes "rl_chain s xs (vcn t)" and "rl_term t" and "s \<le> v"
  shows "\<exists>c. vcn_to_lcn_loop (xs @ t # g) v = Some (rl_lookup (xs @ [t]) v, Some c) \<and>
    (\<forall>d. 0 \<le> d \<and> d < c \<longrightarrow> rl_lookup (xs @ [t]) (v + d) =
        (if 0 \<le> rl_lookup (xs @ [t]) v then rl_lookup (xs @ [t]) v + d else rl_lookup (xs @ [t]) v)) \<and>
    (v < vcn t \<longrightarrow> 0 < c) \<and> v + c \<le> max v (vcn t)"
  using assms
proof (induction xs arbitrary: s)
  case Nil
  then show ?case by (auto simp: rl_lookup_def rl_term_def)
next
  case (Cons e es)
  show ?case
  proof (cases "v < vcn e + rlen e")
    case True
    have "vcn_to_lcn_loop ((e # es) @ t # g) v = Some (run_lcn e v, Some (vcn e + rlen e - v))"
      using True Cons.prems by (cases es) (auto simp: run_lcn_def Let_def)
    moreover have "vcn e + rlen e \<le> vcn t" using Cons.prems(1) rl_chain_le by auto
    ultimately show ?thesis using True Cons.prems(1,3)
      by (auto simp: rl_lookup_def run_lcn_def)
  next
    case False
    have step: "vcn_to_lcn_loop ((e # es) @ t # g) v = vcn_to_lcn_loop (es @ t # g) v"
      using False Cons.prems by (cases es) auto
    have same: "rl_lookup ((e # es) @ [t]) (v + d) = rl_lookup (es @ [t]) (v + d)" if "0 \<le> d" for d
      using False that by (simp add: rl_lookup_def split: option.split)
    have "rl_chain (s + rlen e) es (vcn t)" "s + rlen e \<le> v" using Cons.prems False by auto
    from Cons.IH [OF this(1) Cons.prems(2) this(2)] show ?thesis
      unfolding step using same same [of 0] by auto
  qed
qed

lemma find_vcn_loop_eq:
  assumes "rl_chain s xs (vcn t)" and "rl_term t" and "s \<le> v"
  shows "find_vcn_loop (xs @ t # g) v =
    (case rl_skip (xs @ t # g) v of
       None \<Rightarrow> None
     | Some i \<Rightarrow> Some (if LCN_HOLE \<le> lcn ((xs @ [t]) ! i) \<or> lcn ((xs @ [t]) ! i) = LCN_ENOENT then Some i else None))"
  using assms
proof (induction xs arbitrary: s)
  case Nil
  then show ?case by (auto simp: rl_term_def)
next
  case (Cons e es)
  show ?case
  proof (cases "v < vcn e + rlen e")
    case True
    then show ?thesis using Cons.prems by (cases es) auto
  next
    case False
    have "rl_chain (s + rlen e) es (vcn t)" "s + rlen e \<le> v" using Cons.prems False by auto
    from Cons.IH [OF this(1) Cons.prems(2) this(2)] show ?thesis
      using False Cons.prems by (cases es) (auto split: option.splits)
  qed
qed

section \<open>Parts of runlists\<close>

text \<open>A runlist from the vcn \<open>s\<close> on, that is, the end of a well-formed runlist.\<close>

definition rl_from :: "int \<Rightarrow> ntfs_rl_element list \<Rightarrow> bool" where
  "rl_from s es \<longleftrightarrow> es \<noteq> [] \<and> rl_chain s (butlast es) (vcn (last es)) \<and> rl_term (last es)"

lemma rl_wf_from: "rl_wf es \<longleftrightarrow> rl_from 0 es"
  by (simp add: rl_wf_def rl_from_def)

lemma rl_from_append: "rl_chain s xs m \<Longrightarrow> rl_from s (xs @ ys) \<longleftrightarrow> rl_from m ys" if "ys \<noteq> []"
  using that by (induction xs arbitrary: s) (auto simp: rl_from_def butlast_append)

lemma rl_from_Cons: "rl_from s (e # es) \<longleftrightarrow>
   vcn e = s \<and> (if es = [] then rl_term e else 0 < rlen e \<and> LCN_RL_NOT_MAPPED \<le> lcn e \<and> rl_from (s + rlen e) es)"
  by (auto simp: rl_from_def)

lemma rl_wf_split: "rl_wf (xs @ ys) \<Longrightarrow> ys \<noteq> [] \<Longrightarrow> \<exists>q. rl_chain 0 xs q \<and> rl_from q ys"
proof -
  have "rl_from s (xs @ ys) \<Longrightarrow> ys \<noteq> [] \<Longrightarrow> \<exists>q. rl_chain s xs q \<and> rl_from q ys" for s
    by (induction xs arbitrary: s) (auto simp: rl_from_Cons)
  then show "rl_wf (xs @ ys) \<Longrightarrow> ys \<noteq> [] \<Longrightarrow> \<exists>q. rl_chain 0 xs q \<and> rl_from q ys" by (simp add: rl_wf_from)
qed

lemma rl_lookup_append:
  assumes "rl_chain s xs m" "ys \<noteq> []" "s \<le> v"
  shows "rl_lookup (xs @ ys) v = (if v < m then the (rl_map xs v) else rl_lookup ys v)"
  using assms rl_map_chain [OF assms(1), of v] by (auto simp: rl_lookup_def rl_map_append split: option.splits)

lemma rl_lookup_Cons:
  "es \<noteq> [] \<Longrightarrow> rl_lookup (e # es) v = (if vcn e \<le> v \<and> v < vcn e + rlen e then run_lcn e v else rl_lookup es v)"
  by (simp add: rl_lookup_def split: option.split)

lemma rl_from_not_Nil: "rl_from s es \<Longrightarrow> es \<noteq> []"
  by (simp add: rl_from_def)

text \<open>The part of an element from \<open>b\<close> on, and the part in front of \<open>a\<close>.\<close>

definition rl_cut :: "ntfs_rl_element \<Rightarrow> int \<Rightarrow> ntfs_rl_element" where
  "rl_cut e b = e\<lparr>vcn := b, rlen := rlen e - (b - vcn e), lcn := (if 0 \<le> lcn e then lcn e + (b - vcn e) else lcn e)\<rparr>"

abbreviation rl_front :: "ntfs_rl_element \<Rightarrow> int \<Rightarrow> ntfs_rl_element" where
  "rl_front e a \<equiv> e\<lparr>rlen := a - vcn e\<rparr>"

section \<open>The array functions\<close>

text \<open>Shifting a part of an array down and up.\<close>

lemma move_els_down:
  assumes "di = length xs" "si = length xs + length ys" "n = length zs"
  shows "move_els (xs @ ys @ zs @ g) di si n = Some (xs @ zs @ drop n (ys @ zs) @ g)"
proof (cases "zs = []")
  case False
  have "take n (drop si (xs @ ys @ zs @ g)) = zs" using assms by simp
  moreover have "drop (di + n) (xs @ ys @ zs @ g) = drop n (ys @ zs) @ g" using assms by simp
  ultimately show ?thesis using False assms by (simp add: move_els_def copy_els_def)
qed (use assms in \<open>simp add: move_els_def copy_els_def\<close>)

lemma move_els_up:
  assumes "si = length xs" "di = length xs + length ys" "n = length zs" "zs @ g = ws @ g'" "length ws = length ys + length zs"
  shows "move_els (xs @ zs @ g) di si n = Some (xs @ take (length ys) ws @ zs @ g')"
proof -
  have "drop (di + n) (xs @ zs @ g) = g'" using assms by simp
  moreover have "take di (xs @ zs @ g) = xs @ take (length ys) ws" unfolding assms(4) using assms by simp
  moreover have "length (xs @ zs @ g) = length xs + length ys + length zs + length g'"
    using arg_cong [OF assms(4), of length] assms(5) by simp
  moreover have "zs = [] \<Longrightarrow> take (length ys) ws = ws" using assms(5) by simp
  moreover have "take (length zs) ws = zs" using arg_cong [OF assms(4), of "take (length zs)"] assms(5) by simp
  ultimately show ?thesis using assms by (cases "zs = []") (auto simp: move_els_def copy_els_def)
qed

lemma move_els_up1:
  "move_els (xs @ z # zs @ y # g) (Suc (length xs)) (length xs) (Suc (length zs)) = Some (xs @ z # z # zs @ g)"
  using move_els_up [of "length xs" xs "Suc (length xs)" "[z]" "Suc (length zs)" "z # zs" "y # g" "z # zs @ [y]" g] by simp

lemma move_els_up2:
  "move_els (xs @ z # zs @ y # y' # g) (Suc (Suc (length xs))) (length xs) (Suc (length zs)) =
     Some (xs @ z # hd (zs @ [y]) # z # zs @ g)"
  using move_els_up [of "length xs" xs "Suc (Suc (length xs))" "[z, z]" "Suc (length zs)" "z # zs" "y # y' # g" "z # zs @ [y, y']" g]
  by (cases zs) simp_all

lemma rl_size_bound: "n \<le> 2 * rl_max \<Longrightarrow> (n * 24 + 1023) div 1024 * 1024 < 2 ^ 32"
  using div_times_less_eq_dividend [of "n * 24 + 1023" 1024] by simp

lemma rl_new_count_ge:
  assumes "n \<le> 2 * rl_max"
  shows "n \<le> rl_new_count n"
proof -
  have "n * 24 \<le> (n * 24 + 1023) div 1024 * 1024"
    using div_mult_mod_eq [of "n * 24 + 1023" 1024] mod_less_divisor [of 1024 "n * 24 + 1023"] by linarith
  then have "n * 24 div 24 \<le> rl_new_count n"
    unfolding rl_new_count_def uwrap_id [OF rl_size_bound [OF assms]] by (rule div_le_mono)
  then show ?thesis by simp
qed

lemma rl_new_count_mono:
  assumes "m \<le> n" "n \<le> 2 * rl_max"
  shows "rl_new_count m \<le> rl_new_count n"
proof -
  have "m \<le> 2 * rl_max" using assms by simp
  then show ?thesis unfolding rl_new_count_def uwrap_id [OF rl_size_bound [OF assms(2)]] uwrap_id [OF rl_size_bound [OF \<open>m \<le> 2 * rl_max\<close>]]
    using assms(1) by (intro div_le_mono mult_le_mono1) simp
qed

lemma rl_new_count_two_blocks:
  assumes "42 < n" "n \<le> 84"
  shows "rl_new_count n = 85"
proof -
  have "(n * 24 + 1023) div 1024 = 2" using assms by (intro div_nat_eqI) auto
  then show ?thesis by (simp add: rl_new_count_def)
qed

lemma rl_mem_arr: "rl_mem_ok r \<Longrightarrow> rl_arr_ok r"
  by (simp add: rl_mem_ok_def rl_arr_ok_def)

lemma rl_arr_okD:
  assumes "rl_arr_ok r"
  shows "length (rl r) = alloc_count r" and "elements r \<le> length (rl r)" and "length (els r) = elements r"
    and "elements r \<le> rl_max"
  using assms by (auto simp: rl_arr_ok_def)

lemma rl_mem_okD:
  assumes "rl_mem_ok r"
  shows "length (rl r) = alloc_count r" and "elements r \<le> length (rl r)" and "length (els r) = elements r"
    and "elements r \<le> rl_max"
  using assms by (auto simp: rl_mem_ok_def)

lemma els_split: "rl_mem_ok r \<Longrightarrow> rl r = els r @ drop (elements r) (rl r)"
  by simp

lemma copy_els_prefix:
  "n \<le> length dst \<Longrightarrow> n \<le> length src \<Longrightarrow> copy_els dst 0 src 0 n = Some (take n src @ drop n dst)"
  by (simp add: copy_els_def)

lemma rl_inc_cases:
  assumes "alloc_ok io" and "rl_arr_ok r" and "delta \<le> rl_max"
  obtains (nomem) "ntfs_rl_inc io r delta = Some (ENOMEM, r)"
  | (grown) r' g where "ntfs_rl_inc io r delta = Some (EOK, r')" "rl r' = els r @ g" "delta \<le> length g"
      "elements r' = elements r + delta" "rl_mem_ok r'"
proof -
  note M = rl_arr_okD [OF assms(2)]
  have small: "elements r + delta \<le> 2 * rl_max" using M(4) assms(3) by simp
  have ge: "elements r + delta \<le> rl_new_count (elements r + delta)" using small by (rule rl_new_count_ge)
  have inc: "uwrap (elements r + delta) = elements r + delta" using small by (intro uwrap_id) simp
  show thesis
  proof (cases "alloc_count r < rl_new_count (elements r + delta)")
    case True
    let ?n = "rl_new_count (elements r + delta)"
    show thesis
    proof (cases "io ?n")
      case None
      then show thesis using True by (intro nomem) (simp add: ntfs_rl_inc_def Let_def inc)
    next
      case (Some b)
      then have len: "length b = ?n" "?n \<le> rl_max" using assms(1) by (auto simp: alloc_ok_def)
      have le: "elements r + delta \<le> ?n" by (rule ge)
      have "copy_els b 0 (rl r) 0 (elements r) = Some (els r @ drop (elements r) b)"
        using le len M(2) by (intro copy_els_prefix) auto
      then show thesis using True Some len le M
        by (intro grown [of "r\<lparr>rl := els r @ drop (elements r) b, alloc_count := ?n, elements := elements r + delta\<rparr>" "drop (elements r) b"])
          (simp_all add: ntfs_rl_inc_def Let_def inc rl_mem_ok_def)
    qed
  next
    case False
    have le: "elements r + delta \<le> length (rl r)" using False M(1) ge by simp
    show thesis using False le assms(2) [unfolded rl_arr_ok_def]
      by (intro grown [of "r\<lparr>elements := elements r + delta\<rparr>" "drop (elements r) (rl r)"])
        (simp_all add: ntfs_rl_inc_def Let_def inc rl_mem_ok_def)
  qed
qed

lemmas ntfs_rl_inc_cases = rl_inc_cases [OF _ rl_mem_arr, consumes 3, case_names nomem grown]

lemma small_le_rl_max: "(1 :: nat) \<le> rl_max" "(2 :: nat) \<le> rl_max"
  by simp_all

lemmas ntfs_rl_inc_1_cases = ntfs_rl_inc_cases [OF _ _ small_le_rl_max(1), consumes 2, case_names nomem grown]
  and ntfs_rl_inc_2_cases = ntfs_rl_inc_cases [OF _ _ small_le_rl_max(2), consumes 2, case_names nomem grown]

lemma rl_ins_cases:
  assumes "alloc_ok io" and "rl_arr_ok r" and "pos \<le> elements r" and "k \<le> rl_max"
  obtains (nomem) "ntfs_rl_ins io r pos k = Some (ENOMEM, r)"
  | (grown) r' g g' where "ntfs_rl_ins io r pos k = Some (EOK, r')"
      "rl r' = take pos (rl r) @ g @ drop pos (els r) @ g'" "length g = k"
      "elements r' = elements r + k" "rl_mem_ok r'"
proof -
  note M = rl_arr_okD [OF assms(2)]
  have small: "elements r + k \<le> 2 * rl_max" using M(4) assms(4) by simp
  have ge: "elements r + k \<le> rl_new_count (elements r + k)" using small by (rule rl_new_count_ge)
  have inc: "uwrap (elements r + k) = elements r + k" using small by (intro uwrap_id) simp
  show thesis
  proof (cases "rl_new_count (elements r + k) \<le> alloc_count r")
    case True
    have le: "elements r + k \<le> length (rl r)"
      using True M(1) ge by simp
    let ?g = "take k (drop pos (rl r))" and ?g' = "drop (elements r + k) (rl r)"
    let ?xs = "take pos (rl r) @ ?g @ drop pos (els r) @ ?g'"
    have len: "length ?xs = length (rl r)" using le assms(3) M(2) by simp
    have parts: "take (pos + k) (rl r) = take pos (rl r) @ ?g" "pos + k + (elements r - pos) = elements r + k"
      using assms(3) by (simp_all add: take_add)
    have mv: "move_els (rl r) (pos + k) pos (elements r - pos) = Some ?xs"
    proof (cases "elements r = pos")
      case True
      have "rl r = take (pos + k) (rl r) @ drop (pos + k) (rl r)" by simp
      also have "\<dots> = ?xs" using True by (simp only: parts(1)) (simp add: add.commute)
      finally show ?thesis using True by (simp add: move_els_def copy_els_def)
    next
      case False
      then show ?thesis using le assms(3) by (simp add: move_els_def copy_els_def parts drop_take)
    qed
    show thesis
    proof (cases "k = 0")
      case k: True
      have "take pos (rl r) @ drop pos (els r) = els r"
        using append_take_drop_id [of pos "els r"] assms(3) by (simp add: min_def)
      then have whole: "rl r = take pos (rl r) @ [] @ drop pos (els r) @ drop (elements r) (rl r)"
        unfolding append_Nil append_assoc [symmetric] by (simp only: append_take_drop_id)
      show thesis
        by (rule grown [OF _ whole]) (use k True assms [unfolded rl_arr_ok_def] inc in \<open>simp_all add: ntfs_rl_ins_def Let_def rl_mem_ok_def\<close>)
    next
      case k: False
      then show thesis using True le assms [unfolded rl_arr_ok_def] mv len M(1)
        by (intro grown [of "r\<lparr>rl := ?xs, elements := elements r + k\<rparr>" ?g ?g'])
          (simp_all add: ntfs_rl_ins_def Let_def inc rl_mem_ok_def)
    qed
  next
    case False
    let ?n = "rl_new_count (elements r + k)"
    show thesis
    proof (cases "io ?n")
      case None
      then show thesis using False assms(3) by (intro nomem) (simp add: ntfs_rl_ins_def Let_def inc)
    next
      case (Some b)
      then have len: "length b = ?n" "?n \<le> rl_max" using assms(1) by (auto simp: alloc_ok_def)
      have le: "elements r + k \<le> ?n" by (rule ge)
      let ?b1 = "take pos (rl r) @ drop pos b"
      let ?g = "take k (drop pos b)" and ?g' = "drop (elements r + k) b"
      let ?xs = "take pos (rl r) @ ?g @ drop pos (els r) @ ?g'"
      have c1: "copy_els b 0 (rl r) 0 pos = Some ?b1"
        using le len M(2) assms(3) by (intro copy_els_prefix) auto
      have "drop (elements r + k) ?b1 = ?g'" "take (pos + k) ?b1 = take pos (rl r) @ ?g"
        using M(2) assms(3) by simp_all
      moreover have copied: "pos + k + (elements r - pos) = elements r + k" using assms(3) by simp
      ultimately have c2: "copy_els ?b1 (pos + k) (rl r) pos (elements r - pos) = Some ?xs"
      proof (cases "elements r = pos")
        case True
        have "drop pos b = ?g @ ?g'"
          using True append_take_drop_id [of k "drop pos b"] by (simp add: add.commute)
        then show ?thesis using True by (simp add: copy_els_def)
      next
        case False
        assume "drop (elements r + k) ?b1 = ?g'" "take (pos + k) ?b1 = take pos (rl r) @ ?g"
        then show ?thesis using False le len M(2) assms(3) copied by (simp add: copy_els_def drop_take add.commute)
      qed
      then show thesis using False Some len le M assms(3) c1
        by (intro grown [of "r\<lparr>rl := ?xs, elements := elements r + k, alloc_count := ?n\<rparr>" ?g ?g'])
          (simp_all add: ntfs_rl_ins_def Let_def inc rl_mem_ok_def)
    qed
  qed
qed

lemmas ntfs_rl_ins_cases = rl_ins_cases [OF _ rl_mem_arr, consumes 4, case_names nomem grown]

lemma ntfs_rl_shrink_ok:
  assumes "alloc_ok io" and "rl_mem_ok r" and "n \<le> elements r" and "0 < elements r"
  obtains r' where "ntfs_rl_shrink io r n = Some r'" "els r' = take n (rl r)" "elements r' = n" "rl_mem_ok r'"
proof -
  note M = rl_mem_okD [OF assms(2)]
  have ne: "alloc_count r \<noteq> 0" "rl r \<noteq> []" using M assms(4) by auto
  have le: "rl_new_count n \<le> alloc_count r"
    using rl_new_count_mono [OF assms(3)] M(4) assms(2) by (simp add: rl_mem_ok_def)
  show thesis
  proof (cases "rl_new_count n < alloc_count r")
    case False
    then show thesis using le ne assms
      by (intro that [of "r\<lparr>elements := n\<rparr>"]) (simp_all add: ntfs_rl_shrink_def Let_def rl_mem_ok_def)
  next
    case True
    show thesis
    proof (cases "io (rl_new_count n)")
      case None
      then show thesis using True le ne assms
        by (intro that [of "r\<lparr>elements := n\<rparr>"]) (simp_all add: ntfs_rl_shrink_def Let_def rl_mem_ok_def)
    next
      case (Some b)
      then have len: "length b = rl_new_count n" "rl_new_count n \<le> rl_max" using assms(1) by (auto simp: alloc_ok_def)
      have n: "n \<le> length b" "n \<le> length (rl r)" using len rl_new_count_ge [of n] assms(3) M(2,4) by auto
      then have "copy_els b 0 (rl r) 0 n = Some (take n (rl r) @ drop n b)" by (rule copy_els_prefix)
      then show thesis using True ne assms len n Some
        by (intro that [of "r\<lparr>rl := take n (rl r) @ drop n b, alloc_count := rl_new_count n, elements := n\<rparr>"])
          (simp_all add: ntfs_rl_shrink_def Let_def rl_mem_ok_def)
    qed
  qed
qed

lemma shrink_to_prefix:
  assumes "alloc_ok io" and "rl_mem_ok r" and "rl r = new @ rest" and "length new \<le> elements r" and "0 < elements r"
  shows "\<exists>r'. ntfs_rl_shrink io r (length new) = Some r' \<and> els r' = new \<and> elements r' = length new \<and> rl_mem_ok r'"
  using ntfs_rl_shrink_ok [OF assms(1,2,4,5)] by (metis append_eq_conv_conj assms(3))

section \<open>Counting clusters\<close>

definition real_clusters :: "ntfs_rl_element list \<Rightarrow> int \<Rightarrow> int \<Rightarrow> int set" where
  "real_clusters es a b = {v. a \<le> v \<and> v < b \<and> 0 \<le> rl_lookup es v}"

lemma real_clusters_split:
  assumes "rl_chain s (e # xs) (vcn t)" and "rl_term t" and "s \<le> a" and "a \<le> s + rlen e"
  shows "real_clusters (e # xs @ [t]) a b =
    (if 0 \<le> lcn e then {a..<min b (s + rlen e)} else {}) \<union> real_clusters (xs @ [t]) (s + rlen e) b"
proof -
  let ?m = "s + rlen e"
  have c: "vcn e = s" "0 < rlen e" "rl_chain ?m xs (vcn t)" using assms(1) by auto
  have run: "rl_lookup (e # xs @ [t]) v = run_lcn e v" if "s \<le> v" "v < ?m" for v
    using that c by (simp add: rl_lookup_def)
  have rest: "rl_lookup (e # xs @ [t]) v = rl_lookup (xs @ [t]) v" if "?m \<le> v" for v
    using that c by (simp add: rl_lookup_def split: option.split)
  have "v \<in> real_clusters (e # xs @ [t]) a b \<longleftrightarrow>
        v \<in> (if 0 \<le> lcn e then {a..<min b ?m} else {}) \<union> real_clusters (xs @ [t]) ?m b" for v
    using run [of v] rest [of v] assms(3,4) c by (cases "v < ?m") (auto simp: real_clusters_def run_lcn_def)
  then show ?thesis by blast
qed

lemma real_clusters_Cons:
  assumes "rl_chain s (e # xs) (vcn t)" and "rl_term t" and "s \<le> a" and "a \<le> s + rlen e"
  shows "card (real_clusters (e # xs @ [t]) a b) =
    (if 0 \<le> lcn e then nat (min b (s + rlen e) - a) else 0) + card (real_clusters (xs @ [t]) (s + rlen e) b)"
proof -
  let ?m = "s + rlen e"
  have "finite (real_clusters (xs @ [t]) ?m b)"
    by (rule finite_subset [of _ "{?m..<b}"]) (auto simp: real_clusters_def)
  moreover have "{a..<min b ?m} \<inter> real_clusters (xs @ [t]) ?m b = {}" by (auto simp: real_clusters_def)
  ultimately show ?thesis unfolding real_clusters_split [OF assms] by (auto simp: card_Un_disjoint)
qed

lemma real_clusters_empty: "b \<le> a \<Longrightarrow> real_clusters es a b = {}"
  by (auto simp: real_clusters_def)

lemma nr_real_loop_eq:
  assumes "rl_chain s xs (vcn t)" and "rl_term t" and "0 \<le> s" and "s \<le> end_vcn"
  shows "nr_real_loop (xs @ t # g) end_vcn nr = Some (nr + int (card (real_clusters (xs @ [t]) s end_vcn)))"
  using assms
proof (induction xs arbitrary: s nr)
  case Nil
  then show ?case by (auto simp: rl_term_def real_clusters_def rl_lookup_def)
next
  case (Cons e es)
  have step: "nr_real_loop ((e # es) @ t # g) end_vcn nr =
    (if end_vcn \<le> s + rlen e then Some (if 0 \<le> lcn e then nr + (end_vcn - vcn e) else nr)
     else nr_real_loop (es @ t # g) end_vcn (if 0 \<le> lcn e then nr + rlen e else nr))"
    using Cons.prems by (cases es) auto
  have card: "card (real_clusters ((e # es) @ [t]) s end_vcn) =
    (if 0 \<le> lcn e then nat (min end_vcn (s + rlen e) - s) else 0) +
    card (real_clusters (es @ [t]) (s + rlen e) end_vcn)"
    using real_clusters_Cons [OF Cons.prems(1,2), of s end_vcn] Cons.prems(1) by simp
  show ?case
  proof (cases "end_vcn \<le> s + rlen e")
    case True
    then show ?thesis using Cons.prems unfolding step card by (simp add: real_clusters_empty)
  next
    case False
    have "rl_chain (s + rlen e) es (vcn t)" using Cons.prems(1) by simp
    from Cons.IH [OF this Cons.prems(2)] show ?thesis
      using False Cons.prems unfolding step card by auto
  qed
qed

section \<open>Properties\<close>

text \<open>
  C35. \<open>ntfs_rl_vcn_to_lcn\<close> on a well-formed runlist: it terminates inside the array whatever
  follows the terminator, returns what the runlist says about the vcn, and the number it
  stores in \<open>clusters\<close> is a number of clusters that follow contiguously, at least one when
  the vcn is inside the runlist.
\<close>

theorem ntfs_rl_vcn_to_lcn_correct:
  assumes "rl_wf es" and "0 \<le> v"
  shows "\<exists>c. ntfs_rl_vcn_to_lcn (es @ g) v = Some (rl_lookup es v, Some c) \<and>
           (\<forall>d. 0 \<le> d \<and> d < c \<longrightarrow>
              rl_lookup es (v + d) = (if 0 \<le> rl_lookup es v then rl_lookup es v + d else rl_lookup es v)) \<and>
           (v < vcn (last es) \<longrightarrow> 0 < c)"
proof -
  from rl_wfE [OF assms(1)] obtain xs t where
    es: "es = xs @ [t]" and c: "rl_chain 0 xs (vcn t)" and t: "rl_term t" by blast
  have "ntfs_rl_vcn_to_lcn (es @ g) v = vcn_to_lcn_loop (xs @ t # g) v"
    using c assms(2) by (cases xs) (auto simp: ntfs_rl_vcn_to_lcn_def es)
  then show ?thesis using vcn_to_lcn_loop_eq [OF c t assms(2), of g] by (auto simp: es)
qed

theorem ntfs_rl_vcn_to_lcn_correct_witness:
  "\<exists>c. ntfs_rl_vcn_to_lcn
     [\<lparr>vcn = 0, lcn = 100, rlen = 4\<rparr>, \<lparr>vcn = 4, lcn = -1, rlen = 3\<rparr>, \<lparr>vcn = 7, lcn = -3, rlen = 0\<rparr>] 2
   = Some (102, Some c) \<and> 0 < c"
  using ntfs_rl_vcn_to_lcn_correct
    [of "[\<lparr>vcn = 0, lcn = 100, rlen = 4\<rparr>, \<lparr>vcn = 4, lcn = -1, rlen = 3\<rparr>, \<lparr>vcn = 7, lcn = -3, rlen = 0\<rparr>]" 2 "[]"]
  by (auto simp: rl_wf_def rl_term_def rl_lookup_def run_lcn_def)

text \<open>
  \<open>ntfs_rl_find_vcn_nolock\<close> on a well-formed runlist returns the element that contains
  the vcn, or the end marker for a vcn behind the end of the attribute, and the null pointer
  exactly for the vcns the runlist does not know yet.
\<close>

lemma ntfs_rl_find_vcn_correct:
  assumes "rl_wf es" and "0 \<le> v"
  shows "case ntfs_rl_find_vcn_nolock (es @ g) v of
      None \<Rightarrow> False
    | Some None \<Rightarrow> rl_lookup es v = LCN_RL_NOT_MAPPED
    | Some (Some i) \<Rightarrow> i < length es \<and> vcn (es ! i) \<le> v \<and> rl_lookup es v = run_lcn (es ! i) v \<and>
        rl_lookup es v \<noteq> LCN_RL_NOT_MAPPED \<and>
        (v < vcn (es ! i) + rlen (es ! i) \<or> Suc i = length es \<and> lcn (es ! i) = LCN_ENOENT)"
proof -
  from rl_wfE [OF assms(1)] obtain xs t where
    es: "es = xs @ [t]" and c: "rl_chain 0 xs (vcn t)" and t: "rl_term t" by blast
  have "ntfs_rl_find_vcn_nolock (es @ g) v = find_vcn_loop (xs @ t # g) v"
    using c assms(2) by (cases xs) (auto simp: ntfs_rl_find_vcn_nolock_def es)
  then have find: "ntfs_rl_find_vcn_nolock (es @ g) v = (case rl_skip (xs @ t # g) v of
       None \<Rightarrow> None
     | Some i \<Rightarrow> Some (if LCN_HOLE \<le> lcn (es ! i) \<or> lcn (es ! i) = LCN_ENOENT then Some i else None))"
    by (simp add: find_vcn_loop_eq [OF c t assms(2)] es split: option.split)
  show ?thesis
  proof (rule rl_skip_split [OF c t assms(2), of g])
    fix pre e post
    assume x: "xs = pre @ e # post" "rl_skip (xs @ t # g) v = Some (length pre)" "vcn e \<le> v" "v < vcn e + rlen e"
    have e: "rl_chain 0 pre (vcn e)" "LCN_RL_NOT_MAPPED \<le> lcn e" using c x(1) by (simp_all add: rl_simps)
    have "rl_lookup es v = run_lcn e v"
      using x rl_map_above [OF e(1), of v] by (simp add: es rl_lookup_def rl_map_append)
    moreover have "ntfs_rl_find_vcn_nolock (es @ g) v = Some (if LCN_HOLE \<le> lcn e then Some (length pre) else None)"
      unfolding find x(2) using e(2) by (auto simp: es x(1))
    moreover have "es ! length pre = e" "length pre < length es" by (simp_all add: es x(1))
    ultimately show ?thesis using x(3,4) e(2) by (auto simp: run_lcn_def)
  next
    assume x: "rl_skip (xs @ t # g) v = Some (length xs)" "vcn t \<le> v"
    have "rl_lookup es v = lcn t" using rl_map_above [OF c x(2)] t by (simp add: es rl_lookup_snoc)
    moreover have "ntfs_rl_find_vcn_nolock (es @ g) v = Some (if lcn t = LCN_ENOENT then Some (length xs) else None)"
      unfolding find x(1) using t by (auto simp: es rl_term_def)
    moreover have "es ! length xs = t" "Suc (length xs) = length es" by (simp_all add: es)
    ultimately show ?thesis using x(2) t by (auto simp: run_lcn_def rl_term_def)
  qed
qed

text \<open>
  \<open>ntfs_rl_get_nr_real_clusters\<close> counts the real clusters of a range that begins in the
  first run of the runlist, when that run is real or the range leaves it.
\<close>

lemma nr_real_clusters_first_run:
  assumes wf: "rl_wf (els r)" and first: "els r = e # es" "rlen e \<noteq> 0" "LCN_HOLE \<le> lcn e"
    and range: "0 \<le> start" "start < rlen e" "0 < cnt" "0 \<le> lcn e \<or> rlen e \<le> start + cnt"
  shows "ntfs_rl_get_nr_real_clusters r start cnt = Some (int (card (real_clusters (els r) start (start + cnt))))"
proof -
  define g where "g = drop (elements r) (rl r)"
  from rl_wfE [OF wf] obtain xs t where "els r = xs @ [t]" and "rl_chain 0 xs (vcn t)" and t: "rl_term t" by blast
  then obtain ys where es: "es = ys @ [t]" and c: "rl_chain 0 (e # ys) (vcn t)"
    using first(1,2) by (cases xs) (auto simp: rl_term_def)
  have "rl r = els r @ g" unfolding g_def by (rule append_take_drop_id [symmetric])
  then have arr: "rl r = e # ys @ t # g" unfolding first(1) es by simp
  have v: "vcn e = 0" "0 < rlen e" "rl_chain (rlen e) ys (vcn t)" using c by auto
  have find: "(if 0 < start then ntfs_rl_find_vcn_nolock (rl r) start
      else Some (if rl r = [] then None else Some 0)) = Some (Some 0)"
    using range v first(3) by (cases ys) (auto simp: arr ntfs_rl_find_vcn_nolock_def)
  have nx: "rd (rl r) (0 + 1) = Some (hd (ys @ [t]))" "vcn (hd (ys @ [t])) = rlen e"
    using v by (cases ys; auto simp: arr rd_def)+
  have cnt: "card (real_clusters (els r) start (start + cnt)) =
    (if 0 \<le> lcn e then nat (min (start + cnt) (rlen e) - start) else 0) +
    card (real_clusters (ys @ [t]) (rlen e) (start + cnt))"
    using real_clusters_Cons [OF c t, of start "start + cnt"] range(1,2) first(1) es by simp
  have loop: "nr_real_loop (ys @ t # g) (start + cnt) k =
      Some (k + int (card (real_clusters (ys @ [t]) (rlen e) (start + cnt))))" if "rlen e \<le> start + cnt" for k
    using that v by (intro nr_real_loop_eq [OF v(3) t]) auto
  have "elements r \<noteq> 0" using first(1) by (cases "elements r") auto
  then have "ntfs_rl_get_nr_real_clusters r start cnt =
    (if 0 \<le> lcn e then (if cnt < rlen e - start then Some cnt else nr_real_loop (ys @ t # g) (start + cnt) (rlen e - start))
     else nr_real_loop (ys @ t # g) (start + cnt) 0)"
    using range nx v first(2) unfolding ntfs_rl_get_nr_real_clusters_def find by (simp add: arr rd_def)
  then show ?thesis using range loop unfolding cnt by (auto simp: real_clusters_empty)
qed

text \<open>
  Where it miscounts. For a hole of \<open>a\<close> clusters, then \<open>b\<close> real clusters, then another
  hole of \<open>c\<close>, and a range that begins in the real run and ends in the second hole,
  \<open>ntfs_rl_get_nr_real_clusters\<close> returns more than the number of real clusters in the range:
  it takes the distance from the run's start to \<open>start\<close> off the run's end vcn, not \<open>start\<close>
  itself, which adds the run's own vcn \<open>a\<close> to the count.
\<close>

lemma nr_real_clusters_overcounts:
  assumes "0 < a" "0 < b" "0 < c" "0 \<le> l" "a \<le> start" "start < a + b" "a + b < start + cnt" "start + cnt \<le> a + b + c"
    and es: "es = [\<lparr>vcn = 0, lcn = LCN_HOLE, rlen = a\<rparr>, \<lparr>vcn = a, lcn = l, rlen = b\<rparr>,
      \<lparr>vcn = a + b, lcn = LCN_HOLE, rlen = c\<rparr>, \<lparr>vcn = a + b + c, lcn = LCN_ENOENT, rlen = 0\<rparr>]"
  shows "ntfs_rl_get_nr_real_clusters \<lparr>rl = es, elements = 4, alloc_count = 4\<rparr> start cnt = Some (min cnt (a + b - start + a)) \<and>
    int (card (real_clusters es start (start + cnt))) = a + b - start \<and> a + b - start < min cnt (a + b - start + a)"
proof -
  have "real_clusters es start (start + cnt) = {start..<a + b}"
    using assms(1-8) by (auto simp: real_clusters_def es rl_lookup_def run_lcn_def split: if_splits)
  then have "int (card (real_clusters es start (start + cnt))) = a + b - start" using assms(6) by simp
  moreover have "ntfs_rl_get_nr_real_clusters \<lparr>rl = es, elements = 4, alloc_count = 4\<rparr> start cnt = Some (min cnt (a + b - start + a))"
    using assms(1-8) by (auto simp: ntfs_rl_get_nr_real_clusters_def ntfs_rl_find_vcn_nolock_def es rd_def Let_def)
  ultimately show ?thesis using assms(1,7) by auto
qed

end
