(* ===== verification/NTFS_Runlist_Truncate.thy ===== *)
theory NTFS_Runlist_Truncate
  imports NTFS_Runlist
begin

text \<open>
  \<open>ntfs_rl_truncate_nolock\<close> of \<open>kext/ntfs_runlist.c\<close>, which cuts a runlist off or extends it
  with a hole. \<open>truncate_shrink\<close> and \<open>truncate_expand\<close> are the two branches of the C
  function, \<open>truncate_find\<close> is its search loop.
\<close>

section \<open>Truncation\<close>

text \<open>The loop that finds the element \<open>new_length\<close> lies in.\<close>

function truncate_find :: "ntfs_rl_element list \<Rightarrow> nat \<Rightarrow> nat \<Rightarrow> int \<Rightarrow> nat option" where
  "truncate_find xs last_element element new_length =
     (if element < last_element then do {
        e \<leftarrow> rd xs (element + 1);
        if vcn e \<le> new_length then truncate_find xs last_element (element + 1) new_length
        else Some element }
      else Some element)"
  by pat_completeness auto
termination
  by (relation "measure (\<lambda>(xs, last_element, element, n). last_element - element)") auto

declare truncate_find.simps [simp del]

definition truncate_shrink :: "rl_alloc \<Rightarrow> ntfs_runlist \<Rightarrow> int \<Rightarrow> nat \<Rightarrow> (errno \<times> ntfs_runlist) option" where
  "truncate_shrink io r new_length element = do {
     xs \<leftarrow> upd (rl r) element (\<lambda>e. e\<lparr>rlen := new_length - vcn e\<rparr>);
     e \<leftarrow> rd xs element;
     (xs, element) \<leftarrow>
       (if rlen e \<noteq> 0 then do {
          xs \<leftarrow> upd xs (element + 1) (\<lambda>e. e\<lparr>vcn := new_length, rlen := 0\<rparr>);
          Some (xs, element + 1) }
        else Some (xs, element));
     xs \<leftarrow> upd xs element (\<lambda>e. e\<lparr>lcn := LCN_ENOENT\<rparr>);
     r \<leftarrow> ntfs_rl_shrink io (r\<lparr>rl := xs\<rparr>) (element + 1);
     Some (EOK, r) }"

definition truncate_expand :: "rl_alloc \<Rightarrow> ntfs_runlist \<Rightarrow> int \<Rightarrow> nat \<Rightarrow> (errno \<times> ntfs_runlist) option" where
  "truncate_expand io r new_length element = do {
     e \<leftarrow> rd (rl r) element;
     if rlen e \<noteq> 0 then None
     else if vcn e < new_length then do {
       prev_sparse \<leftarrow>
         (if 0 < element then do { p \<leftarrow> rd (rl r) (element - 1); Some (lcn p = LCN_HOLE) } else Some False);
       if prev_sparse then do {
         xs \<leftarrow> upd (rl r) (element - 1) (\<lambda>p. p\<lparr>rlen := new_length - vcn p\<rparr>);
         xs \<leftarrow> upd xs element (\<lambda>e. e\<lparr>vcn := new_length\<rparr>);
         xs \<leftarrow> upd xs element (\<lambda>e. e\<lparr>lcn := LCN_ENOENT\<rparr>);
         Some (EOK, r\<lparr>rl := xs\<rparr>) }
       else do {
         (err, r) \<leftarrow> ntfs_rl_inc io r 1;
         if err \<noteq> EOK then Some (err, r)
         else do {
           xs \<leftarrow> upd (rl r) element (\<lambda>e. e\<lparr>lcn := LCN_HOLE, rlen := new_length - vcn e\<rparr>);
           xs \<leftarrow> upd xs (element + 1) (\<lambda>e. e\<lparr>rlen := 0\<rparr>);
           xs \<leftarrow> upd xs (element + 1) (\<lambda>e. e\<lparr>vcn := new_length\<rparr>);
           xs \<leftarrow> upd xs (element + 1) (\<lambda>e. e\<lparr>lcn := LCN_ENOENT\<rparr>);
           Some (EOK, r\<lparr>rl := xs\<rparr>) } } }
     else do {
       xs \<leftarrow> upd (rl r) element (\<lambda>e. e\<lparr>lcn := LCN_ENOENT\<rparr>);
       Some (EOK, r\<lparr>rl := xs\<rparr>) } }"

definition ntfs_rl_truncate_nolock :: "rl_alloc \<Rightarrow> ntfs_runlist \<Rightarrow> int \<Rightarrow> (errno \<times> ntfs_runlist) option" where
  "ntfs_rl_truncate_nolock io r new_length =
     (if (rl r = [] \<and> alloc_count r \<noteq> 0) \<or> (rl r \<noteq> [] \<and> alloc_count r = 0) \<or> new_length < 0 then None
      else if new_length = 0 then
        Some (EOK, if rl r \<noteq> [] then r\<lparr>rl := [], elements := 0, alloc_count := 0\<rparr> else r)
      else if elements r = 0 then do {
        (err, r) \<leftarrow> ntfs_rl_inc io r 2;
        if err \<noteq> EOK then Some (err, r)
        else do {
          xs \<leftarrow> upd (rl r) 1 (\<lambda>e. e\<lparr>rlen := 0\<rparr>);
          xs \<leftarrow> upd xs 0 (\<lambda>e. e\<lparr>vcn := 0\<rparr>);
          xs \<leftarrow> upd xs 0 (\<lambda>e. e\<lparr>lcn := LCN_HOLE\<rparr>);
          xs \<leftarrow> upd xs 0 (\<lambda>e. e\<lparr>rlen := new_length\<rparr>);
          xs \<leftarrow> upd xs 1 (\<lambda>e. e\<lparr>vcn := new_length\<rparr>);
          xs \<leftarrow> upd xs 1 (\<lambda>e. e\<lparr>lcn := LCN_ENOENT\<rparr>);
          Some (EOK, r\<lparr>rl := xs\<rparr>) } }
      else do {
        first \<leftarrow> rd (rl r) 0;
        if new_length < vcn first then None
        else do {
          let last_element = elements r - 1;
          element \<leftarrow> truncate_find (rl r) last_element 0 new_length;
          if element < last_element then truncate_shrink io r new_length element
          else truncate_expand io r new_length element } })"

section \<open>What truncation does to the runs\<close>

text \<open>The loop of the truncation is the loop \<open>rl_skip\<close> of the other functions, run from an index.\<close>

lemma truncate_find_skip:
  assumes "rl_chain s xs (vcn t)" and "rl_term t" and "s \<le> n"
  shows "truncate_find (pre @ xs @ t # g) (length pre + length xs) (length pre) n =
    map_option ((+) (length pre)) (rl_skip (xs @ t # g) n)"
  using assms
proof (induction xs arbitrary: s pre)
  case Nil
  then show ?case by (simp add: truncate_find.simps rl_term_def)
next
  case (Cons e es)
  have nx: "rd (pre @ (e # es) @ t # g) (length pre + 1) = Some (hd (es @ [t]))"
    by (cases es) (simp_all add: rd_def nth_append)
  have v: "vcn (hd (es @ [t])) = s + rlen e" using Cons.prems(1) by (cases es) auto
  show ?case
  proof (cases "s + rlen e \<le> n")
    case True
    have "rl_chain (s + rlen e) es (vcn t)" using Cons.prems(1) by simp
    from Cons.IH [OF this Cons.prems(2) True, of "pre @ [e]"]
    have "truncate_find (pre @ (e # es) @ t # g) (length pre + length (e # es)) (length pre + 1) n =
      map_option (\<lambda>a. Suc (length pre + a)) (rl_skip (es @ t # g) n)" by (simp add: plus_nat.add_Suc [abs_def])
    moreover have "rl_skip ((e # es) @ t # g) n = map_option Suc (rl_skip (es @ t # g) n)"
      using True Cons.prems(1) by (cases es) auto
    ultimately show ?thesis
      using True nx v by (subst truncate_find.simps) (cases "rl_skip (es @ t # g) n", auto)
  next
    case False
    have "rl_skip ((e # es) @ t # g) n = Some 0" using False Cons.prems(1) by (cases es) auto
    then show ?thesis using False nx v by (subst truncate_find.simps) simp
  qed
qed

text \<open>
  The contract of truncation: the runs end at \<open>n\<close>, below the old end nothing changes, and
  what is new is a hole.
\<close>

definition truncated :: "ntfs_rl_element list \<Rightarrow> int \<Rightarrow> ntfs_rl_element list \<Rightarrow> bool" where
  "truncated es n es' \<longleftrightarrow> rl_wf es' \<and> vcn (last es') = n \<and> lcn (last es') = LCN_ENOENT \<and>
     (\<forall>v. 0 \<le> v \<and> v < n \<longrightarrow>
        rl_lookup es' v = (if es \<noteq> [] \<and> v < vcn (last es) then rl_lookup es v else LCN_HOLE))"

lemma truncated_prefix:
  assumes "rl_chain 0 (pre @ e # post) (vcn t)" "rl_term t" "vcn e \<le> n" "n < vcn e + rlen e" "0 < n"
  shows "truncated (pre @ e # post @ [t]) n
    (if n = vcn e then pre @ [e\<lparr>rlen := 0, lcn := LCN_ENOENT\<rparr>]
     else pre @ [e\<lparr>rlen := n - vcn e\<rparr>, x\<lparr>vcn := n, rlen := 0, lcn := LCN_ENOENT\<rparr>])"
proof -
  have c: "rl_chain 0 pre (vcn e)" "LCN_RL_NOT_MAPPED \<le> lcn e" "rl_chain (vcn e + rlen e) post (vcn t)"
    using assms(1) by (simp_all add: rl_simps)
  have le: "n < vcn t" using rl_chain_le [OF c(3)] assms(4) by simp
  show ?thesis
  proof (cases "n = vcn e")
    case True
    have "rl_lookup (pre @ [e\<lparr>rlen := 0, lcn := LCN_ENOENT\<rparr>]) v = rl_lookup (pre @ e # post @ [t]) v" if "0 \<le> v" "v < n" for v
      using that rl_map_chain [OF c(1), of v] True by (auto simp: rl_lookup_def rl_map_append split: option.splits)
    then show ?thesis using True c(1) le by (auto simp: truncated_def rl_simps rl_term_def)
  next
    case False
    let ?l = "pre @ [e\<lparr>rlen := n - vcn e\<rparr>, x\<lparr>vcn := n, rlen := 0, lcn := LCN_ENOENT\<rparr>]"
    have "rl_lookup ?l v = rl_lookup (pre @ e # post @ [t]) v" if "0 \<le> v" "v < n" for v
      using that rl_map_chain [OF c(1), of v] assms(4) by (auto simp: rl_lookup_def rl_map_append run_lcn_def split: option.splits)
    moreover have "rl_wf ?l" using c(1,2) False assms(3) rl_wf_snoc [of "pre @ [e\<lparr>rlen := n - vcn e\<rparr>]"]
      by (simp add: rl_simps rl_term_def)
    ultimately show ?thesis using False le by (simp add: truncated_def)
  qed
qed

lemma truncate_shrink_ok:
  assumes "alloc_ok io" "rl_mem_ok r" "els r = pre @ e # post @ [t]"
    "rl_chain 0 (pre @ e # post) (vcn t)" "rl_term t" "vcn e \<le> n" "n < vcn e + rlen e" "0 < n"
  shows "\<exists>r'. truncate_shrink io r n (length pre) = Some (EOK, r') \<and> rl_mem_ok r' \<and> truncated (els r) n (els r')"
proof -
  define g where "g = drop (elements r) (rl r)"
  have rl: "rl r = pre @ e # post @ t # g"
    using append_take_drop_id [of "elements r" "rl r"] unfolding assms(3) g_def by simp
  note M = rl_mem_okD [OF assms(2)]
  define nx where "nx = hd (post @ [t])"
  have len: "elements r = Suc (length pre + Suc (length post))" using M(3) unfolding assms(3) by simp
  define new where "new = (if n = vcn e then pre @ [e\<lparr>rlen := 0, lcn := LCN_ENOENT\<rparr>]
     else pre @ [e\<lparr>rlen := n - vcn e\<rparr>, nx\<lparr>vcn := n, rlen := 0, lcn := LCN_ENOENT\<rparr>])"
  define rest where "rest = (if n = vcn e then nx # tl (post @ [t]) @ g else tl (post @ [t]) @ g)"
  have rl': "rl r = pre @ e # nx # tl (post @ [t]) @ g" unfolding rl nx_def by (cases post) simp_all
  have "length (new @ rest) = length (rl r)" unfolding rl' new_def rest_def by simp
  then have mem: "rl_mem_ok (r\<lparr>rl := new @ rest\<rparr>)" using assms(2) by (simp add: rl_mem_ok_def)
  have "length new \<le> elements r" by (simp add: new_def len)
  with shrink_to_prefix [OF assms(1) mem, of new rest] len obtain r' where
    sh: "ntfs_rl_shrink io (r\<lparr>rl := new @ rest\<rparr>) (length new) = Some r'" "els r' = new" "rl_mem_ok r'" by auto
  have "truncate_shrink io r n (length pre) = Some (EOK, r')"
    using sh(1) by (cases "n = vcn e") (simp_all add: truncate_shrink_def rl' new_def rest_def arr_simps)
  then show ?thesis using sh(2,3) truncated_prefix [OF assms(4-8), of nx] by (simp add: assms(3) new_def)
qed

lemma truncated_expand:
  assumes "rl_chain 0 xs (vcn t)" "rl_term t" "vcn t < n"
  shows "truncated (xs @ [t]) n (xs @ [t\<lparr>lcn := LCN_HOLE, rlen := n - vcn t\<rparr>, x\<lparr>vcn := n, rlen := 0, lcn := LCN_ENOENT\<rparr>])"
proof -
  let ?l = "xs @ [t\<lparr>lcn := LCN_HOLE, rlen := n - vcn t\<rparr>, x\<lparr>vcn := n, rlen := 0, lcn := LCN_ENOENT\<rparr>]"
  have "rl_wf ?l" using assms rl_wf_snoc [of "xs @ [t\<lparr>lcn := LCN_HOLE, rlen := n - vcn t\<rparr>]"]
    by (simp add: rl_simps rl_term_def)
  moreover have "rl_lookup ?l v = (if v < vcn t then rl_lookup (xs @ [t]) v else LCN_HOLE)" if "0 \<le> v" "v < n" for v
    using that rl_map_chain [OF assms(1), of v] assms(2)
    by (auto simp: rl_lookup_def rl_map_append run_lcn_def rl_term_def split: option.splits)
  ultimately show ?thesis by (simp add: truncated_def)
qed

lemma truncated_stretch:
  assumes "rl_chain 0 (xs @ [h]) (vcn t)" "rl_term t" "vcn t < n" "lcn h = LCN_HOLE"
  shows "truncated (xs @ [h, t]) n (xs @ [h\<lparr>rlen := n - vcn h\<rparr>, t\<lparr>vcn := n, lcn := LCN_ENOENT\<rparr>])"
proof -
  let ?l = "xs @ [h\<lparr>rlen := n - vcn h\<rparr>, t\<lparr>vcn := n, lcn := LCN_ENOENT\<rparr>]"
  have c: "rl_chain 0 xs (vcn h)" "0 < rlen h" "vcn h + rlen h = vcn t" using assms(1) by (simp_all add: rl_simps)
  have "rl_wf ?l" using c assms rl_wf_snoc [of "xs @ [h\<lparr>rlen := n - vcn h\<rparr>]"]
    by (simp add: rl_simps rl_term_def)
  moreover have "rl_lookup ?l v = (if v < vcn t then rl_lookup (xs @ [h, t]) v else LCN_HOLE)" if "0 \<le> v" "v < n" for v
    using that rl_map_chain [OF c(1), of v] assms(2,4) c
    by (auto simp: rl_lookup_def rl_map_append run_lcn_def rl_term_def split: option.splits)
  ultimately show ?thesis by (simp add: truncated_def)
qed

lemma truncated_same:
  assumes "rl_chain 0 xs (vcn t)" "rl_term t"
  shows "truncated (xs @ [t]) (vcn t) (xs @ [t\<lparr>lcn := LCN_ENOENT\<rparr>])"
proof -
  have "rl_lookup (xs @ [t\<lparr>lcn := LCN_ENOENT\<rparr>]) v = rl_lookup (xs @ [t]) v" if "0 \<le> v" "v < vcn t" for v
    using that rl_map_chain [OF assms(1), of v] by (auto simp: rl_lookup_def rl_map_append split: option.splits)
  then show ?thesis using assms by (simp add: truncated_def rl_simps rl_term_def)
qed

lemma truncate_expand_ok:
  assumes "alloc_ok io" "rl_mem_ok r" "els r = xs @ [t]" "rl_chain 0 xs (vcn t)" "rl_term t" "vcn t \<le> n" "0 < n"
  shows "truncate_expand io r n (length xs) = Some (ENOMEM, r) \<or>
    (\<exists>r'. truncate_expand io r n (length xs) = Some (EOK, r') \<and> rl_mem_ok r' \<and> truncated (els r) n (els r'))"
proof -
  define g where "g = drop (elements r) (rl r)"
  have rl: "rl r = xs @ t # g"
    using append_take_drop_id [of "elements r" "rl r"] unfolding assms(3) g_def by simp
  have len: "elements r = Suc (length xs)" using rl_mem_okD(3) [OF assms(2)] unfolding assms(3) by simp
  have t0: "rlen t = 0" using assms(5) by (simp add: rl_term_def)
  consider (same) "vcn t = n" | (stretch) ys h where "vcn t < n" "xs = ys @ [h]" "lcn h = LCN_HOLE"
    | (add) "vcn t < n" "xs = [] \<or> lcn (last xs) \<noteq> LCN_HOLE"
    using assms(6) by (cases xs rule: rev_cases) force+
  then show ?thesis
  proof cases
    case same
    let ?r' = "r\<lparr>rl := xs @ t\<lparr>lcn := LCN_ENOENT\<rparr> # g\<rparr>"
    have "truncate_expand io r n (length xs) = Some (EOK, ?r')"
      using same t0 by (simp add: truncate_expand_def rl arr_simps)
    moreover have "rl_mem_ok ?r'" using assms(2) by (simp add: rl_mem_ok_def rl)
    moreover have "truncated (els r) n (els ?r')"
      using truncated_same [OF assms(4,5)] same len unfolding assms(3) by simp
    ultimately show ?thesis by blast
  next
    case stretch
    let ?r' = "r\<lparr>rl := ys @ h\<lparr>rlen := n - vcn h\<rparr> # t\<lparr>vcn := n, lcn := LCN_ENOENT\<rparr> # g\<rparr>"
    have "truncate_expand io r n (length xs) = Some (EOK, ?r')"
      using stretch t0 by (simp add: truncate_expand_def rl arr_simps)
    moreover have "rl_mem_ok ?r'" using assms(2) by (simp add: rl_mem_ok_def rl stretch(2))
    moreover have "truncated (els r) n (els ?r')"
      using truncated_stretch [OF _ assms(5) stretch(1,3), of ys] assms(4) stretch(2) len unfolding assms(3) by simp
    ultimately show ?thesis by blast
  next
    case add
    have prev: "(if 0 < length xs then do { p \<leftarrow> rd (rl r) (length xs - 1); Some (lcn p = LCN_HOLE) } else Some False) = Some False"
      using add(2) by (cases xs rule: rev_cases) (auto simp: rl rd_def nth_append)
    from assms(1,2) show ?thesis
    proof (cases rule: ntfs_rl_inc_1_cases)
      case nomem
      then have "truncate_expand io r n (length xs) = Some (ENOMEM, r)"
        using prev add(1) t0 by (simp add: truncate_expand_def rl rd_def nth_append)
      then show ?thesis by simp
    next
      case (grown r1 g1)
      obtain x g2 where g1: "g1 = x # g2" using grown(3) by (cases g1) auto
      have rl1: "rl r1 = xs @ t # x # g2" using grown(2) unfolding assms(3) g1 by simp
      let ?new = "xs @ [t\<lparr>lcn := LCN_HOLE, rlen := n - vcn t\<rparr>, x\<lparr>vcn := n, rlen := 0, lcn := LCN_ENOENT\<rparr>]"
      let ?r' = "r1\<lparr>rl := ?new @ g2\<rparr>"
      have "truncate_expand io r n (length xs) = Some (EOK, ?r')"
        using prev add(1) t0 grown(1) rl1 by (simp add: truncate_expand_def rl arr_simps)
      moreover have "rl_mem_ok ?r'" using grown(5) by (simp add: rl_mem_ok_def rl1)
      moreover have "truncated (els r) n (els ?r')"
        using truncated_expand [OF assms(4,5) add(1), of x] grown(4) len unfolding assms(3) by simp
      ultimately show ?thesis by blast
    qed
  qed
qed

section \<open>Properties of truncation\<close>

text \<open>
  C15. Truncation. On a runlist with a well-formed array \<open>ntfs_rl_truncate_nolock\<close> to
  a positive length either reports that there is no memory and leaves the runlist alone, or
  leaves a well-formed runlist of exactly that length that maps every vcn below the
  old end as before and the rest to a hole.
\<close>

theorem ntfs_rl_truncate_correct:
  assumes "alloc_ok io" and "rl_mem_ok r" and "elements r \<noteq> 0 \<longrightarrow> rl_wf (els r)" and "0 < n"
  shows "ntfs_rl_truncate_nolock io r n = Some (ENOMEM, r) \<or>
    (\<exists>r'. ntfs_rl_truncate_nolock io r n = Some (EOK, r') \<and> rl_mem_ok r' \<and> truncated (els r) n (els r'))"
proof (cases "elements r = 0")
  case True
  have guard: "\<not> ((rl r = [] \<and> alloc_count r \<noteq> 0) \<or> (rl r \<noteq> [] \<and> alloc_count r = 0) \<or> n < 0)"
    using rl_mem_okD(1) [OF assms(2)] assms(4) by auto
  from assms(1,2) show ?thesis
  proof (cases rule: ntfs_rl_inc_2_cases)
    case nomem
    then show ?thesis using True guard assms(4) by (simp add: ntfs_rl_truncate_nolock_def)
  next
    case (grown r1 g)
    obtain x y g2 where g: "g = x # y # g2" using grown(3) by (cases g; cases "tl g") auto
    have rl1: "rl r1 = x # y # g2" using grown(2) True by (simp add: g)
    let ?r' = "r1\<lparr>rl := x\<lparr>vcn := 0, lcn := LCN_HOLE, rlen := n\<rparr> # y\<lparr>vcn := n, lcn := LCN_ENOENT, rlen := 0\<rparr> # g2\<rparr>"
    have "ntfs_rl_truncate_nolock io r n = Some (EOK, ?r')"
      using True guard assms(4) grown(1) rl1 by (simp add: ntfs_rl_truncate_nolock_def arr_simps)
    moreover have "rl_mem_ok ?r'" using grown(5) by (simp add: rl_mem_ok_def rl1)
    moreover have "truncated (els r) n (els ?r')"
      using True grown(4) assms(4) by (simp add: truncated_def rl_wf_def rl_term_def rl_lookup_def run_lcn_def)
    ultimately show ?thesis by blast
  qed
next
  case False
  then have "rl_wf (els r)" using assms(3) by simp
  then obtain xs t where es: "els r = xs @ [t]" and c: "rl_chain 0 xs (vcn t)" and t: "rl_term t" by (rule rl_wfE)
  define g where "g = drop (elements r) (rl r)"
  have rl: "rl r = xs @ t # g" using append_take_drop_id [of "elements r" "rl r"] unfolding es g_def by simp
  have len: "elements r = Suc (length xs)" using rl_mem_okD(3) [OF assms(2)] unfolding es by simp
  have "vcn (rl r ! 0) = 0" using c unfolding rl by (cases xs) auto
  moreover have "alloc_count r \<noteq> 0" using rl_mem_okD(1) [OF assms(2)] unfolding rl by auto
  ultimately have go: "ntfs_rl_truncate_nolock io r n = do {
      element \<leftarrow> truncate_find (rl r) (length xs) 0 n;
      if element < length xs then truncate_shrink io r n element else truncate_expand io r n element }"
    using False assms(4) by (simp add: ntfs_rl_truncate_nolock_def len rl rd_def Let_def)
  have find: "truncate_find (rl r) (length xs) 0 n = rl_skip (xs @ t # g) n"
    using truncate_find_skip [OF c t, of n "[]" g] assms(4)
    by (cases "rl_skip (xs @ t # g) n") (simp_all add: rl)
  have n0: "0 \<le> n" using assms(4) by simp
  from c t n0 show ?thesis
  proof (cases rule: rl_skip_split [where g = g])
    case (run pre e post)
    have "rl_chain 0 (pre @ e # post) (vcn t)" using c run(1) by simp
    from truncate_shrink_ok [OF assms(1,2) _ this t run(3,4) assms(4)] show ?thesis
      unfolding go find run(2) using run(1) by (simp add: es)
  next
    case beyond
    from truncate_expand_ok [OF assms(1,2) es c t beyond(2) assms(4)] show ?thesis
      unfolding go find beyond(1) by simp
  qed
qed

theorem ntfs_rl_truncate_correct_witness:
  "\<exists>r'. ntfs_rl_truncate_nolock (\<lambda>n. None)
      \<lparr>rl = [\<lparr>vcn = 0, lcn = 100, rlen = 4\<rparr>, \<lparr>vcn = 4, lcn = -3, rlen = 0\<rparr>] @ replicate 40 \<lparr>vcn = 0, lcn = 0, rlen = 0\<rparr>,
        elements = 2, alloc_count = 42\<rparr> 3 = Some (EOK, r') \<and> rl_lookup (els r') 2 = 102"
  using ntfs_rl_truncate_correct [of "\<lambda>n. None"
     "\<lparr>rl = [\<lparr>vcn = 0, lcn = 100, rlen = 4\<rparr>, \<lparr>vcn = 4, lcn = -3, rlen = 0\<rparr>] @ replicate 40 \<lparr>vcn = 0, lcn = 0, rlen = 0\<rparr>,
        elements = 2, alloc_count = 42\<rparr>" 3]
  by (auto simp: alloc_ok_def rl_mem_ok_def rl_new_count_def rl_wf_def rl_term_def rl_lookup_def run_lcn_def truncated_def
      ntfs_rl_truncate_nolock_def truncate_find.simps truncate_shrink_def arr_simps ntfs_rl_shrink_def)

text \<open>
  C36. Where truncation stops the kernel. \<open>ntfs_rl_shrink\<close> panics when the array is smaller
  than the size it computes for the remaining elements. Arrays that
  \<open>ntfs_mapping_pairs_decompress\<close> allocated are multiples of 42 elements, while
  \<open>ntfs_rl_shrink\<close> counts 85 elements for two blocks: so truncating such a runlist of 84
  allocated elements at the start of a run with index 42 or more panics.
\<close>

theorem ntfs_rl_truncate_panics:
  assumes "els r = pre @ e # post" "post \<noteq> []" "rl_wf (els r)" "length (rl r) = 84" "alloc_count r = 84"
    and "elements r \<le> 84" and "42 \<le> length pre" "n = vcn e"
  shows "ntfs_rl_truncate_nolock io r n = None"
proof -
  obtain post' t where post: "post = post' @ [t]" using assms(2) by (cases post rule: rev_cases) auto
  from assms(3) have c: "rl_chain 0 (pre @ e # post') (vcn t)" "rl_term t"
    unfolding assms(1) post using rl_wf_snoc [of "pre @ e # post'" t] by simp_all
  then have e: "rl_chain 0 pre (vcn e)" "0 < rlen e" by (simp_all add: rl_simps)
  define g where "g = drop (elements r) (rl r)"
  have rl: "rl r = (pre @ e # post') @ t # g"
    using append_take_drop_id [of "elements r" "rl r"] unfolding assms(1) g_def post by simp
  have "length (els r) \<le> 84" using assms(4) by simp
  then have len: "Suc (length pre + Suc (length post')) \<le> 84" unfolding assms(1) post by simp
  have el: "elements r \<noteq> 0" using assms(1) by (cases "elements r") auto
  have "length (els r) = min 84 (elements r)" using assms(4) by simp
  then have last: "elements r - 1 = length (pre @ e # post')"
    unfolding assms(1) post using assms(6) by simp
  obtain p pre' where pre: "pre = p # pre'" using assms(7) by (cases pre) auto
  have p: "vcn p = 0" "0 < rlen p" using c(1) unfolding pre by simp_all
  have n: "0 < n" using e(1) rl_chain_le unfolding pre assms(8) by fastforce
  have "truncate_find (rl r) (elements r - 1) 0 n = Some (length pre)"
    using truncate_find_skip [OF c, of n "[]" g] rl_skip_at [OF c, of n g] n e(2) assms(8)
    unfolding rl last by simp
  moreover have "rd (rl r) 0 = Some p" "rl r \<noteq> []" by (simp_all add: rl pre rd_def)
  ultimately have "ntfs_rl_truncate_nolock io r n = truncate_shrink io r n (length pre)"
    using n el assms(5) last p(1) by (simp add: ntfs_rl_truncate_nolock_def Let_def)
  moreover have "rl_new_count (Suc (length pre)) = 85"
    using assms(7) len by (intro rl_new_count_two_blocks) auto
  ultimately show ?thesis using assms(5,8) unfolding truncate_shrink_def
    by (simp add: rl arr_simps ntfs_rl_shrink_def)
qed

theorem ntfs_rl_truncate_panics_witness:
  "ntfs_rl_truncate_nolock (\<lambda>n. None)
     \<lparr>rl = map (\<lambda>i. \<lparr>vcn = int i, lcn = 2 * int i, rlen = 1\<rparr>) [0..<50] @
        \<lparr>vcn = 50, lcn = LCN_ENOENT, rlen = 0\<rparr> # replicate 33 \<lparr>vcn = 0, lcn = 0, rlen = 0\<rparr>,
      elements = 51, alloc_count = 84\<rparr> 42 = None"
  by (rule ntfs_rl_truncate_panics [of _ "map (\<lambda>i. \<lparr>vcn = int i, lcn = 2 * int i, rlen = 1\<rparr>) [0..<42]"
      "\<lparr>vcn = 42, lcn = 84, rlen = 1\<rparr>"
      "map (\<lambda>i. \<lparr>vcn = int i, lcn = 2 * int i, rlen = 1\<rparr>) [43..<50] @ [\<lparr>vcn = 50, lcn = LCN_ENOENT, rlen = 0\<rparr>]"])
    (simp_all add: rl_wf_def rl_term_def upt_rec)

end
