(* ===== verification/NTFS_Runlist_Punch.thy ===== *)
theory NTFS_Runlist_Punch
  imports NTFS_Runlist
begin

text \<open>
  \<open>ntfs_rl_punch_nolock\<close> of \<open>kext/ntfs_runlist.c\<close>, which punches a hole into a runlist.
  Each \<open>goto\<close> target and each longer case of the C function is a definition of its own. The
  proof shows that every case leaves runs of one shape behind (\<open>punchedI\<close>): what was in front
  of the range, one hole, and what was behind it.
\<close>

section \<open>Punching a hole\<close>

text \<open>
  The loop from the element that holds \<open>start_vcn\<close> to the one that holds \<open>end_vcn\<close>: the number
  of elements between them, or \<open>Some None\<close> when one of them is not mapped (\<open>EINVAL\<close>).
\<close>

fun punch_find_end :: "ntfs_rl_element list \<Rightarrow> int \<Rightarrow> nat option option" where
  "punch_find_end [] end_vcn = None"
| "punch_find_end (e # es) end_vcn =
     (if rlen e \<noteq> 0 then
        (case es of
           [] \<Rightarrow> None
         | e' # _ \<Rightarrow>
             if vcn e' \<le> end_vcn then
               (if lcn e < LCN_HOLE then Some None
                else map_option (map_option Suc) (punch_find_end es end_vcn))
             else Some (Some 0))
      else Some (Some 0))"

text \<open>\<open>extend_hole\<close>: the hole at index \<open>s\<close> is stretched to \<open>end_vcn\<close>, which lies in element \<open>e\<close>.\<close>

definition punch_extend_hole ::
    "rl_alloc \<Rightarrow> ntfs_runlist \<Rightarrow> int \<Rightarrow> nat \<Rightarrow> nat \<Rightarrow> nat \<Rightarrow> (errno \<times> ntfs_runlist) option" where
  "punch_extend_hole io r end_vcn s e hole_size = do {
     xs \<leftarrow> upd (rl r) s (\<lambda>h. h\<lparr>rlen := end_vcn - vcn h\<rparr>);
     el_end \<leftarrow> rd xs e;
     (xs, e, hole_size) \<leftarrow>
       (if lcn el_end = LCN_HOLE then do {
          nx \<leftarrow> rd xs (e + 1);
          xs \<leftarrow> upd xs s (\<lambda>h. h\<lparr>rlen := vcn nx - vcn h\<rparr>);
          Some (xs, e + 1, hole_size + 1) }
        else Some (xs, e, hole_size));
     let s = s + 1;
     let hole_size = hole_size - 1;
     xs \<leftarrow> (if s < e then move_els xs s e (elements r - e) else Some xs);
     tail \<leftarrow> rd xs s;
     xs \<leftarrow>
       (if vcn tail < end_vcn then
          wr xs s (let delta = end_vcn - vcn tail in
            tail\<lparr>vcn := end_vcn, rlen := rlen tail - delta,
                 lcn := (if 0 \<le> lcn tail then lcn tail + delta else lcn tail)\<rparr>)
        else Some xs);
     if s < e then do {
       r \<leftarrow> ntfs_rl_shrink io (r\<lparr>rl := xs\<rparr>) (elements r - hole_size);
       Some (EOK, r) }
     else Some (EOK, r\<lparr>rl := xs\<rparr>) }"

text \<open>\<open>split_end\<close>: the run at \<open>s\<close> becomes a hole of \<open>len\<close> clusters and what is left of it.\<close>

definition punch_split_end :: "ntfs_runlist \<Rightarrow> int \<Rightarrow> nat \<Rightarrow> bool \<Rightarrow> (errno \<times> ntfs_runlist) option" where
  "punch_split_end r len s lcn_fixup = do {
     xs \<leftarrow> move_els (rl r) (s + 1) s (elements r - 1 - s);
     xs \<leftarrow> upd xs s (\<lambda>h. h\<lparr>lcn := LCN_HOLE, rlen := len\<rparr>);
     xs \<leftarrow> upd xs (s + 1) (\<lambda>e. e\<lparr>vcn := vcn e + len,
             lcn := (if 0 \<le> lcn e \<or> lcn_fixup then lcn e + len else lcn e),
             rlen := rlen e - len\<rparr>);
     Some (EOK, r\<lparr>rl := xs\<rparr>) }"

text \<open>The case where \<open>start_vcn\<close> is inside a run and \<open>end_vcn\<close> in a hole.\<close>

definition punch_into_hole ::
    "rl_alloc \<Rightarrow> ntfs_runlist \<Rightarrow> int \<Rightarrow> nat \<Rightarrow> nat \<Rightarrow> nat \<Rightarrow> (errno \<times> ntfs_runlist) option" where
  "punch_into_hole io r start_vcn s e hole_size = do {
     xs \<leftarrow> upd (rl r) s (\<lambda>x. x\<lparr>rlen := start_vcn - vcn x\<rparr>);
     let s = s + 1;
     let hole_size = hole_size - 1;
     xs \<leftarrow> (if s < e then move_els xs s e (elements r - e) else Some xs);
     xs \<leftarrow> upd xs s (\<lambda>x. x\<lparr>vcn := start_vcn\<rparr>);
     nx \<leftarrow> rd xs (s + 1);
     xs \<leftarrow> upd xs s (\<lambda>x. x\<lparr>rlen := vcn nx - start_vcn\<rparr>);
     if s < e then do {
       r \<leftarrow> ntfs_rl_shrink io (r\<lparr>rl := xs\<rparr>) (elements r - hole_size);
       Some (EOK, r) }
     else Some (EOK, r\<lparr>rl := xs\<rparr>) }"

text \<open>The case where both lie in one run that is neither a hole nor starts at \<open>start_vcn\<close>.\<close>

definition punch_split_both ::
    "rl_alloc \<Rightarrow> ntfs_runlist \<Rightarrow> int \<Rightarrow> int \<Rightarrow> nat \<Rightarrow> (errno \<times> ntfs_runlist) option" where
  "punch_split_both io r start_vcn len s = do {
     (err, r) \<leftarrow> ntfs_rl_inc io r 2;
     if err \<noteq> EOK then Some (err, r)
     else do {
       xs \<leftarrow> move_els (rl r) (s + 2) s (elements r - 2 - s);
       xs \<leftarrow> upd xs s (\<lambda>x. x\<lparr>rlen := start_vcn - vcn x\<rparr>);
       xs \<leftarrow> upd xs (s + 1) (\<lambda>x. x\<lparr>vcn := start_vcn, lcn := LCN_HOLE, rlen := len\<rparr>);
       xs \<leftarrow> upd xs (s + 2) (\<lambda>x. let delta = start_vcn + len - vcn x in
               x\<lparr>vcn := start_vcn + len, lcn := lcn x + delta, rlen := rlen x - delta\<rparr>);
       Some (EOK, r\<lparr>rl := xs\<rparr>) } }"

text \<open>The case where \<open>end_vcn\<close> lies in a later run, which is not a hole.\<close>

definition punch_to_later_run ::
    "rl_alloc \<Rightarrow> ntfs_runlist \<Rightarrow> int \<Rightarrow> int \<Rightarrow> nat \<Rightarrow> nat \<Rightarrow> nat \<Rightarrow> (errno \<times> ntfs_runlist) option" where
  "punch_to_later_run io r start_vcn len s e hole_size = do {
     nx \<leftarrow> rd (rl r) (s + 1);
     far \<leftarrow> (if rlen nx \<noteq> 0 then do { nx2 \<leftarrow> rd (rl r) (s + 2); Some (vcn nx2 \<le> start_vcn + len) } else Some False);
     if far then do {
       xs \<leftarrow> upd (rl r) s (\<lambda>x. x\<lparr>rlen := start_vcn - vcn x\<rparr>);
       xs \<leftarrow> upd xs (s + 1) (\<lambda>x. x\<lparr>vcn := start_vcn, lcn := LCN_HOLE\<rparr>);
       punch_extend_hole io (r\<lparr>rl := xs\<rparr>) (start_vcn + len) (s + 1) e (hole_size - 1) }
     else do {
       (err, r) \<leftarrow> ntfs_rl_inc io r 1;
       if err \<noteq> EOK then Some (err, r)
       else do {
         xs \<leftarrow> upd (rl r) s (\<lambda>x. x\<lparr>rlen := start_vcn - vcn x\<rparr>);
         nx \<leftarrow> rd xs (s + 1);
         let delta = vcn nx - start_vcn;
         xs \<leftarrow> upd xs (s + 1) (\<lambda>x. x\<lparr>vcn := start_vcn,
                 lcn := (if 0 \<le> lcn x then lcn x - delta else lcn x), rlen := rlen x + delta\<rparr>);
         punch_split_end (r\<lparr>rl := xs\<rparr>) len (s + 1) (0 \<le> lcn nx) } } }"

text \<open>From \<open>start_vcn\<close> in element \<open>s\<close> and \<open>end_vcn\<close> in element \<open>e\<close>: which of the cases applies.\<close>

definition punch_hole ::
    "rl_alloc \<Rightarrow> ntfs_runlist \<Rightarrow> int \<Rightarrow> int \<Rightarrow> nat \<Rightarrow> nat \<Rightarrow> nat \<Rightarrow> (errno \<times> ntfs_runlist) option" where
  "punch_hole io r start_vcn len s e hole_size = do {
     let end_vcn = start_vcn + len;
     el \<leftarrow> rd (rl r) s;
     nx \<leftarrow> rd (rl r) (s + 1);
     el_end \<leftarrow> rd (rl r) e;
     if lcn el = LCN_HOLE then
       (if end_vcn \<le> vcn nx then Some (EOK, r) else punch_extend_hole io r end_vcn s e hole_size)
     else if start_vcn = vcn el then do {
       prev_hole \<leftarrow> (if 0 < s then do { p \<leftarrow> rd (rl r) (s - 1); Some (lcn p = LCN_HOLE) } else Some False);
       if prev_hole then punch_extend_hole io r end_vcn (s - 1) e (hole_size + 1)
       else if vcn nx \<le> end_vcn then do {
         xs \<leftarrow> upd (rl r) s (\<lambda>x. x\<lparr>lcn := LCN_HOLE\<rparr>);
         punch_extend_hole io (r\<lparr>rl := xs\<rparr>) end_vcn s e hole_size }
       else do {
         (err, r) \<leftarrow> ntfs_rl_inc io r 1;
         if err \<noteq> EOK then Some (err, r) else punch_split_end r len s False } }
     else if lcn el_end = LCN_HOLE then punch_into_hole io r start_vcn s e hole_size
     else if vcn nx \<le> end_vcn then punch_to_later_run io r start_vcn len s e hole_size
     else punch_split_both io r start_vcn len s }"

definition ntfs_rl_punch_nolock ::
    "rl_alloc \<Rightarrow> ntfs_runlist \<Rightarrow> int \<Rightarrow> int \<Rightarrow> (errno \<times> ntfs_runlist) option" where
  "ntfs_rl_punch_nolock io r start_vcn len =
     (let end_vcn = s64 (start_vcn + len) in
      if start_vcn < 0 \<or> len < 0 \<or> end_vcn < 0 then None
      else if elements r = 0 then Some (if start_vcn = 0 \<and> len = 0 then EOK else ENOENT, r)
      else if alloc_count r = 0 \<or> rl r = [] then None
      else do {
        s \<leftarrow> rl_skip (rl r) start_vcn;
        between \<leftarrow> punch_find_end (drop s (rl r)) end_vcn;
        case between of
          None \<Rightarrow> Some (EINVAL, r)
        | Some hole_size \<Rightarrow> do {
            let e = s + hole_size;
            el_end \<leftarrow> rd (rl r) e;
            if rlen el_end \<noteq> 0 \<and> lcn el_end < LCN_HOLE then Some (EINVAL, r)
            else if rlen el_end = 0 \<and> vcn el_end < end_vcn then Some (ENOENT, r)
            else if len = 0 then Some (EOK, r)
            else do {
              el \<leftarrow> rd (rl r) s;
              if rlen el = 0 then Some (ENOENT, r)
              else punch_hole io r start_vcn len s e hole_size } } })"

section \<open>What punching does to the runs\<close>































text \<open>A range whose end is not a 64-bit number stops the kernel.\<close>

lemma punch_end_overflow:
  assumes "start < 2 ^ 63" "len < 2 ^ 63" "2 ^ 63 \<le> start + len"
  shows "ntfs_rl_punch_nolock io r start len = None"
proof -
  have "(start + len - 2 ^ 64) mod 2 ^ 64 = (start + len) mod 2 ^ 64" by (rule minus_mod_self2)
  then have "s64 (start + len) = s64 (start + len - 2 ^ 64)"
    unfolding s64_def signed_take_bit_eq_iff_take_bit_eq take_bit_eq_mod by simp
  then have "s64 (start + len) = start + len - 2 ^ 64" using assms by simp
  then show ?thesis using assms by (simp add: ntfs_rl_punch_nolock_def Let_def)
qed

section \<open>Properties of punching\<close>



end
