(* ===== verification/NTFS_Runlist_Merge.thy ===== *)
theory NTFS_Runlist_Merge
  imports NTFS_Runlist
begin

text \<open>
  \<open>ntfs_rl_merge\<close> of \<open>kext/ntfs_runlist.c\<close> and the functions below it, which splice a source
  runlist into a destination runlist: \<open>ntfs_rl_replace\<close>, \<open>ntfs_rl_insert\<close>, \<open>ntfs_rl_append\<close>
  and \<open>ntfs_rl_split\<close>.

  The functions change the source array in place, but only once they cannot fail any more,
  and the source array is freed on success; so they take it as a list and return the
  destination alone. Differences of \<open>unsigned\<close> variables that may be negative are written with
  the wrap-around (\<open>usub\<close>).
\<close>

section \<open>Splicing\<close>

definition ntfs_rl_can_merge :: "ntfs_rl_element \<Rightarrow> ntfs_rl_element \<Rightarrow> bool" where
  "ntfs_rl_can_merge dst src =
     (if lcn dst = LCN_RL_NOT_MAPPED \<and> lcn src = LCN_RL_NOT_MAPPED then True
      else if vcn dst + rlen dst \<noteq> vcn src then False
      else if 0 \<le> lcn dst \<and> 0 \<le> lcn src \<and> lcn dst + rlen dst = lcn src then True
      else lcn dst = LCN_HOLE \<and> lcn src = LCN_HOLE)"

definition rl_join :: "ntfs_rl_element \<Rightarrow> ntfs_rl_element \<Rightarrow> ntfs_rl_element" where
  "rl_join dst src = dst\<lparr>rlen := rlen dst + rlen src\<rparr>"

text \<open>
  Is the left end of \<open>src\<close> to be joined with the element in front of \<open>loc\<close>, and its right end
  with the element behind \<open>loc\<close>?
\<close>

definition merge_left :: "ntfs_rl_element list \<Rightarrow> ntfs_rl_element list \<Rightarrow> nat \<Rightarrow> nat option" where
  "merge_left d_rl src loc =
     (if 0 < loc then do { d \<leftarrow> rd d_rl (loc - 1); s \<leftarrow> rd src 0; Some (of_bool (ntfs_rl_can_merge d s)) }
      else Some 0)"

definition merge_right ::
    "ntfs_rl_element list \<Rightarrow> nat \<Rightarrow> ntfs_rl_element list \<Rightarrow> nat \<Rightarrow> nat \<Rightarrow> nat option" where
  "merge_right d_rl d_elements src s_size loc =
     (if loc + 1 < d_elements then do {
        s \<leftarrow> rd src (s_size - 1); d \<leftarrow> rd d_rl (loc + 1); Some (of_bool (ntfs_rl_can_merge s d)) }
      else Some 0)"

text \<open>
  Each function first finds out how much room it needs and makes it, which may fail, and
  then rearranges the array (\<open>replace_array\<close> and so on), which may not.
\<close>

definition fix_end_marker :: "ntfs_rl_element list \<Rightarrow> nat \<Rightarrow> ntfs_rl_element list option" where
  "fix_end_marker xs marker = do {
     m \<leftarrow> rd xs marker;
     if lcn m = LCN_ENOENT then do {
       p \<leftarrow> rd xs (marker - 1);
       wr xs marker (m\<lparr>vcn := vcn p + rlen p\<rparr>) }
     else Some xs }"

definition replace_array ::
    "ntfs_rl_element list \<Rightarrow> nat \<Rightarrow> ntfs_rl_element list \<Rightarrow> nat \<Rightarrow> nat \<Rightarrow> nat \<Rightarrow> nat \<Rightarrow> ntfs_rl_element list option" where
  "replace_array d_rl d_elements src s_size loc left right = do {
     let marker = loc + s_size - left;
     let tail = loc + 1 + right;
     src \<leftarrow> (if right \<noteq> 0 then do { d \<leftarrow> rd d_rl (loc + 1); upd src (s_size - 1) (\<lambda>s. rl_join s d) }
            else Some src);
     xs \<leftarrow> (if left \<noteq> 0 then do { s \<leftarrow> rd src 0; upd d_rl (loc - 1) (\<lambda>d. rl_join d s) }
           else Some d_rl);
     xs \<leftarrow> move_els xs marker tail (usub d_elements tail);
     xs \<leftarrow> copy_els xs loc src left (s_size - left);
     if 0 < usub d_elements tail then fix_end_marker xs marker else Some xs }"

text \<open>
  \<open>delta\<close> of the C function is a \<open>long\<close> that is assigned an \<open>unsigned\<close> difference: where the
  difference is negative it becomes a number just below \<open>2 ^ 32\<close>, and the addition in
  \<open>ntfs_rl_inc\<close> wraps around to the smaller number of elements.
\<close>

definition ntfs_rl_replace ::
    "rl_alloc \<Rightarrow> ntfs_runlist \<Rightarrow> ntfs_rl_element list \<Rightarrow> nat \<Rightarrow> nat \<Rightarrow> (errno \<times> ntfs_runlist) option" where
  "ntfs_rl_replace io r src s_size loc =
     (if src = [] \<or> s_size = 0 then None
      else do {
        let d_elements = elements r;
        left \<leftarrow> merge_left (rl r) src loc;
        right \<leftarrow> merge_right (rl r) d_elements src s_size loc;
        let delta = usub (s_size - 1) (left + right);
        (err, r) \<leftarrow> (if 0 < delta then ntfs_rl_inc io r delta else Some (EOK, r));
        if err \<noteq> EOK then Some (err, r)
        else do {
          xs \<leftarrow> replace_array (rl r) d_elements src s_size loc left right;
          Some (EOK, r\<lparr>rl := xs\<rparr>) } })"

definition insert_disc :: "ntfs_rl_element list \<Rightarrow> ntfs_rl_element list \<Rightarrow> nat \<Rightarrow> nat \<Rightarrow> nat option" where
  "insert_disc d_rl src loc left = do {
     s \<leftarrow> rd src 0;
     if loc = 0 then Some (of_bool (0 < vcn s))
     else do {
       d \<leftarrow> rd d_rl (loc - 1);
       let merged_length = rlen d + (if left \<noteq> 0 then rlen s else 0);
       Some (of_bool (vcn d + merged_length < vcn s)) } }"

definition insert_fill_gap :: "ntfs_rl_element list \<Rightarrow> nat \<Rightarrow> ntfs_rl_element list option" where
  "insert_fill_gap xs loc = do {
     nx \<leftarrow> rd xs (loc + 1);
     xs \<leftarrow> (if 0 < loc then do {
              p \<leftarrow> rd xs (loc - 1);
              xs \<leftarrow> upd xs loc (\<lambda>e. e\<lparr>vcn := vcn p + rlen p\<rparr>);
              upd xs loc (\<lambda>e. e\<lparr>rlen := vcn nx - vcn e\<rparr>) }
            else upd xs loc (\<lambda>e. e\<lparr>vcn := 0, rlen := vcn nx\<rparr>));
     upd xs loc (\<lambda>e. e\<lparr>lcn := LCN_RL_NOT_MAPPED\<rparr>) }"

text \<open>The first run behind the inserted ones gets their end as its vcn.\<close>

definition insert_adjust :: "ntfs_rl_element list \<Rightarrow> nat \<Rightarrow> ntfs_rl_element list option" where
  "insert_adjust xs marker = do {
     p \<leftarrow> rd xs (marker - 1);
     xs \<leftarrow> upd xs marker (\<lambda>m. m\<lparr>vcn := vcn p + rlen p\<rparr>);
     m \<leftarrow> rd xs marker;
     if lcn m = LCN_HOLE \<or> lcn m = LCN_RL_NOT_MAPPED then do {
       nx \<leftarrow> rd xs (marker + 1);
       wr xs marker (m\<lparr>rlen := vcn nx - vcn m\<rparr>) }
     else Some xs }"

definition insert_array ::
    "ntfs_rl_element list \<Rightarrow> nat \<Rightarrow> ntfs_rl_element list \<Rightarrow> nat \<Rightarrow> nat \<Rightarrow> nat \<Rightarrow> nat \<Rightarrow> ntfs_rl_element list option" where
  "insert_array d_rl d_elements src s_size loc left disc = do {
     xs \<leftarrow> (if left \<noteq> 0 then do { s \<leftarrow> rd src 0; upd d_rl (loc - 1) (\<lambda>d. rl_join d s) }
           else Some d_rl);
     let marker = loc + s_size - left + disc;
     xs \<leftarrow> move_els xs marker loc (usub d_elements loc);
     xs \<leftarrow> copy_els xs (loc + disc) src left (s_size - left);
     xs \<leftarrow> insert_adjust xs marker;
     if disc \<noteq> 0 then insert_fill_gap xs loc else Some xs }"

definition ntfs_rl_insert ::
    "rl_alloc \<Rightarrow> ntfs_runlist \<Rightarrow> ntfs_rl_element list \<Rightarrow> nat \<Rightarrow> nat \<Rightarrow> (errno \<times> ntfs_runlist) option" where
  "ntfs_rl_insert io r src s_size loc =
     (if src = [] \<or> s_size = 0 then None
      else do {
        let d_elements = elements r;
        left \<leftarrow> merge_left (rl r) src loc;
        disc \<leftarrow> insert_disc (rl r) src loc left;
        (err, r) \<leftarrow> ntfs_rl_inc io r (s_size - left + disc);
        if err \<noteq> EOK then Some (err, r)
        else do {
          xs \<leftarrow> insert_array (rl r) d_elements src s_size loc left disc;
          Some (EOK, r\<lparr>rl := xs\<rparr>) } })"

definition append_array ::
    "ntfs_rl_element list \<Rightarrow> nat \<Rightarrow> ntfs_rl_element list \<Rightarrow> nat \<Rightarrow> nat \<Rightarrow> nat \<Rightarrow> ntfs_rl_element list option" where
  "append_array d_rl d_elements src s_size loc right = do {
     src \<leftarrow> (if right \<noteq> 0 then do { d \<leftarrow> rd d_rl (loc + 1); upd src (s_size - 1) (\<lambda>s. rl_join s d) }
            else Some src);
     let marker = loc + s_size + 1;
     xs \<leftarrow> move_els d_rl marker (loc + 1 + right) (usub d_elements (loc + 1 + right));
     xs \<leftarrow> copy_els xs (loc + 1) src 0 s_size;
     nx \<leftarrow> rd xs (loc + 1);
     xs \<leftarrow> upd xs loc (\<lambda>d. d\<lparr>rlen := vcn nx - vcn d\<rparr>);
     fix_end_marker xs marker }"

definition ntfs_rl_append ::
    "rl_alloc \<Rightarrow> ntfs_runlist \<Rightarrow> ntfs_rl_element list \<Rightarrow> nat \<Rightarrow> nat \<Rightarrow> (errno \<times> ntfs_runlist) option" where
  "ntfs_rl_append io r src s_size loc =
     (if src = [] \<or> s_size = 0 then None
      else do {
        let d_elements = elements r;
        right \<leftarrow> merge_right (rl r) d_elements src s_size loc;
        (err, r) \<leftarrow> ntfs_rl_inc io r (s_size - right);
        if err \<noteq> EOK then Some (err, r)
        else do {
          xs \<leftarrow> append_array (rl r) d_elements src s_size loc right;
          Some (EOK, r\<lparr>rl := xs\<rparr>) } })"

definition split_array :: "ntfs_rl_element list \<Rightarrow> ntfs_rl_element list \<Rightarrow> nat \<Rightarrow> nat \<Rightarrow> ntfs_rl_element list option" where
  "split_array d_rl src s_size loc = do {
     xs \<leftarrow> copy_els d_rl (loc + 1) src 0 s_size;
     nx \<leftarrow> rd xs (loc + 1);
     xs \<leftarrow> upd xs loc (\<lambda>d. d\<lparr>rlen := vcn nx - vcn d\<rparr>);
     d \<leftarrow> rd xs loc;
     xs \<leftarrow> upd xs (loc + s_size + 1) (\<lambda>e. e\<lparr>lcn := lcn d\<rparr>);
     let loc = loc + s_size;
     l \<leftarrow> rd xs loc;
     xs \<leftarrow> upd xs (loc + 1) (\<lambda>e. e\<lparr>vcn := vcn l + rlen l\<rparr>);
     let loc = loc + 1;
     nx \<leftarrow> rd xs (loc + 1);
     upd xs loc (\<lambda>e. e\<lparr>rlen := vcn nx - vcn e\<rparr>) }"

definition ntfs_rl_split ::
    "rl_alloc \<Rightarrow> ntfs_runlist \<Rightarrow> ntfs_rl_element list \<Rightarrow> nat \<Rightarrow> nat \<Rightarrow> (errno \<times> ntfs_runlist) option" where
  "ntfs_rl_split io r src s_size loc =
     (if src = [] \<or> s_size = 0 then None
      else do {
        (err, r) \<leftarrow> ntfs_rl_ins io r (loc + 1) (s_size + 1);
        if err \<noteq> EOK then Some (err, r)
        else do {
          xs \<leftarrow> split_array (rl r) src s_size loc;
          Some (EOK, r\<lparr>rl := xs\<rparr>) } })"

section \<open>Merging two runlists\<close>

text \<open>The first element of the source that is mapped or a hole, and the last one.\<close>

fun merge_src_start :: "ntfs_rl_element list \<Rightarrow> nat option" where
  "merge_src_start [] = None"
| "merge_src_start (e # es) =
     (if rlen e \<noteq> 0 \<and> lcn e < LCN_HOLE then map_option Suc (merge_src_start es) else Some 0)"

fun merge_final :: "ntfs_rl_element list \<Rightarrow> nat \<Rightarrow> nat option" where
  "merge_final xs 0 = Some 0"
| "merge_final xs (Suc i) = do {
     e \<leftarrow> rd xs (Suc i);
     if LCN_HOLE \<le> lcn e then Some (Suc i) else merge_final xs i }"

text \<open>The first mapping of a runlist: the source becomes the destination.\<close>

definition merge_first :: "rl_alloc \<Rightarrow> ntfs_runlist \<Rightarrow> ntfs_runlist \<Rightarrow> (errno \<times> ntfs_runlist) option" where
  "merge_first io dst src = do {
     s0 \<leftarrow> rd (rl src) 0;
     if vcn s0 \<noteq> 0 then do {
       (err, src) \<leftarrow> ntfs_rl_ins io src 0 1;
       if err \<noteq> EOK then Some (err, dst)
       else do {
         nx \<leftarrow> rd (rl src) 1;
         xs \<leftarrow> upd (rl src) 0 (\<lambda>e. e\<lparr>vcn := 0, lcn := LCN_RL_NOT_MAPPED, rlen := vcn nx\<rparr>);
         Some (EOK, src\<lparr>rl := xs\<rparr>) } }
     else Some (EOK, src) }"

text \<open>The end of attribute marker of a source that ends behind the destination.\<close>

definition merge_marker :: "rl_alloc \<Rightarrow> ntfs_runlist \<Rightarrow> int \<Rightarrow> (errno \<times> ntfs_runlist) option" where
  "merge_marker io r marker_vcn = do {
     let di = elements r - 1;
     d \<leftarrow> rd (rl r) di;
     if marker_vcn < vcn d then Some (EOK, r)
     else if vcn d = marker_vcn then do {
       xs \<leftarrow> wr (rl r) di (d\<lparr>lcn := LCN_ENOENT\<rparr>);
       Some (EOK, r\<lparr>rl := xs\<rparr>) }
     else if lcn d = LCN_ENOENT \<and> di = 0 then None
     else do {
       let (di, slots) = (if lcn d = LCN_ENOENT then (di - 1, 1) else (di, 0 :: nat));
       d \<leftarrow> rd (rl r) di;
       (r, di, slots) \<leftarrow>
         (if lcn d \<noteq> LCN_RL_NOT_MAPPED then do {
            (r, slots) \<leftarrow>
              (if slots = 0 then do {
                 (err, r) \<leftarrow> ntfs_rl_inc io r 2;
                 if err \<noteq> EOK then None
                 else do {
                   xs \<leftarrow> upd (rl r) (di + 1) (\<lambda>e. e\<lparr>vcn := vcn d + rlen d\<rparr>);
                   Some (r\<lparr>rl := xs\<rparr>, 2) } }
               else Some (r, slots));
            xs \<leftarrow> upd (rl r) (di + 1) (\<lambda>e. e\<lparr>lcn := LCN_RL_NOT_MAPPED\<rparr>);
            Some (r\<lparr>rl := xs\<rparr>, di + 1, slots - 1) }
          else Some (r, di, slots));
       xs \<leftarrow> upd (rl r) di (\<lambda>e. e\<lparr>rlen := marker_vcn - vcn e\<rparr>);
       let r = r\<lparr>rl := xs\<rparr>;
       let di = di + 1;
       (err, r) \<leftarrow> (if slots = 0 then ntfs_rl_inc io r 1 else Some (EOK, r));
       if err \<noteq> EOK then None
       else do {
         xs \<leftarrow> upd (rl r) di (\<lambda>e. e\<lparr>vcn := marker_vcn, lcn := LCN_ENOENT, rlen := 0\<rparr>);
         Some (EOK, r\<lparr>rl := xs\<rparr>) } } }"

text \<open>Which of the four ways to splice applies: \<open>start\<close> and \<open>finish\<close> as in the C function.\<close>

definition merge_splice ::
    "rl_alloc \<Rightarrow> ntfs_runlist \<Rightarrow> bool \<Rightarrow> bool \<Rightarrow> ntfs_rl_element list \<Rightarrow> nat \<Rightarrow> nat \<Rightarrow> (errno \<times> ntfs_runlist) option" where
  "merge_splice io dst start finish src ss d_ins =
     (if start then
        (if finish then ntfs_rl_replace io dst src ss d_ins else ntfs_rl_insert io dst src ss d_ins)
      else if finish then ntfs_rl_append io dst src ss d_ins
      else ntfs_rl_split io dst src ss d_ins)"

text \<open>The loop for \<open>d_final\<close>, whose result the C function only prints, is left out.\<close>

definition ntfs_rl_merge :: "rl_alloc \<Rightarrow> ntfs_runlist \<Rightarrow> ntfs_runlist \<Rightarrow> (errno \<times> ntfs_runlist) option" where
  "ntfs_rl_merge io dst src =
     (if elements src = 0 then Some (EOK, dst)
      else if elements dst = 0 then merge_first io dst src
      else do {
        let s_rl = rl src;
        let s_elements = elements src;
        s_start \<leftarrow> merge_src_start s_rl;
        s \<leftarrow> rd s_rl s_start;
        if rlen s = 0 then None
        else do {
          d_ins \<leftarrow> rl_skip (rl dst) (vcn s);
          d \<leftarrow> rd (rl dst) d_ins;
          if vcn d = vcn s \<and> 0 \<le> lcn d \<and> 0 \<le> lcn s then Some (ERANGE, dst)
          else do {
            s_final \<leftarrow> merge_final s_rl (s_elements - 1);
            s_last \<leftarrow> rd s_rl (s_elements - 1);
            let start = (lcn d < LCN_RL_NOT_MAPPED \<or> vcn d = vcn s);
            let finish = (LCN_RL_NOT_MAPPED \<le> lcn d \<and> vcn d + rlen d \<le> vcn s_last);
            let ss = uwrap (usub s_final s_start + 1) + of_bool (finish \<and> rlen d = 0);
            finish \<leftarrow>
              (if lcn s_last = LCN_ENOENT then do {
                 s' \<leftarrow> rd s_rl (usub s_elements 2);
                 Some (finish \<and> vcn d + rlen d \<le> vcn s') }
               else Some finish);
            (err, r) \<leftarrow> merge_splice io dst start finish (drop s_start s_rl) ss d_ins;
            if err \<noteq> EOK then Some (err, r)
            else if lcn s_last = LCN_ENOENT \<and> 0 < s_elements - 1 then merge_marker io r (vcn s_last)
            else Some (EOK, r) } } })"

section \<open>What merging does to the runs\<close>

text \<open>
  The contract: between \<open>a\<close> and \<open>b\<close> the runlist maps what \<open>f\<close> says, elsewhere what it did. A runlist
  without two unmapped runs in a row does not get any.
\<close>

definition rl_tight :: "ntfs_rl_element list \<Rightarrow> bool" where
  "rl_tight es \<longleftrightarrow> successively (\<lambda>x y. lcn x \<noteq> LCN_RL_NOT_MAPPED \<or> lcn y \<noteq> LCN_RL_NOT_MAPPED) es"

definition spliced :: "ntfs_rl_element list \<Rightarrow> int \<Rightarrow> int \<Rightarrow> (int \<Rightarrow> int) \<Rightarrow> ntfs_rl_element list \<Rightarrow> bool" where
  "spliced es a b f es' \<longleftrightarrow> rl_wf es' \<and> (rl_tight es \<longrightarrow> rl_tight es') \<and>
     (\<forall>v. 0 \<le> v \<longrightarrow> rl_lookup es' v = (if a \<le> v \<and> v < b then f v else rl_lookup es v))"

text \<open>Two runlists that map the same.\<close>

definition rl_eqv :: "ntfs_rl_element list \<Rightarrow> ntfs_rl_element list \<Rightarrow> bool" where
  "rl_eqv es es' \<longleftrightarrow> (rl_wf es \<longrightarrow> rl_wf es' \<and> (rl_tight es \<longrightarrow> rl_tight es') \<and> (\<forall>v. 0 \<le> v \<longrightarrow> rl_lookup es' v = rl_lookup es v))"

lemma rl_eqv_refl: "rl_eqv es es"
  by (simp add: rl_eqv_def)

lemma rl_eqv_trans: "rl_eqv es es' \<Longrightarrow> rl_eqv es' es'' \<Longrightarrow> rl_eqv es es''"
  by (simp add: rl_eqv_def)

lemma spliced_eqv: "spliced es a b f es' \<Longrightarrow> rl_eqv es' es'' \<Longrightarrow> spliced es a b f es''"
  by (simp add: spliced_def rl_eqv_def)

lemma rl_join_eqv:
  assumes "ntfs_rl_can_merge x y" "LCN_HOLE \<le> lcn x \<or> LCN_HOLE \<le> lcn y"
  shows "rl_eqv (xs @ x # y # ys) (xs @ rl_join x y # ys)"
  unfolding rl_eqv_def
proof (intro impI)
  assume wf: "rl_wf (xs @ x # y # ys)"
  have hole: "LCN_HOLE \<le> lcn x" "LCN_HOLE \<le> lcn y" using assms by (auto simp: ntfs_rl_can_merge_def split: if_splits)
  obtain q where q: "rl_chain 0 xs q" "rl_from q (x # y # ys)" using rl_wf_split [OF wf] by auto
  have ys: "ys \<noteq> []" using q(2) hole(2) by (auto simp: rl_from_Cons rl_term_def split: if_splits)
  then have e: "vcn x = q" "0 < rlen x" "vcn y = q + rlen x" "0 < rlen y" "rl_from (q + rlen x + rlen y) ys"
    using q(2) by (auto simp: rl_from_Cons)
  have "rl_wf (xs @ rl_join x y # ys)"
    using q(1) e hole ys by (simp add: rl_wf_from rl_from_append rl_from_Cons rl_join_def add.assoc)
  moreover have "rl_lookup (xs @ rl_join x y # ys) v = rl_lookup (xs @ x # y # ys) v" if "0 \<le> v" for v
    using that e hole assms ys
    by (auto simp: rl_lookup_append [OF q(1)] rl_lookup_Cons rl_join_def run_lcn_def ntfs_rl_can_merge_def split: if_splits)
  moreover have "rl_tight (xs @ rl_join x y # ys)"  if "rl_tight (xs @ x # y # ys)"
    using that hole by (auto simp: rl_tight_def successively_append_iff successively_Cons rl_join_def)
  ultimately show "rl_wf (xs @ rl_join x y # ys) \<and> (rl_tight (xs @ x # y # ys) \<longrightarrow> rl_tight (xs @ rl_join x y # ys)) \<and>
      (\<forall>v. 0 \<le> v \<longrightarrow> rl_lookup (xs @ rl_join x y # ys) v = rl_lookup (xs @ x # y # ys) v)"
    by blast
qed

text \<open>The runs \<open>runs\<close> in place of the part from \<open>a\<close> to \<open>b\<close> of the hole or unmapped run \<open>d\<close>.\<close>

definition hole_front :: "ntfs_rl_element \<Rightarrow> int \<Rightarrow> ntfs_rl_element list" where
  "hole_front d a = (if a = vcn d then [] else [rl_front d a])"

definition hole_back :: "ntfs_rl_element \<Rightarrow> int \<Rightarrow> ntfs_rl_element list" where
  "hole_back d b = (if b = vcn d + rlen d then [] else [rl_cut d b])"

lemma successively_gap:
  assumes "successively (\<lambda>x y. \<not> U x \<or> \<not> U y) (pre @ d # post)" "\<forall>e \<in> set runs. \<not> U e" "runs \<noteq> []"
    and "f = [] \<or> f = [x] \<and> U x = U d" "g = [] \<or> g = [y] \<and> U y = U d"
  shows "successively (\<lambda>x y. \<not> U x \<or> \<not> U y) (pre @ f @ runs @ g @ post)"
proof -
  have "successively (\<lambda>x y. \<not> U x \<or> \<not> U y) runs"
    using assms(2) by (induction runs rule: induct_list012) auto
  moreover have "\<not> U (hd runs)" "\<not> U (last runs)" using assms(2,3) by simp_all
  ultimately show ?thesis using assms(1,3-5)
    by (cases pre rule: rev_cases; cases post; elim disjE)
      (simp_all add: successively_append_iff successively_Cons)
qed

lemma rl_tight_runs:
  assumes "rl_tight (pre @ d # post)" "\<forall>e \<in> set runs. LCN_HOLE \<le> lcn e" "runs \<noteq> []"
    and "f = [] \<or> f = [x] \<and> lcn x = lcn d" "g = [] \<or> g = [y] \<and> lcn y = lcn d"
  shows "rl_tight (pre @ f @ runs @ g @ post)"
  unfolding rl_tight_def
  by (rule successively_gap [OF assms(1) [unfolded rl_tight_def] _ assms(3), where x = x and y = y]) (use assms(2,4,5) in auto)

lemma spliced_in_hole:
  assumes wf: "rl_wf (pre @ d # post)" and d: "rlen d \<noteq> 0" "lcn d < 0"
    and runs: "rl_chain a runs b" "vcn d \<le> a" "b \<le> vcn d + rlen d" "a < b" "\<forall>e \<in> set runs. LCN_HOLE \<le> lcn e"
  shows "spliced (pre @ d # post) a b (\<lambda>v. the (rl_map runs v)) (pre @ hole_front d a @ runs @ hole_back d b @ post)"
proof -
  obtain q where q: "rl_chain 0 pre q" "rl_from q (d # post)" using rl_wf_split [OF wf] by auto
  then have post: "post \<noteq> []" "vcn d = q" "LCN_RL_NOT_MAPPED \<le> lcn d" "rl_from (q + rlen d) post"
    using d(1) by (auto simp: rl_from_Cons rl_term_def split: if_splits)
  have F: "rl_chain q (hole_front d a) a" using runs(2) post by (auto simp: hole_front_def)
  have G: "rl_chain b (hole_back d b) (q + rlen d)" using runs(3) d post by (auto simp: hole_back_def rl_cut_def)
  have b: "rl_from b (hole_back d b @ post)" using G post(1,4) by (simp add: rl_from_append)
  then have a: "rl_from a (runs @ hole_back d b @ post)" using runs(1) post(1) by (simp add: rl_from_append)
  then have all: "rl_from q (hole_front d a @ runs @ hole_back d b @ post)" using F post(1) by (simp add: rl_from_append)
  have "rl_wf (pre @ hole_front d a @ runs @ hole_back d b @ post)"
    using q(1) all post(1) by (simp add: rl_wf_from rl_from_append)
  moreover have "rl_lookup (pre @ hole_front d a @ runs @ hole_back d b @ post) v =
      (if a \<le> v \<and> v < b then the (rl_map runs v) else rl_lookup (pre @ d # post) v)" if v: "0 \<le> v" for v
  proof -
    have "rl_lookup (hole_front d a @ runs @ hole_back d b @ post) v =
        (if v < a then lcn d else if v < b then the (rl_map runs v) else if v < q + rlen d then lcn d else rl_lookup post v)"
      if "q \<le> v"
      using that post(1,2) d runs by (simp add: rl_lookup_append [OF F] rl_lookup_append [OF runs(1)] rl_lookup_append [OF G])
        (auto simp: hole_front_def hole_back_def rl_cut_def run_lcn_def)
    then show ?thesis using v post(1,2) d runs
      by (auto simp: rl_lookup_append [OF q(1)] rl_lookup_Cons run_lcn_def)
  qed
  moreover have "rl_tight (pre @ hole_front d a @ runs @ hole_back d b @ post)" if "rl_tight (pre @ d # post)"
    by (rule rl_tight_runs [OF that runs(5), where x = "rl_front d a" and y = "rl_cut d b"])
      (use runs(1,4) d(2) in \<open>auto simp: hole_front_def hole_back_def rl_cut_def\<close>)
  ultimately show ?thesis by (simp add: spliced_def)
qed

text \<open>Joining the ends of \<open>src\<close> with the neighbours, where the code does so.\<close>

definition joins_left :: "ntfs_rl_element list \<Rightarrow> ntfs_rl_element list \<Rightarrow> bool" where
  "joins_left pre src \<longleftrightarrow> pre \<noteq> [] \<and> ntfs_rl_can_merge (last pre) (hd src)"

definition joins_right :: "ntfs_rl_element list \<Rightarrow> ntfs_rl_element list \<Rightarrow> bool" where
  "joins_right src post \<longleftrightarrow> post \<noteq> [] \<and> ntfs_rl_can_merge (last src) (hd post)"

definition left_pre :: "ntfs_rl_element list \<Rightarrow> ntfs_rl_element list \<Rightarrow> ntfs_rl_element list" where
  "left_pre pre src = (if joins_left pre src then butlast pre @ [rl_join (last pre) (hd src)] else pre)"

definition right_src :: "ntfs_rl_element list \<Rightarrow> ntfs_rl_element list \<Rightarrow> ntfs_rl_element list" where
  "right_src src post = (if joins_right src post then butlast src @ [rl_join (last src) (hd post)] else src)"

abbreviation left_src :: "ntfs_rl_element list \<Rightarrow> ntfs_rl_element list \<Rightarrow> ntfs_rl_element list" where
  "left_src pre src \<equiv> drop (of_bool (joins_left pre src)) src"

abbreviation right_post :: "ntfs_rl_element list \<Rightarrow> ntfs_rl_element list \<Rightarrow> ntfs_rl_element list" where
  "right_post src post \<equiv> drop (of_bool (joins_right src post)) post"

lemma length_left_pre [simp]: "length (left_pre pre src) = length pre"
  by (cases pre rule: rev_cases) (auto simp: left_pre_def joins_left_def)

lemma length_right_src [simp]: "src \<noteq> [] \<Longrightarrow> length (right_src src post) = length src"
  by (cases src rule: rev_cases) (auto simp: right_src_def)

lemma join_left_eqv:
  assumes "src \<noteq> []" "LCN_HOLE \<le> lcn (hd src)"
  shows "rl_eqv (pre @ src @ post) (left_pre pre src @ left_src pre src @ post)"
proof (cases "joins_left pre src")
  case True
  obtain s ss where s: "src = s # ss" using assms(1) by (cases src) auto
  obtain pre' x where x: "pre = pre' @ [x]" using True by (cases pre rule: rev_cases) (auto simp: joins_left_def)
  show ?thesis using rl_join_eqv [of x s pre' "ss @ post"] True assms(2) by (simp add: left_pre_def s x joins_left_def)
qed (simp add: left_pre_def rl_eqv_refl)

lemma join_right_eqv:
  assumes "src \<noteq> []" "LCN_HOLE \<le> lcn (last src)"
  shows "rl_eqv (pre @ src @ post) (pre @ right_src src post @ right_post src post)"
proof (cases "joins_right src post")
  case True
  obtain ss s where s: "src = ss @ [s]" using assms(1) by (cases src rule: rev_cases) auto
  obtain x post' where x: "post = x # post'" using True by (cases post) (auto simp: joins_right_def)
  show ?thesis using rl_join_eqv [of s x "pre @ ss" post'] True assms(2) by (simp add: right_src_def s x joins_right_def)
qed (simp add: right_src_def rl_eqv_refl)

lemma rl_join_simps [simp]: "vcn (rl_join s d) = vcn s" "lcn (rl_join s d) = lcn s" "rlen (rl_join s d) = rlen s + rlen d"
  by (simp_all add: rl_join_def)

lemma can_merge_join_right: "ntfs_rl_can_merge p (rl_join s d) = ntfs_rl_can_merge p s"
  by (simp add: ntfs_rl_can_merge_def rl_join_def)

lemma hd_right_src:
  assumes "src \<noteq> []"
  shows "hd (right_src src post) = hd src \<or> hd (right_src src post) = rl_join (hd src) (hd post)"
proof -
  obtain ss s where "src = ss @ [s]" using assms by (cases src rule: rev_cases) auto
  then show ?thesis by (cases ss) (simp_all add: right_src_def)
qed

lemma joins_left_right_src:
  assumes "src \<noteq> []"
  shows "joins_left pre (right_src src post) = joins_left pre src" "lcn (hd (right_src src post)) = lcn (hd src)"
  using hd_right_src [OF assms, of post] by (auto simp: joins_left_def can_merge_join_right)

text \<open>
  The array step all four functions share: the tail \<open>c\<close> is moved to its new place, and the
  source copied in front of it.
\<close>

lemma move_copy:
  assumes arr: "xs = a @ b @ c @ g" and "loc = length a" "tail = loc + length b" "n = length c"
    and src: "src = s0 @ s @ s1" "left = length s0" "m = length s" "marker = loc + m"
    and room: "length a + length s + length c \<le> length xs"
  obtains ys rest where "move_els xs marker tail n = Some ys" "copy_els ys loc src left m = Some (a @ s @ c @ rest)"
    "length (a @ s @ c @ rest) = length xs"
proof -
  have lxs: "length xs = length a + length b + length c + length g" by (simp add: arr)
  have pick: "take n (drop tail xs) = c" "take loc xs = a" using assms(2-4) by (simp_all add: arr)
  have pick_src: "take m (drop left src) = s" using src by simp
  define ys where "ys = (if n = 0 then xs else take marker xs @ c @ drop (marker + n) xs)"
  have bound: "marker + n \<le> length xs" "tail + n \<le> length xs" "left + m \<le> length src" "loc + m = marker"
    using room lxs assms(2-4) src by simp_all
  have mv: "move_els xs marker tail n = Some ys"
    using bound pick(1) by (simp add: move_els_def copy_els_def ys_def)
  have len: "length ys = length xs" using bound assms(4) by (simp add: ys_def)
  have c: "n = 0 \<Longrightarrow> c = []" using assms(4) by simp
  have lm: "length (take marker xs) = marker" using bound by simp
  have tl: "drop marker ys = c @ drop (marker + n) ys" using c lm assms(4) by (simp add: ys_def)
  have "loc \<le> marker" using bound(4) by simp
  then have hd: "take loc ys = a" using pick(2) lm by (simp add: ys_def take_append min_def)
  have "m = 0 \<Longrightarrow> ys = a @ s @ drop marker ys" using bound(4) hd append_take_drop_id [of marker ys] src(3) by simp
  then have "copy_els ys loc src left m = Some (a @ s @ c @ drop (marker + n) ys)"
    using bound len hd pick_src tl by (simp add: copy_els_def)
  moreover have "length (a @ s @ c @ drop (marker + n) ys) = length xs"
    using len bound assms(2,4) src by simp
  ultimately show thesis using mv that by blast
qed

section \<open>The splicing functions\<close>

lemma merge_left_eq:
  assumes "src \<noteq> []"
  shows "merge_left (pre @ ys) (src @ s1) (length pre) = Some (of_bool (joins_left pre src))"
  using assms by (cases pre rule: rev_cases; cases src) (auto simp: merge_left_def joins_left_def rd_def nth_append)

lemma merge_right_eq:
  assumes "src \<noteq> []" "n = length pre + Suc (length post)" "loc = length pre"
  shows "merge_right (pre @ d # post @ g) n (src @ s1) (length src) loc = Some (of_bool (joins_right src post))"
  using assms by (cases src rule: rev_cases; cases post) (auto simp: merge_right_def joins_right_def rd_def nth_append)

lemma replace_grow:
  assumes io: "alloc_ok io" "rl_arr_ok r" and s: "0 < s" "s \<le> rl_max" and k: "k \<le> 2" "k < elements r"
  obtains (nomem) "(if 0 < usub (s - 1) k then ntfs_rl_inc io r (usub (s - 1) k) else Some (EOK, r)) = Some (ENOMEM, r)"
  | (grown) r' g where "(if 0 < usub (s - 1) k then ntfs_rl_inc io r (usub (s - 1) k) else Some (EOK, r)) = Some (EOK, r')"
      "rl r' = els r @ g" "elements r' = elements r + s - 1 - k" "s \<le> Suc (length g + k)" "rl_arr_ok r'" "rl_mem_ok r \<longrightarrow> rl_mem_ok r'"
proof -
  note M = rl_arr_okD [OF io(2)]
  have whole: "rl r = els r @ drop (elements r) (rl r)" by simp
  consider (more) "k < s - 1" | (same) "k = s - 1" | (less) "s - 1 < k" by linarith
  then show thesis
  proof cases
    case more
    have u: "usub (s - 1) k = s - 1 - k" using more s(2) by (intro usub_le) auto
    have "s - 1 - k \<le> rl_max" using s(2) by simp
    from io this show thesis
    proof (cases rule: rl_inc_cases)
      case nomem
      then show thesis using more by (intro that(1), unfold u) simp
    next
      case (grown r' g)
      then show thesis using more rl_mem_arr [of r'] by (intro that(2) [of r' g], unfold u) simp_all
    qed
  next
    case same
    have "usub (s - 1) k = 0" using same k(1) by (simp add: usub_le)
    then show thesis using same whole io(2) k(2) s(1) by (intro that(2) [of r "drop (elements r) (rl r)"]) simp_all
  next
    case less
    have u: "usub (s - 1) k = 2 ^ 32 - (k - (s - 1))" using less k(1) by (intro usub_gt) auto
    obtain m where m: "m = elements r + s - 1 - k" "m \<le> elements r" "elements r + (2 ^ 32 - (k - (s - 1))) = 2 ^ 32 + m"
    proof
      show "elements r + (2 ^ 32 - (k - (s - 1))) = 2 ^ 32 + (elements r - (k - (s - 1)))" using less k by simp
    qed (use less s(1) k(2) in simp_all)
    have "m < 2 ^ 32" using m(2) M(4) by simp
    then have w: "uwrap (elements r + usub (s - 1) k) = m" unfolding u m(3) by (simp add: uwrap_def)
    have pos: "0 < usub (s - 1) k" unfolding u using less k(1) by simp
    let ?c = "rl_new_count m"
    have inc: "ntfs_rl_inc io r (usub (s - 1) k) = x \<Longrightarrow>
        (if 0 < usub (s - 1) k then ntfs_rl_inc io r (usub (s - 1) k) else Some (EOK, r)) = x" for x
      using pos by simp
    show thesis
    proof (cases "alloc_count r < ?c")
      case grow: True
      show thesis
      proof (cases "io ?c")
        case None
        have "ntfs_rl_inc io r (usub (s - 1) k) = Some (ENOMEM, r)"
          unfolding ntfs_rl_inc_def w Let_def using grow None by simp
        then show thesis by (intro that(1) inc)
      next
        case (Some b)
        let ?r = "r\<lparr>rl := els r @ drop (elements r) b, alloc_count := ?c, elements := m\<rparr>"
        have b: "length b = ?c" "?c \<le> rl_max" using Some io(1) by (auto simp: alloc_ok_def)
        have "copy_els b 0 (rl r) 0 (elements r) = Some (els r @ drop (elements r) b)"
          using b grow M by (intro copy_els_prefix) auto
        then have "ntfs_rl_inc io r (usub (s - 1) k) = Some (EOK, ?r)"
          unfolding ntfs_rl_inc_def w Let_def using grow Some by simp
        moreover have "\<not> rl_mem_ok r" using rl_new_count_mono [OF m(2)] grow M(4) by (simp add: rl_mem_ok_def)
        moreover have "rl_arr_ok ?r" using b grow M m(2) unfolding rl_arr_ok_def by simp
        ultimately show thesis
          by (intro that(2) [of ?r "drop (elements r) b"] inc) (use m(1) less in simp_all)
      qed
    next
      case False
      have "ntfs_rl_inc io r (usub (s - 1) k) = Some (EOK, r\<lparr>elements := m\<rparr>)"
        unfolding ntfs_rl_inc_def w Let_def using False by simp
      moreover have "s \<le> Suc (length (drop (elements r) (rl r)) + k)" using less by linarith
      ultimately show thesis
        by (intro that(2) [of "r\<lparr>elements := m\<rparr>" "drop (elements r) (rl r)"] inc)
          (use m(1,2) False io(2) in \<open>simp_all add: rl_arr_ok_def rl_mem_ok_def\<close>)
    qed
  qed
qed

definition splice_outcome :: "ntfs_runlist \<Rightarrow> ntfs_rl_element list \<Rightarrow> (errno \<times> ntfs_runlist) option \<Rightarrow> bool" where
  "splice_outcome r new x \<longleftrightarrow> x = Some (ENOMEM, r) \<or> (\<exists>r'. x = Some (EOK, r') \<and> rl_arr_ok r' \<and> (rl_mem_ok r \<longrightarrow> rl_mem_ok r') \<and> els r' = new)"

lemma splice_outcomeI:
  assumes "x = Some (EOK, r1\<lparr>rl := new @ rest\<rparr>)" "rl_mem_ok (r1\<lparr>rl := new @ rest\<rparr>)" "length new = elements r1"
  shows "splice_outcome r new x"
  using assms rl_mem_arr [OF assms(2)] by (simp add: splice_outcome_def)

text \<open>The element at the marker starts where the one in front of it ends, so fixing it changes nothing.\<close>

lemma marker_fix:
  assumes "rl_wf (xs @ m # ys)" "xs \<noteq> []"
  shows "m\<lparr>vcn := vcn (last xs) + rlen (last xs)\<rparr> = m"
proof -
  obtain xs' p where p: "xs = xs' @ [p]" using assms(2) by (cases xs rule: rev_cases) auto
  obtain q where "rl_from q (p # m # ys)" using rl_wf_split [of xs' "p # m # ys"] assms(1) p by auto
  then have "vcn m = vcn p + rlen p" by (simp add: rl_from_Cons)
  then show ?thesis by (simp add: p)
qed

lemma joins_left_le: "of_bool (joins_left pre src) \<le> length pre" "of_bool (joins_left pre src) \<le> (1 :: nat)"
  by (cases pre; simp add: joins_left_def)+

lemma joins_right_le: "of_bool (joins_right src post) \<le> length post" "of_bool (joins_right src post) \<le> (1 :: nat)"
  by (cases post; simp add: joins_right_def)+

text \<open>Joining the two ends in memory.\<close>

lemma join_right_mem:
  assumes "src \<noteq> []" "loc = length pre"
  shows "(if of_bool (joins_right src post) \<noteq> (0 :: nat)
      then do { d \<leftarrow> rd (pre @ d # post @ g) (loc + 1); upd (src @ s1) (length src - 1) (\<lambda>s. rl_join s d) }
      else Some (src @ s1)) = Some (right_src src post @ s1)"
proof (cases "joins_right src post")
  case True
  obtain ss s where s: "src = ss @ [s]" using assms(1) by (cases src rule: rev_cases) auto
  obtain x post' where "post = x # post'" using True by (cases post) (auto simp: joins_right_def)
  then show ?thesis using True assms(2) by (simp add: s right_src_def arr_simps)
qed (simp add: right_src_def)

lemma join_left_mem:
  assumes "src \<noteq> []" "loc = length pre"
  shows "(if of_bool (joins_left pre src) \<noteq> (0 :: nat)
      then do { s \<leftarrow> rd (src @ s1) 0; upd (pre @ ys) (loc - 1) (\<lambda>d. rl_join d s) }
      else Some (pre @ ys)) = Some (left_pre pre src @ ys)"
proof (cases "joins_left pre src")
  case True
  obtain s ss where s: "src = s # ss" using assms(1) by (cases src) auto
  obtain pre' x where "pre = pre' @ [x]" using True by (cases pre rule: rev_cases) (auto simp: joins_left_def)
  then show ?thesis using True assms(2) by (simp add: s left_pre_def arr_simps)
qed (simp add: left_pre_def)

lemma fix_end_marker_wf:
  assumes "rl_wf (xs @ ys)" "ys \<noteq> []" "xs \<noteq> []" "marker = length xs"
  shows "fix_end_marker (xs @ ys @ rest) marker = Some (xs @ ys @ rest)"
proof -
  obtain m ys' where m: "ys = m # ys'" using assms(2) by (cases ys) auto
  obtain xs' p where p: "xs = xs' @ [p]" using assms(3) by (cases xs rule: rev_cases) auto
  have "m\<lparr>vcn := vcn p + rlen p\<rparr> = m" using marker_fix [of xs m ys'] assms by (simp add: m p)
  then show ?thesis by (simp add: fix_end_marker_def m p assms(4) arr_simps)
qed

lemma replace_array_eq:
  assumes arr: "d_rl = pre @ d # post @ g" "n = length pre + Suc (length post)" "n \<le> rl_max" and src: "src = runs @ s1" "runs \<noteq> []"
    and room: "length runs \<le> Suc (length g + of_bool (joins_left pre runs) + of_bool (joins_right runs post))"
    and wf: "rl_wf (left_pre pre (right_src runs post) @ left_src pre (right_src runs post) @ right_post runs post)" (is "rl_wf ?new")
  obtains rest where "replace_array d_rl n src (length runs) (length pre) (of_bool (joins_left pre runs)) (of_bool (joins_right runs post)) = Some (?new @ rest)"
    "length (?new @ rest) = length d_rl"
proof -
  define s' where "s' = right_src runs post"
  define l where "l = (of_bool (joins_left pre runs) :: nat)"
  define k where "k = (of_bool (joins_right runs post) :: nat)"
  have s': "length s' = length runs" "joins_left pre s' = joins_left pre runs"
    using src(2) joins_left_right_src [OF src(2)] by (simp_all add: s'_def)
  then have ne: "s' \<noteq> []" using src(2) by auto
  have s: "0 < length runs" using src(2) by simp
  have le: "l \<le> 1" "l \<le> length pre" "k \<le> 1" "k \<le> length post" "l \<le> length runs"
    using joins_left_le [of pre runs] joins_right_le [of runs post] s unfolding l_def k_def by linarith+
  have u: "usub n (length pre + 1 + k) = length post - k" using le arr(2,3) by (simp add: usub_le)
  obtain ys rest where mc:
    "move_els (left_pre pre s' @ d # post @ g) (length pre + length runs - l) (length pre + 1 + k) (length post - k) = Some ys"
    "copy_els ys (length pre) (s' @ s1) l (length runs - l) = Some (left_pre pre s' @ drop l s' @ drop k post @ rest)"
    "length (left_pre pre s' @ drop l s' @ drop k post @ rest) = length (left_pre pre s' @ d # post @ g)"
  proof (rule move_copy [of "left_pre pre s' @ d # post @ g" "left_pre pre s'" "d # take k post" "drop k post" g
      "length pre" "length pre + 1 + k" "length post - k" "s' @ s1" "take l s'" "drop l s'" s1 l
      "length runs - l" "length pre + length runs - l"])
    show "length (left_pre pre s') + length (drop l s') + length (drop k post) \<le> length (left_pre pre s' @ d # post @ g)"
      using room s'(1) le by (simp add: l_def k_def)
  qed (use s'(1) le in simp_all)
  have new: "?new = (left_pre pre s' @ drop l s') @ drop k post" by (simp add: s'_def l_def k_def joins_left_right_src [OF src(2)])
  have len: "length (left_pre pre s' @ drop l s') = length pre + length runs - l" using s'(1) le by simp
  have fm: "(if 0 < length post - k then fix_end_marker (left_pre pre s' @ drop l s' @ drop k post @ rest) (length pre + length runs - l)
      else Some (left_pre pre s' @ drop l s' @ drop k post @ rest)) = Some (left_pre pre s' @ drop l s' @ drop k post @ rest)"
  proof (cases "0 < length post - k")
    case True
    have "0 < length (left_pre pre s' @ drop l s')" unfolding len using le s by linarith
    then have "left_pre pre s' @ drop l s' \<noteq> []" by (rule length_greater_0_conv [THEN iffD1])
    from fix_end_marker_wf [OF wf [unfolded new] _ this len [symmetric], of rest] show ?thesis using True by simp
  qed simp
  have "replace_array d_rl n src (length runs) (length pre) l k = Some (left_pre pre s' @ drop l s' @ drop k post @ rest)"
    unfolding replace_array_def arr(1) src(1) Let_def l_def k_def join_right_mem [OF src(2) refl] s'_def [symmetric] bind.bind_lunit
      s'(2) [symmetric] join_left_mem [OF ne refl]
    unfolding s'(2) l_def [symmetric] k_def [symmetric] u mc(1,2) bind.bind_lunit fm ..
  then show thesis using that [of rest] mc(3) new by (simp add: l_def k_def arr(1))
qed

lemma replace_outcome:
  assumes io: "alloc_ok io" "rl_arr_ok r" and es: "els r = pre @ d # post"
    and src: "src = runs @ s1" "runs \<noteq> []" "length runs \<le> rl_max" "0 < length post"
    and wf: "rl_wf (left_pre pre (right_src runs post) @ left_src pre (right_src runs post) @ right_post runs post)" (is "rl_wf ?new")
  shows "splice_outcome r ?new (ntfs_rl_replace io r src (length runs) (length pre))"
proof -
  define g0 where "g0 = drop (elements r) (rl r)"
  have rl: "rl r = pre @ d # post @ g0" using append_take_drop_id [of "elements r" "rl r"] unfolding es g0_def by simp
  have len: "elements r = length pre + Suc (length post)" using rl_arr_okD(3) [OF io(2)] unfolding es by simp
  define l where "l = (of_bool (joins_left pre runs) :: nat)"
  define k where "k = (of_bool (joins_right runs post) :: nat)"
  have s: "0 < length runs" using src(2) by simp
  have le: "l \<le> 1" "l \<le> length pre" "k \<le> 1" "k \<le> length post"
    using joins_left_le [of pre runs] joins_right_le [of runs post] s unfolding l_def k_def by linarith+
  have flags: "merge_left (rl r) src (length pre) = Some l"
    "merge_right (rl r) (elements r) src (length runs) (length pre) = Some k"
    using src len by (simp_all add: rl merge_left_eq merge_right_eq l_def k_def)
  have lk: "l + k \<le> 2" "l + k < elements r" using le len by simp_all
  have ne: "\<not> (src = [] \<or> length runs = 0)" using src(1,2) by simp
  from io s src(3) lk show ?thesis
  proof (cases rule: replace_grow)
    case nomem
    then show ?thesis unfolding splice_outcome_def ntfs_rl_replace_def flags Let_def bind.bind_lunit if_not_P [OF ne] by simp
  next
    case (grown r1 g)
    have rl1: "rl r1 = pre @ d # post @ g" using grown(2) unfolding es by simp
    obtain rest where R: "replace_array (rl r1) (elements r) src (length runs) (length pre) l k = Some (?new @ rest)"
      "length (?new @ rest) = length (rl r1)"
      using replace_array_eq [OF rl1 len rl_arr_okD(4) [OF io(2)] src(1,2) _ wf] grown(4) unfolding l_def k_def by auto
    have "ntfs_rl_replace io r src (length runs) (length pre) = Some (EOK, r1\<lparr>rl := ?new @ rest\<rparr>)"
      unfolding ntfs_rl_replace_def flags Let_def bind.bind_lunit if_not_P [OF ne] grown(1) by (simp add: R(1))
    moreover have "rl_arr_ok (r1\<lparr>rl := ?new @ rest\<rparr>)" "rl_mem_ok r \<longrightarrow> rl_mem_ok (r1\<lparr>rl := ?new @ rest\<rparr>)"
      using grown(5,6) R(2) by (simp_all add: rl_arr_ok_def rl_mem_ok_def)
    moreover have "length ?new = length pre + ((length runs - l) + (length post - k))"
      by (simp only: length_append length_drop length_left_pre length_right_src [OF src(2)] l_def k_def joins_left_right_src(1) [OF src(2)])
    then have "length ?new = elements r1" using grown(3) len le s by linarith
    ultimately show ?thesis by (simp add: splice_outcome_def)
  qed
qed

lemma insert_adjust_eq:
  assumes wf: "rl_wf (xs @ d' # post)" "xs \<noteq> []" "marker = length xs"
    and d': "d' = (if lcn d = LCN_HOLE \<or> lcn d = LCN_RL_NOT_MAPPED then d\<lparr>vcn := b, rlen := vcn (hd post) - b\<rparr> else d\<lparr>vcn := b\<rparr>)"
      "lcn d = LCN_HOLE \<or> lcn d = LCN_RL_NOT_MAPPED \<longrightarrow> post \<noteq> []"
  shows "insert_adjust (xs @ d # post @ rest) marker = Some (xs @ d' # post @ rest)"
proof -
  obtain xs' p where p: "xs = xs' @ [p]" using wf(2) by (cases xs rule: rev_cases) auto
  obtain q where "rl_from q (p # d' # post)" using rl_wf_split [of xs' "p # d' # post"] wf(1) p by auto
  then have v: "vcn p + rlen p = b" using d'(1) by (simp add: rl_from_Cons split: if_splits)
  show ?thesis
  proof (cases "lcn d = LCN_HOLE \<or> lcn d = LCN_RL_NOT_MAPPED")
    case True
    then obtain nx post' where "post = nx # post'" using d'(2) by (cases post) auto
    then show ?thesis using True v by (simp add: insert_adjust_def p wf(3) d'(1) arr_simps)
  next
    case False
    then show ?thesis using v by (simp add: insert_adjust_def p wf(3) d'(1) arr_simps)
  qed
qed

lemma insert_outcome:
  assumes io: "alloc_ok io" "rl_arr_ok r" and es: "els r = pre @ d # post" "rl_wf (els r)"
    and src: "src = runs @ s1" "runs \<noteq> []" "length runs \<le> rl_max" "vcn (hd runs) = vcn d" "0 \<le> rlen (hd runs)"
    and d': "d' = (if lcn d = LCN_HOLE \<or> lcn d = LCN_RL_NOT_MAPPED then d\<lparr>vcn := b, rlen := vcn (hd post) - b\<rparr> else d\<lparr>vcn := b\<rparr>)"
      "lcn d = LCN_HOLE \<or> lcn d = LCN_RL_NOT_MAPPED \<longrightarrow> post \<noteq> []"
    and wf: "rl_wf (left_pre pre runs @ left_src pre runs @ d' # post)" (is "rl_wf ?new")
  shows "splice_outcome r ?new (ntfs_rl_insert io r src (length runs) (length pre))"
proof -
  define g0 where "g0 = drop (elements r) (rl r)"
  have rl: "rl r = pre @ d # post @ g0" using append_take_drop_id [of "elements r" "rl r"] unfolding es g0_def by simp
  have len: "elements r = length pre + Suc (length post)" using rl_arr_okD(3) [OF io(2)] unfolding es by simp
  define l where "l = (of_bool (joins_left pre runs) :: nat)"
  have s: "0 < length runs" using src(2) by simp
  have le: "l \<le> 1" "l \<le> length pre" "l \<le> length runs" using joins_left_le [of pre runs] s unfolding l_def by linarith+
  have flag: "merge_left (rl r) src (length pre) = Some l" using src len by (simp add: rl merge_left_eq l_def)
  obtain q where q: "rl_chain 0 pre q" "rl_from q (d # post)" using rl_wf_split [of pre "d # post"] es by auto
  have s0: "rd src 0 = Some (hd runs)" using src(2) by (cases runs) (simp_all add: src(1) rd_def)
  have disc: "insert_disc (rl r) src (length pre) l = Some 0"
  proof (cases pre rule: rev_cases)
    case Nil
    then have "vcn d = 0" using q by (simp add: rl_from_Cons)
    then show ?thesis using s0 src(4) Nil by (simp add: insert_disc_def)
  next
    case (snoc pre' p)
    then have "vcn p + rlen p = vcn d" using q by (simp add: rl_simps rl_from_Cons)
    then show ?thesis using s0 src(4,5) snoc by (simp add: insert_disc_def rl rd_def nth_append Let_def)
  qed
  have ne: "\<not> (src = [] \<or> length runs = 0)" using src(1,2) by simp
  have small: "length runs - l + 0 \<le> rl_max" using src(3) by simp
  from io small show ?thesis
  proof (cases rule: rl_inc_cases)
    case nomem
    then show ?thesis unfolding splice_outcome_def ntfs_rl_insert_def flag disc Let_def bind.bind_lunit if_not_P [OF ne] by simp
  next
    case (grown r1 g)
    have rl1: "rl r1 = pre @ d # post @ g" using grown(2) unfolding es by simp
    have u: "usub (elements r) (length pre) = Suc (length post)" using rl_arr_okD(4) [OF io(2)] len by (simp add: usub_le)
    obtain ys rest where mc:
      "move_els (left_pre pre runs @ d # post @ g) (length pre + length runs - l) (length pre) (Suc (length post)) = Some ys"
      "copy_els ys (length pre) (runs @ s1) l (length runs - l) = Some (left_pre pre runs @ drop l runs @ (d # post) @ rest)"
      "length (left_pre pre runs @ drop l runs @ (d # post) @ rest) = length (left_pre pre runs @ d # post @ g)"
    proof (rule move_copy [of "left_pre pre runs @ d # post @ g" "left_pre pre runs" "[]" "d # post" g
        "length pre" "length pre" "Suc (length post)" "runs @ s1" "take l runs" "drop l runs" s1 l
        "length runs - l" "length pre + length runs - l"])
    qed (use grown(3) le in simp_all)
    have xs: "length pre + length runs - l = length (left_pre pre runs @ drop l runs)" "left_pre pre runs @ drop l runs \<noteq> []"
      using le s by (auto simp: length_greater_0_conv [symmetric] simp del: length_greater_0_conv)
    have wf': "rl_wf ((left_pre pre runs @ drop l runs) @ d' # post)" using wf by (simp add: l_def)
    have adj: "insert_adjust (left_pre pre runs @ drop l runs @ (d # post) @ rest) (length pre + length runs - l) = Some (?new @ rest)"
      using insert_adjust_eq [OF wf' xs(2,1) d', of rest] by (simp add: l_def)
    have "insert_array (rl r1) (elements r) src (length runs) (length pre) l 0 = Some (?new @ rest)"
      unfolding insert_array_def rl1 src(1) l_def join_left_mem [OF src(2) refl] bind.bind_lunit Let_def
      unfolding l_def [symmetric] u add_0_right mc(1,2) bind.bind_lunit adj by simp
    then have "ntfs_rl_insert io r src (length runs) (length pre) = Some (EOK, r1\<lparr>rl := ?new @ rest\<rparr>)"
      unfolding ntfs_rl_insert_def flag disc Let_def bind.bind_lunit if_not_P [OF ne] grown(1) by simp
    moreover have "rl_mem_ok (r1\<lparr>rl := ?new @ rest\<rparr>)" using grown(5) mc(3) by (simp add: rl_mem_ok_def rl1 l_def)
    moreover have "length ?new = length pre + ((length runs - l) + Suc (length post))"
      by (simp only: length_append length_drop length_left_pre l_def list.size)
    then have "length ?new = elements r1" using grown(4) len le s by linarith
    ultimately show ?thesis by (rule splice_outcomeI)
  qed
qed

lemma append_outcome:
  assumes io: "alloc_ok io" "rl_arr_ok r" and es: "els r = pre @ d # post"
    and src: "src = runs @ s1" "runs \<noteq> []" "length runs \<le> rl_max" "right_post runs post \<noteq> []"
    and wf: "rl_wf (pre @ d\<lparr>rlen := vcn (hd runs) - vcn d\<rparr> # right_src runs post @ right_post runs post)" (is "rl_wf ?new")
  shows "splice_outcome r ?new (ntfs_rl_append io r src (length runs) (length pre))"
proof -
  define g0 where "g0 = drop (elements r) (rl r)"
  have rl: "rl r = pre @ d # post @ g0" using append_take_drop_id [of "elements r" "rl r"] unfolding es g0_def by simp
  have len: "elements r = length pre + Suc (length post)" using rl_arr_okD(3) [OF io(2)] unfolding es by simp
  define s' where "s' = right_src runs post"
  define k where "k = (of_bool (joins_right runs post) :: nat)"
  have s: "0 < length runs" using src(2) by simp
  have len': "length s' = length runs" using src(2) by (simp add: s'_def)
  then have "0 < length s'" using s by simp
  then have "s' \<noteq> []" by (rule length_greater_0_conv [THEN iffD1])
  then have s': "length s' = length runs" "s' \<noteq> []" using len' by simp_all
  have le: "k \<le> 1" "k \<le> length post" "k \<le> length runs" using joins_right_le [of runs post] s unfolding k_def by linarith+
  have flag: "merge_right (rl r) (elements r) src (length runs) (length pre) = Some k"
    using src len by (simp add: rl merge_right_eq k_def)
  have hd: "vcn (hd s') = vcn (hd runs)" using hd_right_src [OF src(2), of post] by (auto simp: s'_def)
  have ne: "\<not> (src = [] \<or> length runs = 0)" using src(1,2) by simp
  have small: "length runs - k \<le> rl_max" using src(3) by simp
  from io small show ?thesis
  proof (cases rule: rl_inc_cases)
    case nomem
    then show ?thesis unfolding splice_outcome_def ntfs_rl_append_def flag Let_def bind.bind_lunit if_not_P [OF ne] by simp
  next
    case (grown r1 g)
    have rl1: "rl r1 = pre @ d # post @ g" using grown(2) unfolding es by simp
    have u: "usub (elements r) (length pre + 1 + k) = length post - k" using rl_arr_okD(4) [OF io(2)] len le by (simp add: usub_le)
    obtain ys rest where mc:
      "move_els (pre @ d # post @ g) (length pre + length runs + 1) (length pre + 1 + k) (length post - k) = Some ys"
      "copy_els ys (length pre + 1) (s' @ s1) 0 (length runs) = Some ((pre @ [d]) @ s' @ drop k post @ rest)"
      "length ((pre @ [d]) @ s' @ drop k post @ rest) = length (pre @ d # post @ g)"
    proof (rule move_copy [of "pre @ d # post @ g" "pre @ [d]" "take k post" "drop k post" g
        "length pre + 1" "length pre + 1 + k" "length post - k" "s' @ s1" "[]" s' s1 0
        "length runs" "length pre + length runs + 1"])
    qed (use grown(3) le s'(1) in simp_all)
    define d' where "d' = d\<lparr>rlen := vcn (hd runs) - vcn d\<rparr>"
    have new: "?new = (pre @ d' # s') @ drop k post" by (simp add: d'_def s'_def k_def)
    have fm: "fix_end_marker ((pre @ d' # s') @ drop k post @ rest) (length pre + length runs + 1) = Some ((pre @ d' # s') @ drop k post @ rest)"
      using fix_end_marker_wf [OF wf [unfolded new], of "length pre + length runs + 1" rest] src(4) s'(1)
      by (simp add: k_def)
    obtain e es' where e: "s' = e # es'" using s'(2) by (cases s') auto
    have "append_array (rl r1) (elements r) src (length runs) (length pre) k = Some (?new @ rest)"
      unfolding new unfolding append_array_def rl1 src(1) k_def join_right_mem [OF src(2) refl] bind.bind_lunit Let_def
      unfolding k_def [symmetric] s'_def [symmetric] u mc(1,2) bind.bind_lunit
      using fm hd by (simp add: arr_simps(1-3,6,7) e d'_def)
    then have "ntfs_rl_append io r src (length runs) (length pre) = Some (EOK, r1\<lparr>rl := ?new @ rest\<rparr>)"
      unfolding ntfs_rl_append_def flag Let_def bind.bind_lunit if_not_P [OF ne] grown(1) by simp
    moreover have "rl_mem_ok (r1\<lparr>rl := ?new @ rest\<rparr>)" using grown(5) mc(3) by (simp add: rl_mem_ok_def rl1 k_def s'_def)
    moreover have "length ?new = Suc (length pre + (length runs + (length post - k)))"
      unfolding new using s'(1) by simp
    then have "length ?new = elements r1" using grown(4) len le by linarith
    ultimately show ?thesis by (rule splice_outcomeI)
  qed
qed

lemma split_outcome:
  assumes io: "alloc_ok io" "rl_arr_ok r" and es: "els r = pre @ d # post" "post \<noteq> []"
    and src: "src = runs @ s1" "runs \<noteq> []" "length runs < rl_max" "vcn (last runs) + rlen (last runs) = b"
  shows "splice_outcome r (pre @ d\<lparr>rlen := vcn (hd runs) - vcn d\<rparr> # runs @ \<lparr>vcn = b, lcn = lcn d, rlen = vcn (hd post) - b\<rparr> # post)
    (ntfs_rl_split io r src (length runs) (length pre))" (is "splice_outcome r ?new _")
proof -
  have len: "elements r = length pre + Suc (length post)" using rl_arr_okD(3) [OF io(2)] unfolding es by simp
  have pos: "length pre + 1 \<le> elements r" using len by simp
  have ne: "\<not> (src = [] \<or> length runs = 0)" using src(1,2) by simp
  have small: "length runs + 1 \<le> rl_max" using src(3) by simp
  from io pos small show ?thesis
  proof (cases rule: rl_ins_cases)
    case nomem
    then show ?thesis unfolding splice_outcome_def ntfs_rl_split_def if_not_P [OF ne] by simp
  next
    case (grown r1 g g')
    have "take (length pre + 1) (rl r) = take (length pre + 1) (els r)" using len by (simp add: min_def)
    then have rl1: "rl r1 = (pre @ [d]) @ g @ post @ g'" using grown(2) unfolding es by simp
    obtain g1 w where w: "g = g1 @ [w]" "length g1 = length runs" using grown(3) by (cases g rule: rev_cases) auto
    have cp: "copy_els (rl r1) (length pre + 1) src 0 (length runs) = Some ((pre @ [d]) @ runs @ (w # post @ g'))"
      using copy_els_append [of "length pre + 1" "pre @ [d]" "length runs" g1 runs 0 "[]" "w # post @ g'" s1] w(2)
      by (simp add: rl1 w(1) src(1))
    obtain x xs where x: "runs = x # xs" using src(2) by (cases runs) auto
    obtain y ys where y: "runs = ys @ [y]" using src(2) by (cases runs rule: rev_cases) auto
    obtain nx post' where post: "post = nx # post'" using es(2) by (cases post) auto
    define d' where "d' = d\<lparr>rlen := vcn x - vcn d\<rparr>"
    have r1: "rd ((pre @ [d]) @ runs @ (w # post @ g')) (length pre + 1) = Some x" by (simp add: x rd_def nth_append)
    have r2: "upd ((pre @ [d]) @ runs @ (w # post @ g')) (length pre) (\<lambda>d. d\<lparr>rlen := vcn x - vcn d\<rparr>) = Some (pre @ d' # runs @ w # post @ g')"
      by (simp add: d'_def mem_simps)
    have r3: "rd (pre @ d' # runs @ z # post @ g') (length pre + length runs) = Some y" for z
      by (simp add: y rd_def nth_append)
    have r4: "upd (pre @ d' # runs @ z # post @ g') (length pre + length runs + 1) f = Some (pre @ d' # runs @ f z # post @ g')" for z f
      using upd_append [of "length pre + length runs + 1" "pre @ d' # runs" z "post @ g'" f] by simp
    have r5: "rd (pre @ d' # runs @ z # post @ g') (length pre + length runs + 1 + 1) = Some nx" for z
      by (simp add: post rd_def nth_append)
    have y': "vcn y + rlen y = b" using src(4) by (simp add: y)
    have w': "w\<lparr>lcn := lcn d, vcn := b, rlen := vcn nx - b\<rparr> = \<lparr>vcn = b, lcn = lcn d, rlen = vcn nx - b\<rparr>" by (cases w) simp
    have "split_array (rl r1) src (length runs) (length pre) = Some (?new @ g')"
      unfolding split_array_def cp bind.bind_lunit r1 r2 Let_def r4 r3 r5
      by (simp add: mem_simps r3 r4 [simplified] r5 [simplified] y' w' d'_def x [symmetric]) (simp add: x post d'_def)
    then have "ntfs_rl_split io r src (length runs) (length pre) = Some (EOK, r1\<lparr>rl := ?new @ g'\<rparr>)"
      unfolding ntfs_rl_split_def if_not_P [OF ne] grown(1) by simp
    moreover have "rl_mem_ok (r1\<lparr>rl := ?new @ g'\<rparr>)" using grown(5) w by (simp add: rl_mem_ok_def rl1)
    moreover have "length ?new = elements r1" using grown(4) len by simp
    ultimately show ?thesis by (rule splice_outcomeI)
  qed
qed

section \<open>The merge\<close>

lemma merge_src_start_eq:
  assumes "\<forall>e \<in> set u. rlen e \<noteq> 0 \<and> lcn e < LCN_HOLE" "LCN_HOLE \<le> lcn x"
  shows "merge_src_start (u @ x # ys) = Some (length u)"
  using assms by (induction u) auto

lemma merge_final_eq:
  assumes "LCN_HOLE \<le> lcn x" "lcn t < LCN_HOLE"
  shows "merge_final (xs @ x # t # ys) (Suc (length xs)) = Some (length xs)"
  using assms by (cases xs rule: rev_cases) (auto simp: rd_def nth_append)

text \<open>
  The source: its runs, and the end. It begins at any vcn, as the runlist of newly allocated clusters does,
  or with unmapped elements in front of the runs, as the runlist of an extent that has been decompressed does.
\<close>

definition merge_source :: "ntfs_runlist \<Rightarrow> ntfs_rl_element list \<Rightarrow> ntfs_rl_element \<Rightarrow> bool" where
  "merge_source src runs t \<longleftrightarrow> elements src < rl_max \<and> elements src \<le> length (rl src) \<and> (\<exists>s. 0 \<le> s \<and> rl_from s (els src)) \<and> runs \<noteq> [] \<and>
     (\<exists>u. els src = u @ runs @ [t] \<and> (\<forall>e \<in> set u. lcn e < LCN_HOLE)) \<and> (\<forall>e \<in> set runs. LCN_HOLE \<le> lcn e)"

lemma merge_sourceD:
  assumes "merge_source src runs t"
  obtains u g where "rl src = u @ runs @ t # g" "elements src = Suc (length u + length runs)" "length runs < rl_max"
    "\<forall>e \<in> set u. rlen e \<noteq> 0 \<and> lcn e < LCN_HOLE" "rl_term t" "rl_chain (vcn (hd runs)) runs (vcn t)" "0 \<le> vcn (hd runs)"
    "\<And>v. vcn (hd runs) \<le> v \<Longrightarrow> v < vcn t \<Longrightarrow> rl_lookup (els src) v = the (rl_map runs v)"
proof -
  from assms obtain u s where u: "els src = u @ runs @ [t]" "\<forall>e \<in> set u. lcn e < LCN_HOLE"
    and m: "elements src < rl_max" "elements src \<le> length (rl src)" "rl_from s (els src)" "runs \<noteq> []" "0 \<le> s"
    unfolding merge_source_def by blast
  obtain x xs where runs: "runs = x # xs" using m(4) by (cases runs) auto
  have "rl_chain s (u @ x # xs) (vcn t) \<and> rl_term t" using m(3) unfolding u(1) runs by (simp add: rl_from_def butlast_append)
  then have c: "rl_chain s u (vcn x)" "rl_chain (vcn x) runs (vcn t)" "rl_term t" "rl_chain s (u @ runs) (vcn t)"
    by (simp_all add: rl_simps runs)
  have u_len: "\<forall>e \<in> set u. rlen e \<noteq> 0" using c(1) by (induction u arbitrary: x rule: rev_induct) (auto simp: rl_simps)
  have rl: "rl src = u @ runs @ t # drop (elements src) (rl src)"
    using append_take_drop_id [of "elements src" "rl src"] unfolding u(1) by simp
  have len: "elements src = Suc (length u + length runs)" using arg_cong [OF u(1), of length] m(2) by simp
  have "rl_lookup (els src) v = the (rl_map runs v)" if "vcn x \<le> v" "v < vcn t" for v
    using that rl_map_above [OF c(1), of v] rl_map_chain [OF c(2), of v] unfolding u(1)
    by (auto simp: rl_lookup_def rl_map_append split: option.split)
  then show thesis using that [OF rl len] u(2) u_len c(2,3) m(1,5) len rl_chain_le [OF c(1)] by (simp add: runs)
qed

lemma ntfs_rl_merge_reduce:
  assumes src: "merge_source src runs t" and dst: "elements dst \<noteq> 0" "rl_skip (rl dst) (vcn (hd runs)) = Some i" "rd (rl dst) i = Some d"
    and d: "lcn d < 0" "rlen d = 0 \<longrightarrow> lcn d = LCN_ENOENT" "lcn t = LCN_ENOENT \<longrightarrow> lcn d = LCN_ENOENT"
  obtains s1 where "ntfs_rl_merge io dst src = do {
     (err, r) \<leftarrow> merge_splice io dst (lcn d < LCN_RL_NOT_MAPPED \<or> vcn d = vcn (hd runs))
       (LCN_RL_NOT_MAPPED \<le> lcn d \<and> vcn d + rlen d \<le> vcn t) (runs @ s1) (length runs) i;
     if err \<noteq> EOK then Some (err, r)
     else if lcn t = LCN_ENOENT then merge_marker io r (vcn t)
     else Some (EOK, r) }"
proof -
  obtain u g where s: "rl src = u @ runs @ t # g" "elements src = Suc (length u + length runs)" "length runs < rl_max"
    "\<forall>e \<in> set u. rlen e \<noteq> 0 \<and> lcn e < LCN_HOLE" "rl_term t" "rl_chain (vcn (hd runs)) runs (vcn t)"
    by (rule merge_sourceD [OF src]) (rule that; assumption)
  have runs: "runs \<noteq> []" "\<forall>e \<in> set runs. LCN_HOLE \<le> lcn e" and small: "elements src < rl_max" using src by (simp_all add: merge_source_def)
  obtain x xs where x: "runs = x # xs" using runs(1) by (cases runs) auto
  obtain ys y where y: "runs = ys @ [y]" using runs(1) by (cases runs rule: rev_cases) auto
  have start: "merge_src_start (rl src) = Some (length u)" using merge_src_start_eq [OF s(4), of x "xs @ t # g"] runs(2) by (simp add: s(1) x)
  have rx: "rd (rl src) (length u) = Some x" "rlen x \<noteq> 0" using s(6) by (simp_all add: s(1) x rd_def nth_append)
  have "lcn t < LCN_HOLE" using s(5) by (auto simp: rl_term_def)
  then have fin: "merge_final (rl src) (elements src - 1) = Some (length u + length ys)"
    using merge_final_eq [of y t "u @ ys" g] runs(2) by (simp add: s(1,2) y)
  have last: "rd (rl src) (elements src - 1) = Some t" by (simp add: s(1,2) rd_def nth_append)
  have ss: "uwrap (usub (length u + length ys) (length u) + 1) = length runs"
    using small by (simp add: s(2) y usub_le)
  obtain z where prev: "rd (rl src) (usub (elements src) 2) = Some z"
    using small by (simp add: s(1,2) y usub_le rd_def)
  have drop: "drop (length u) (rl src) = runs @ t # g" by (simp add: s(1))
  have fin0: "\<not> ((LCN_RL_NOT_MAPPED \<le> lcn d \<and> vcn d + rlen d \<le> vcn t) \<and> rlen d = 0)" using d(2) by auto
  have ne: "elements src \<noteq> 0" "0 < elements src - 1" using runs(1) by (simp_all add: s(2))
  have hd: "hd runs = x" by (simp add: x)
  have mk: "(lcn t = LCN_ENOENT \<and> 0 < elements src - 1) = (lcn t = LCN_ENOENT)" using ne(2) by simp
  show thesis
  proof (rule that [of "t # g"], cases "lcn t = LCN_ENOENT")
    case True
    then have fin1: "\<not> LCN_RL_NOT_MAPPED \<le> lcn d" using d(3) by simp
    show "ntfs_rl_merge io dst src = do {
     (err, r) \<leftarrow> merge_splice io dst (lcn d < LCN_RL_NOT_MAPPED \<or> vcn d = vcn (hd runs))
       (LCN_RL_NOT_MAPPED \<le> lcn d \<and> vcn d + rlen d \<le> vcn t) (runs @ t # g) (length runs) i;
     if err \<noteq> EOK then Some (err, r)
     else if lcn t = LCN_ENOENT then merge_marker io r (vcn t)
     else Some (EOK, r) }"
      using True fin1 d(1) ne rx(2) dst unfolding ntfs_rl_merge_def Let_def start bind.bind_lunit rx(1) fin last ss drop prev hd mk by simp
  next
    case False
    show "ntfs_rl_merge io dst src = do {
     (err, r) \<leftarrow> merge_splice io dst (lcn d < LCN_RL_NOT_MAPPED \<or> vcn d = vcn (hd runs))
       (LCN_RL_NOT_MAPPED \<le> lcn d \<and> vcn d + rlen d \<le> vcn t) (runs @ t # g) (length runs) i;
     if err \<noteq> EOK then Some (err, r)
     else if lcn t = LCN_ENOENT then merge_marker io r (vcn t)
     else Some (EOK, r) }"
      using False fin0 d(1) ne rx(2) dst unfolding ntfs_rl_merge_def Let_def start bind.bind_lunit rx(1) fin last ss drop hd mk by auto
  qed
qed

lemma spliced_cong:
  assumes "spliced es a b f es'" "\<And>v. a \<le> v \<Longrightarrow> v < b \<Longrightarrow> f v = f' v"
  shows "spliced es a b f' es'"
  using assms by (auto simp: spliced_def)

lemma spliced_wf: "spliced es a b f es' \<Longrightarrow> rl_wf es'"
  by (simp add: spliced_def)

text \<open>The four ways to fill a part of a hole: all of it, its start, its end, its middle.\<close>

lemma merge_splice_in_hole:
  assumes io: "alloc_ok io" "rl_arr_ok r" and es: "els r = pre @ d # post" "rl_wf (els r)" "rlen d \<noteq> 0" "lcn d < 0"
    and runs: "runs \<noteq> []" "length runs < rl_max" "\<forall>e \<in> set runs. LCN_HOLE \<le> lcn e" "rl_chain a runs b" "vcn d \<le> a" "b \<le> vcn d + rlen d"
  obtains new where "splice_outcome r new (merge_splice io r (vcn d = a) (vcn d + rlen d \<le> b) (runs @ s1) (length runs) (length pre))"
    "spliced (els r) a b (\<lambda>v. the (rl_map runs v)) new"
proof -
  obtain q where q: "rl_chain 0 pre q" "rl_from q (d # post)" using rl_wf_split [of pre "d # post"] es(1,2) by auto
  then have post: "post \<noteq> []" "vcn d = q" "LCN_RL_NOT_MAPPED \<le> lcn d" "rl_from (q + rlen d) post"
    using es(3) by (auto simp: rl_from_Cons rl_term_def split: if_splits)
  then have nx: "vcn (hd post) = vcn d + rlen d" by (cases post) (auto simp: rl_from_Cons)
  obtain x xs where x: "runs = x # xs" using runs(1) by (cases runs) auto
  obtain ys y where y: "runs = ys @ [y]" using runs(1) by (cases runs rule: rev_cases) auto
  have ends: "LCN_HOLE \<le> lcn (hd runs)" "LCN_HOLE \<le> lcn (last runs)" using runs(1,3) by simp_all
  have hd: "vcn (hd runs) = a" "0 < rlen (hd runs)" using runs(4) by (simp_all add: x)
  have last: "vcn (last runs) + rlen (last runs) = b" using runs(4) by (simp add: y rl_simps)
  have ab: "a < b" using runs(4) rl_chain_le by (fastforce simp: x)
  have le: "length runs \<le> rl_max" using runs(2) by simp
  define base where "base = pre @ hole_front d a @ runs @ hole_back d b @ post"
  have S: "spliced (els r) a b (\<lambda>v. the (rl_map runs v)) base"
    using spliced_in_hole [OF _ es(3,4) runs(4-6) ab runs(3), of pre post] es(1,2) by (simp add: base_def)
  have neg: "lcn d = LCN_HOLE \<or> lcn d = LCN_RL_NOT_MAPPED" using es(4) post(3) by auto
  consider (whole) "vcn d = a" "vcn d + rlen d = b" | (front) "vcn d = a" "b < vcn d + rlen d"
    | (rear) "vcn d < a" "vcn d + rlen d = b" | (middle) "vcn d < a" "b < vcn d + rlen d"
    using runs(5,6) by linarith
  then show thesis
  proof cases
    case whole
    let ?new = "left_pre pre (right_src runs post) @ left_src pre (right_src runs post) @ right_post runs post"
    have base: "base = pre @ runs @ post" using whole by (simp add: base_def hole_front_def hole_back_def)
    have "rl_eqv base (pre @ right_src runs post @ right_post runs post)"
      unfolding base using join_right_eqv [OF runs(1) ends(2)] .
    moreover have "right_src runs post \<noteq> []" using length_right_src [OF runs(1), of post] runs(1) by (metis length_0_conv)
    then have "rl_eqv (pre @ right_src runs post @ right_post runs post) ?new"
      using join_left_eqv [of "right_src runs post" pre "right_post runs post"] joins_left_right_src(2) [OF runs(1)] ends(1) by simp
    ultimately have "spliced (els r) a b (\<lambda>v. the (rl_map runs v)) ?new" using S spliced_eqv rl_eqv_trans by blast
    moreover have "0 < length post" using post(1) by simp
    ultimately show thesis using replace_outcome [OF io es(1) refl runs(1) le, of s1] whole
      by (intro that [of ?new]) (simp_all add: merge_splice_def spliced_wf)
  next
    case front
    let ?new = "left_pre pre runs @ left_src pre runs @ rl_cut d b # post"
    have "base = pre @ runs @ rl_cut d b # post" using front by (simp add: base_def hole_front_def hole_back_def)
    then have new: "spliced (els r) a b (\<lambda>v. the (rl_map runs v)) ?new"
      using S spliced_eqv [OF _ join_left_eqv [OF runs(1) ends(1)]] by simp
    have "rl_cut d b = d\<lparr>vcn := b, rlen := vcn (hd post) - b\<rparr>" using es(4) nx by (simp add: rl_cut_def)
    then show thesis using insert_outcome [OF io es(1,2) refl runs(1) le, of "rl_cut d b" b s1] new neg hd front post(1)
      by (intro that [of ?new]) (simp_all add: merge_splice_def spliced_wf)
  next
    case rear
    let ?new = "pre @ rl_front d a # right_src runs post @ right_post runs post"
    have "base = (pre @ [rl_front d a]) @ runs @ post" using rear by (simp add: base_def hole_front_def hole_back_def)
    then have new: "spliced (els r) a b (\<lambda>v. the (rl_map runs v)) ?new"
      using S spliced_eqv [OF _ join_right_eqv [OF runs(1) ends(2)], of _ _ _ _ "pre @ [rl_front d a]" post] by simp
    have "right_post runs post \<noteq> []"
      using post(1,4) ends(2) by (cases post) (auto simp: joins_right_def ntfs_rl_can_merge_def rl_from_Cons rl_term_def split: if_splits)
    then show thesis using append_outcome [OF io es(1) refl runs(1) le, of s1] new hd rear
      by (intro that [of ?new]) (simp_all add: merge_splice_def spliced_wf)
  next
    case middle
    have "base = pre @ rl_front d a # runs @ rl_cut d b # post" using middle by (simp add: base_def hole_front_def hole_back_def)
    moreover have "rl_cut d b = \<lparr>vcn = b, lcn = lcn d, rlen = vcn (hd post) - b\<rparr>" using es(4) nx by (cases d) (simp add: rl_cut_def)
    ultimately show thesis using split_outcome [OF io es(1) post(1) refl runs(1,2) last, of s1] S hd middle
      by (intro that [of base]) (simp_all add: merge_splice_def)
  qed
qed

section \<open>Properties\<close>

lemma rl_merge_in_hole:
  assumes "alloc_ok io" and "rl_arr_ok dst" and "rl_wf (els dst)" and "els dst = pre @ d # post"
    and "rlen d \<noteq> 0" "lcn d < 0"
    and "merge_source src runs t" and "lcn t = LCN_RL_NOT_MAPPED"
    and "vcn d \<le> vcn (hd runs)" and "vcn t \<le> vcn d + rlen d"
  shows "ntfs_rl_merge io dst src = Some (ENOMEM, dst) \<or>
    (\<exists>r'. ntfs_rl_merge io dst src = Some (EOK, r') \<and> rl_arr_ok r' \<and> (rl_mem_ok dst \<longrightarrow> rl_mem_ok r') \<and>
       spliced (els dst) (vcn (hd runs)) (vcn t) (rl_lookup (els src)) (els r'))"
proof -
  obtain u g where s: "length runs < rl_max" "rl_chain (vcn (hd runs)) runs (vcn t)" "0 \<le> vcn (hd runs)"
    "\<And>v. vcn (hd runs) \<le> v \<Longrightarrow> v < vcn t \<Longrightarrow> rl_lookup (els src) v = the (rl_map runs v)"
    by (rule merge_sourceD [OF assms(7)]) (rule that; assumption)
  have runs: "runs \<noteq> []" "\<forall>e \<in> set runs. LCN_HOLE \<le> lcn e" using assms(7) by (simp_all add: merge_source_def)
  have lt: "vcn (hd runs) < vcn t" using s(2) runs(1) rl_chain_le by (cases runs) fastforce+
  obtain q where q: "rl_chain 0 pre q" "rl_from q (d # post)" using rl_wf_split [of pre "d # post"] assms(3,4) by auto
  then have d: "LCN_RL_NOT_MAPPED \<le> lcn d" "post \<noteq> []" using assms(5) by (auto simp: rl_from_Cons rl_term_def split: if_splits)
  obtain post' t' where post: "post = post' @ [t']" using d(2) by (cases post rule: rev_cases) auto
  have c: "rl_chain 0 (pre @ d # post') (vcn t')" "rl_term t'"
    using assms(3) rl_wf_snoc [of "pre @ d # post'" t'] unfolding assms(4) post by simp_all
  define g' where "g' = drop (elements dst) (rl dst)"
  have rl: "rl dst = (pre @ d # post') @ t' # g'"
    using append_take_drop_id [of "elements dst" "rl dst"] unfolding assms(4) post g'_def by simp
  have skip: "rl_skip (rl dst) (vcn (hd runs)) = Some (length pre)"
    unfolding rl using rl_skip_at [OF c, of "vcn (hd runs)" g'] assms(9,10) lt by simp
  have rd: "rd (rl dst) (length pre) = Some d" by (simp add: rl mem_simps)
  have ne: "elements dst \<noteq> 0" using assms(4) by (cases "elements dst") auto
  obtain s1 where M: "ntfs_rl_merge io dst src = do {
     (err, r) \<leftarrow> merge_splice io dst (lcn d < LCN_RL_NOT_MAPPED \<or> vcn d = vcn (hd runs))
       (LCN_RL_NOT_MAPPED \<le> lcn d \<and> vcn d + rlen d \<le> vcn t) (runs @ s1) (length runs) (length pre);
     if err \<noteq> EOK then Some (err, r)
     else if lcn t = LCN_ENOENT then merge_marker io r (vcn t)
     else Some (EOK, r) }"
    using ntfs_rl_merge_reduce [OF assms(7) ne skip rd assms(6), of io] assms(5,8) by auto
  obtain new where new: "splice_outcome dst new (merge_splice io dst (vcn d = vcn (hd runs)) (vcn d + rlen d \<le> vcn t) (runs @ s1) (length runs) (length pre))"
    "spliced (els dst) (vcn (hd runs)) (vcn t) (\<lambda>v. the (rl_map runs v)) new"
    by (rule merge_splice_in_hole [OF assms(1,2,4,3,5,6) runs(1) s(1) runs(2) s(2) assms(9,10)])
  have "spliced (els dst) (vcn (hd runs)) (vcn t) (rl_lookup (els src)) new"
    using new(2) by (rule spliced_cong) (simp add: s(4))
  then show ?thesis using new(1) d(1) assms(8) unfolding M splice_outcome_def by auto
qed

text \<open>
  C16. Filling a hole. The source's runs lie inside a hole or an unmapped part \<open>d\<close> of the
  destination and end in a not-mapped end marker, as for newly allocated clusters and for an
  extent that is being mapped. Then \<open>ntfs_rl_merge\<close> reports that there is no memory and
  leaves the destination alone, or the merged runlist is well-formed, maps the vcns of the
  source's runs as the source does, and all others as the destination did.
\<close>

theorem ntfs_rl_merge_fills_hole:
  assumes "alloc_ok io" and "rl_arr_ok dst" and "rl_wf (els dst)" and "els dst = pre @ d # post"
    and "rlen d \<noteq> 0" "lcn d < 0"
    and "merge_source src runs t" and "lcn t = LCN_RL_NOT_MAPPED"
    and "vcn d \<le> vcn (hd runs)" and "vcn t \<le> vcn d + rlen d"
  shows "ntfs_rl_merge io dst src = Some (ENOMEM, dst) \<or>
    (\<exists>r'. ntfs_rl_merge io dst src = Some (EOK, r') \<and> rl_arr_ok r' \<and> (rl_mem_ok dst \<longrightarrow> rl_mem_ok r') \<and>
       spliced (els dst) (vcn (hd runs)) (vcn t) (rl_lookup (els src)) (els r'))"
  by (rule rl_merge_in_hole [OF assms])

theorem ntfs_rl_merge_fills_hole_witness:
  "\<exists>err r'. ntfs_rl_merge (\<lambda>n. None)
     \<lparr>rl = [\<lparr>vcn = 0, lcn = 50, rlen = 2\<rparr>, \<lparr>vcn = 2, lcn = -1, rlen = 8\<rparr>, \<lparr>vcn = 10, lcn = -3, rlen = 0\<rparr>] @
        replicate 39 \<lparr>vcn = 0, lcn = 0, rlen = 0\<rparr>, elements = 3, alloc_count = 42\<rparr>
     \<lparr>rl = [\<lparr>vcn = 2, lcn = 70, rlen = 3\<rparr>, \<lparr>vcn = 5, lcn = -2, rlen = 0\<rparr>],
        elements = 2, alloc_count = 2\<rparr> = Some (err, r') \<and>
     (err = ENOMEM \<or> err = EOK \<and> rl_lookup (els r') 3 = 71 \<and> rl_lookup (els r') 6 = LCN_HOLE)"
proof -
  let ?e = "\<lparr>vcn = 0, lcn = 0, rlen = 0\<rparr>"
  let ?d = "[\<lparr>vcn = 0, lcn = 50, rlen = 2\<rparr>, \<lparr>vcn = 2, lcn = -1, rlen = 8\<rparr>, \<lparr>vcn = 10, lcn = -3, rlen = 0\<rparr>]"
  let ?s = "[\<lparr>vcn = 2, lcn = 70, rlen = 3\<rparr>, \<lparr>vcn = 5, lcn = -2, rlen = 0\<rparr>]"
  let ?dst = "\<lparr>rl = ?d @ replicate 39 ?e, elements = 3, alloc_count = 42\<rparr>"
  let ?src = "\<lparr>rl = ?s, elements = 2, alloc_count = 2\<rparr>"
  have d: "els ?dst = ?d" "els ?src = ?s" by simp_all
  have pre: "alloc_ok (\<lambda>n. None)" "rl_arr_ok ?dst" "rl_wf ?d"
    by (simp_all add: alloc_ok_def rl_arr_ok_def rl_wf_def rl_term_def)
  have src: "merge_source ?src [\<lparr>vcn = 2, lcn = 70, rlen = 3\<rparr>] \<lparr>vcn = 5, lcn = -2, rlen = 0\<rparr>"
    unfolding merge_source_def d(2)
    by (auto simp: rl_from_Cons rl_term_def intro: exI [of _ 2])
  have l: "rl_lookup ?s 3 = 71" "rl_lookup ?d 6 = LCN_HOLE" by (simp_all add: rl_lookup_def run_lcn_def)
  from ntfs_rl_merge_fills_hole [OF pre(1,2), unfolded d(1), OF pre(3) _ _ _ src,
      of "[\<lparr>vcn = 0, lcn = 50, rlen = 2\<rparr>]" "\<lparr>vcn = 2, lcn = -1, rlen = 8\<rparr>" "[\<lparr>vcn = 10, lcn = -3, rlen = 0\<rparr>]"]
  consider "ntfs_rl_merge (\<lambda>n. None) ?dst ?src = Some (ENOMEM, ?dst)"
    | r' where "ntfs_rl_merge (\<lambda>n. None) ?dst ?src = Some (EOK, r')" "spliced ?d 2 5 (rl_lookup ?s) (els r')"
    unfolding d(2) by auto
  then show ?thesis by cases (use l in \<open>auto simp: spliced_def\<close>)
qed

lemma spliced_at_end:
  assumes wf: "rl_chain 0 pre (vcn t0)" "rl_term t0" and runs: "rl_chain (vcn t0) runs b"
    and "\<forall>e \<in> set runs. LCN_HOLE \<le> lcn e" "runs \<noteq> []"
  shows "spliced (pre @ [t0]) (vcn t0) b (\<lambda>v. the (rl_map runs v)) (pre @ runs @ [t0\<lparr>vcn := b\<rparr>])"
proof -
  have t: "rl_from b [t0\<lparr>vcn := b\<rparr>]" using wf(2) by (simp add: rl_from_Cons rl_term_def)
  have "rl_wf (pre @ runs @ [t0\<lparr>vcn := b\<rparr>])" using wf(1) runs t by (simp add: rl_wf_from rl_from_append)
  moreover have "rl_lookup [x] v = lcn x" if "rlen x = 0" for v x using that by (simp add: rl_lookup_def)
  moreover have "rlen t0 = 0" using wf(2) by (simp add: rl_term_def)
  moreover have "rl_tight (pre @ runs @ [t0\<lparr>vcn := b\<rparr>])" if "rl_tight (pre @ [t0])"
    using rl_tight_runs [OF that assms(4,5), where f = "[]" and g = "[t0\<lparr>vcn := b\<rparr>]" and y = "t0\<lparr>vcn := b\<rparr>"] by simp
  ultimately show ?thesis using rl_chain_le [OF runs]
    by (auto simp: spliced_def rl_lookup_append [OF wf(1)] rl_lookup_append [OF runs])
qed

text \<open>
  C17. Extending an attribute. The source's runs start where the destination ends, and both
  runlists end in the end of attribute marker. Then \<open>ntfs_rl_merge\<close> reports that there is no
  memory and leaves the destination alone, or the merged runlist is well-formed, ends where
  the source ends, maps the old vcns as before and the new ones as the source does.
\<close>

theorem ntfs_rl_merge_extends:
  assumes "alloc_ok io" and "rl_arr_ok dst" and "rl_wf (els dst)" and "els dst = pre @ [t0]" and "lcn t0 = LCN_ENOENT"
    and "merge_source src runs t" and "lcn t = LCN_ENOENT" and "vcn (hd runs) = vcn t0"
  shows "ntfs_rl_merge io dst src = Some (ENOMEM, dst) \<or>
    (\<exists>r'. ntfs_rl_merge io dst src = Some (EOK, r') \<and> rl_arr_ok r' \<and> (rl_mem_ok dst \<longrightarrow> rl_mem_ok r') \<and>
       spliced (els dst) (vcn t0) (vcn t) (rl_lookup (els src)) (els r') \<and>
       vcn (last (els r')) = vcn t \<and> lcn (last (els r')) = LCN_ENOENT)"
proof -
  obtain u g where s: "length runs < rl_max" "rl_chain (vcn (hd runs)) runs (vcn t)" "0 \<le> vcn (hd runs)"
    "\<And>v. vcn (hd runs) \<le> v \<Longrightarrow> v < vcn t \<Longrightarrow> rl_lookup (els src) v = the (rl_map runs v)"
    by (rule merge_sourceD [OF assms(6)]) (rule that; assumption)
  have runs: "runs \<noteq> []" "\<forall>e \<in> set runs. LCN_HOLE \<le> lcn e" using assms(6) by (simp_all add: merge_source_def)
  have hd: "0 < rlen (hd runs)" "LCN_HOLE \<le> lcn (hd runs)" using s(2) runs by (cases runs; simp)+
  have c: "rl_chain 0 pre (vcn t0)" "rl_term t0" using assms(3) unfolding assms(4) by (simp_all add: rl_simps)
  define g' where "g' = drop (elements dst) (rl dst)"
  have rl: "rl dst = pre @ t0 # g'" using append_take_drop_id [of "elements dst" "rl dst"] unfolding assms(4) g'_def by simp
  have skip: "rl_skip (rl dst) (vcn (hd runs)) = Some (length pre)"
    unfolding rl by (rule rl_skip_split [OF c, of "vcn (hd runs)" g']) (use assms(8) c in \<open>auto simp: rl_simps dest!: rl_chain_le\<close>)
  have rd: "rd (rl dst) (length pre) = Some t0" by (simp add: rl mem_simps)
  have ne: "elements dst \<noteq> 0" using assms(4) by (cases "elements dst") auto
  obtain s1 where M: "ntfs_rl_merge io dst src = do {
     (err, r) \<leftarrow> merge_splice io dst (lcn t0 < LCN_RL_NOT_MAPPED \<or> vcn t0 = vcn (hd runs))
       (LCN_RL_NOT_MAPPED \<le> lcn t0 \<and> vcn t0 + rlen t0 \<le> vcn t) (runs @ s1) (length runs) (length pre);
     if err \<noteq> EOK then Some (err, r)
     else if lcn t = LCN_ENOENT then merge_marker io r (vcn t)
     else Some (EOK, r) }"
    using ntfs_rl_merge_reduce [OF assms(6) ne skip rd, of io] assms(5,7) by auto
  define t1 where "t1 = t0\<lparr>vcn := vcn t\<rparr>"
  let ?new = "left_pre pre runs @ left_src pre runs @ [t1]"
  have "spliced (els dst) (vcn t0) (vcn t) (\<lambda>v. the (rl_map runs v)) (pre @ runs @ [t1])"
    using spliced_at_end [OF c, of runs "vcn t"] s(2) assms(8) runs unfolding assms(4) t1_def by simp
  then have "spliced (els dst) (vcn t0) (vcn t) (\<lambda>v. the (rl_map runs v)) ?new"
    using spliced_eqv [OF _ join_left_eqv [OF runs(1) hd(2)]] by blast
  then have new: "spliced (els dst) (vcn t0) (vcn t) (rl_lookup (els src)) ?new"
    by (rule spliced_cong) (simp add: s(4) assms(8))
  have O: "splice_outcome dst ?new (ntfs_rl_insert io dst (runs @ s1) (length runs) (length pre))"
    using insert_outcome [OF assms(1,2,4,3) refl runs(1), of t1 "vcn t" s1] s(1) hd(1) assms(5,8) spliced_wf [OF new]
    by (simp add: t1_def)
  have marker: "merge_marker io r' (vcn t) = Some (EOK, r')" if "rl_arr_ok r'" "els r' = ?new" for r'
  proof -
    have "elements r' - 1 = length (left_pre pre runs @ left_src pre runs)"
      using rl_arr_okD(3) [OF that(1)] unfolding that(2) by simp
    moreover have "rl r' = (left_pre pre runs @ left_src pre runs) @ t1 # drop (elements r') (rl r')"
      using append_take_drop_id [of "elements r'" "rl r'"] unfolding that(2) by simp
    ultimately obtain xs ys where "rl r' = xs @ t1 # ys" "elements r' - 1 = length xs" by blast
    moreover have "t1\<lparr>lcn := LCN_ENOENT\<rparr> = t1" "vcn t1 = vcn t" using assms(5) by (simp_all add: t1_def)
    ultimately show ?thesis by (simp add: merge_marker_def mem_simps)
  qed
  from O consider "ntfs_rl_insert io dst (runs @ s1) (length runs) (length pre) = Some (ENOMEM, dst)"
    | r' where "ntfs_rl_insert io dst (runs @ s1) (length runs) (length pre) = Some (EOK, r')" "rl_arr_ok r'" "els r' = ?new"
      "rl_mem_ok dst \<longrightarrow> rl_mem_ok r'"
    by (auto simp: splice_outcome_def)
  then show ?thesis
  proof cases
    case 1
    then show ?thesis unfolding M by (simp add: merge_splice_def assms(5))
  next
    case (2 r')
    then show ?thesis using new marker [OF 2(2,3)] assms(5,7) unfolding M by (simp add: merge_splice_def t1_def)
  qed
qed

theorem ntfs_rl_merge_extends_witness:
  "\<exists>err r'. ntfs_rl_merge (\<lambda>n. None)
     \<lparr>rl = [\<lparr>vcn = 0, lcn = 50, rlen = 2\<rparr>, \<lparr>vcn = 2, lcn = -3, rlen = 0\<rparr>] @
        replicate 40 \<lparr>vcn = 0, lcn = 0, rlen = 0\<rparr>, elements = 2, alloc_count = 42\<rparr>
     \<lparr>rl = [\<lparr>vcn = 2, lcn = 70, rlen = 3\<rparr>, \<lparr>vcn = 5, lcn = -3, rlen = 0\<rparr>],
        elements = 2, alloc_count = 2\<rparr> = Some (err, r') \<and>
     (err = ENOMEM \<or> err = EOK \<and> rl_lookup (els r') 3 = 71 \<and> rl_lookup (els r') 1 = 51)"
proof -
  let ?e = "\<lparr>vcn = 0, lcn = 0, rlen = 0\<rparr>"
  let ?d = "[\<lparr>vcn = 0, lcn = 50, rlen = 2\<rparr>, \<lparr>vcn = 2, lcn = -3, rlen = 0\<rparr>]"
  let ?s = "[\<lparr>vcn = 2, lcn = 70, rlen = 3\<rparr>, \<lparr>vcn = 5, lcn = -3, rlen = 0\<rparr>]"
  let ?dst = "\<lparr>rl = ?d @ replicate 40 ?e, elements = 2, alloc_count = 42\<rparr>"
  let ?src = "\<lparr>rl = ?s, elements = 2, alloc_count = 2\<rparr>"
  have d: "els ?dst = ?d" "els ?src = ?s" by simp_all
  have pre: "alloc_ok (\<lambda>n. None)" "rl_arr_ok ?dst" "rl_wf ?d"
    by (simp_all add: alloc_ok_def rl_arr_ok_def rl_wf_def rl_term_def)
  have src: "merge_source ?src [\<lparr>vcn = 2, lcn = 70, rlen = 3\<rparr>] \<lparr>vcn = 5, lcn = -3, rlen = 0\<rparr>"
    unfolding merge_source_def d(2)
    by (auto simp: rl_from_Cons rl_term_def intro: exI [of _ 2])
  have l: "rl_lookup ?s 3 = 71" "rl_lookup ?d 1 = 51" by (simp_all add: rl_lookup_def run_lcn_def)
  from ntfs_rl_merge_extends [OF pre(1,2), unfolded d(1), OF pre(3) _ _ src,
      of "[\<lparr>vcn = 0, lcn = 50, rlen = 2\<rparr>]" "\<lparr>vcn = 2, lcn = -3, rlen = 0\<rparr>"]
  consider "ntfs_rl_merge (\<lambda>n. None) ?dst ?src = Some (ENOMEM, ?dst)"
    | r' where "ntfs_rl_merge (\<lambda>n. None) ?dst ?src = Some (EOK, r')" "spliced ?d 2 5 (rl_lookup ?s) (els r')"
    unfolding d(2) by auto
  then show ?thesis by cases (use l in \<open>auto simp: spliced_def\<close>)
qed

end
