(* ===== verification/NTFS_Mapping_Pairs.thy ===== *)
theory NTFS_Mapping_Pairs
  imports NTFS_Runlist_Merge
begin

text \<open>
  The mapping pairs array, the on-disk form of a runlist, of \<open>kext/ntfs_runlist.c\<close>: its size
  (\<open>ntfs_get_size_for_mapping_pairs\<close>), building it from a runlist
  (\<open>ntfs_mapping_pairs_build\<close>) and reading it into a runlist
  (\<open>ntfs_mapping_pairs_decompress\<close>).

  A mapping pair is a header byte with the number of bytes of a run's length in its low and
  of its lcn in its high half, then the length and the change of the lcn from the run
  before, as signed little-endian numbers of as few bytes as possible.

  A buffer is a list of bytes and a pointer into it an index. Signed 64-bit arithmetic on
  numbers that come from the disk is written with \<open>s64\<close>.
\<close>

section \<open>Numbers of as few bytes as possible\<close>

text \<open>The loop \<open>do l >>= 8, i++ while (l != 0 && l != -1)\<close>.\<close>

function sig_count :: "int \<Rightarrow> nat" where
  "sig_count l = (let l' = l div 256 in if l' \<noteq> 0 \<and> l' \<noteq> - 1 then Suc (sig_count l') else 1)"
  by pat_completeness auto
termination
  by (relation "measure (\<lambda>l. nat \<bar>l\<bar>)") (auto simp: abs_if)

declare sig_count.simps [simp del]

definition sig_wrong_sign :: "int \<Rightarrow> nat \<Rightarrow> bool" where
  "sig_wrong_sign n i = (let j = s8 (n div 256 ^ (i - 1)) in (n < 0 \<and> 0 \<le> j) \<or> (0 < n \<and> j < 0))"

definition ntfs_get_nr_significant_bytes :: "int \<Rightarrow> nat" where
  "ntfs_get_nr_significant_bytes n = (let i = sig_count n in if sig_wrong_sign n i then i + 1 else i)"

text \<open>
  Writing such a number at \<open>dst\<close>: the memory afterwards, and the number of bytes or \<open>None\<close>
  for \<open>-ENOSPC\<close>.
\<close>

function sig_write :: "u8 list \<Rightarrow> nat \<Rightarrow> nat \<Rightarrow> int \<Rightarrow> nat \<Rightarrow> (u8 list \<times> nat option) option" where
  "sig_write mem dst dst_max l i =
     (if dst_max < dst then Some (mem, None)
      else do {
        mem \<leftarrow> wr mem dst (word_of_int l);
        let l' = l div 256;
        if l' \<noteq> 0 \<and> l' \<noteq> - 1 then sig_write mem (dst + 1) dst_max l' (i + 1)
        else Some (mem, Some (i + 1)) })"
  by pat_completeness auto
termination
  by (relation "measure (\<lambda>(mem, dst, dst_max, l, i). nat \<bar>l\<bar>)") (auto simp: abs_if)

declare sig_write.simps [simp del]

definition ntfs_write_significant_bytes :: "u8 list \<Rightarrow> nat \<Rightarrow> nat \<Rightarrow> int \<Rightarrow> (u8 list \<times> nat option) option" where
  "ntfs_write_significant_bytes mem dst dst_max n = do {
     (mem, r) \<leftarrow> sig_write mem dst dst_max n 0;
     case r of
       None \<Rightarrow> Some (mem, None)
     | Some i \<Rightarrow>
         let dst = dst + i; j = s8 (n div 256 ^ (i - 1)) in
         if n < 0 \<and> 0 \<le> j then
           (if dst_max < dst then Some (mem, None)
            else do { mem \<leftarrow> wr mem dst (- 1); Some (mem, Some (i + 1)) })
         else if 0 < n \<and> j < 0 then
           (if dst_max < dst then Some (mem, None)
            else do { mem \<leftarrow> wr mem dst 0; Some (mem, Some (i + 1)) })
         else Some (mem, Some i) }"

section \<open>Size and building\<close>

text \<open>
  The length of a run, capped where \<open>last_vcn\<close> lies inside it, and whether it does. The array
  is passed from the run on.
\<close>

fun cap_run :: "ntfs_rl_element list \<Rightarrow> int \<Rightarrow> (int \<times> bool) option" where
  "cap_run [] last_vcn = None"
| "cap_run (e # es) last_vcn =
     (if 0 \<le> last_vcn then
        (case es of
           [] \<Rightarrow> None
         | nx # _ \<Rightarrow>
             if last_vcn < vcn nx then
               Some (if last_vcn + 1 < vcn nx then last_vcn + 1 - vcn e else rlen e, True)
             else Some (rlen e, False))
      else Some (rlen e, False))"

definition mp_run_error :: "ntfs_rl_element \<Rightarrow> errno" where
  "mp_run_error e = (if lcn e = LCN_RL_NOT_MAPPED then EINVAL else EIO)"

text \<open>The loop over the full runs, with the size so far in \<open>rls\<close>.\<close>

fun mp_size_runs :: "nat \<Rightarrow> ntfs_rl_element list \<Rightarrow> int \<Rightarrow> int \<Rightarrow> bool \<Rightarrow> nat \<Rightarrow> (errno + nat) option" where
  "mp_size_runs major_ver [] last_vcn prev_lcn the_end rls = None"
| "mp_size_runs major_ver (e # es) last_vcn prev_lcn the_end rls =
     (if rlen e \<noteq> 0 \<and> \<not> the_end then
        (if rlen e < 0 \<or> lcn e < LCN_HOLE then Some (Inl (mp_run_error e))
         else do {
           (len, the_end) \<leftarrow> cap_run (e # es) last_vcn;
           let rls = rls + 1 + ntfs_get_nr_significant_bytes len;
           if 0 \<le> lcn e \<or> major_ver < 3 then
             mp_size_runs major_ver es last_vcn (lcn e) the_end
               (rls + ntfs_get_nr_significant_bytes (s64 (lcn e - prev_lcn)))
           else mp_size_runs major_ver es last_vcn prev_lcn the_end rls })
      else Some (Inr rls))"

definition ntfs_get_size_for_mapping_pairs ::
    "nat \<Rightarrow> ntfs_rl_element list \<Rightarrow> int \<Rightarrow> int \<Rightarrow> (errno + nat) option" where
  "ntfs_get_size_for_mapping_pairs major_ver xs first_vcn last_vcn =
     (if first_vcn < 0 \<or> last_vcn < - 1 \<or> (0 \<le> last_vcn \<and> last_vcn < first_vcn) then None
      else if xs = [] then (if first_vcn \<noteq> 0 \<or> 0 < last_vcn then None else Some (Inr 1))
      else do {
        i \<leftarrow> rl_skip xs first_vcn;
        e \<leftarrow> rd xs i;
        if (rlen e = 0 \<and> vcn e < first_vcn) \<or> first_vcn < vcn e then Some (Inl EINVAL)
        else if vcn e < first_vcn then
          (if rlen e < 0 \<or> lcn e < LCN_HOLE then Some (Inl (mp_run_error e))
           else do {
             (len, the_end) \<leftarrow> cap_run (drop i xs) last_vcn;
             let delta = first_vcn - vcn e;
             let rls = 1 + 1 + ntfs_get_nr_significant_bytes (len - delta);
             let (prev_lcn, rls) =
               (if 0 \<le> lcn e \<or> major_ver < 3 then
                  (let prev_lcn = (if 0 \<le> lcn e then lcn e + delta else lcn e) in
                   (prev_lcn, rls + ntfs_get_nr_significant_bytes prev_lcn))
                else (0, rls));
             mp_size_runs major_ver (drop (i + 1) xs) last_vcn prev_lcn the_end rls })
        else mp_size_runs major_ver (drop i xs) last_vcn 0 False 1 })"

text \<open>
  One mapping pair, written at \<open>dst\<close>: the length and, if there is one, the change of the lcn,
  then the header in front of them. \<open>None\<close> in the result is \<open>size_err\<close>.
\<close>

definition mp_build_pair :: "u8 list \<Rightarrow> nat \<Rightarrow> nat \<Rightarrow> int \<Rightarrow> int option \<Rightarrow> (u8 list \<times> nat option) option" where
  "mp_build_pair mem dst dst_max len delta_lcn = do {
     (mem, len_len) \<leftarrow> ntfs_write_significant_bytes mem (dst + 1) dst_max len;
     case len_len of
       None \<Rightarrow> Some (mem, None)
     | Some len_len \<Rightarrow> do {
         (mem, lcn_len) \<leftarrow>
           (case delta_lcn of
              Some d \<Rightarrow> ntfs_write_significant_bytes mem (dst + 1 + len_len) dst_max d
            | None \<Rightarrow> Some (mem, Some 0));
         case lcn_len of
           None \<Rightarrow> Some (mem, None)
         | Some lcn_len \<Rightarrow>
             let dst_next = dst + len_len + lcn_len + 1 in
             if dst_max < dst_next then Some (mem, None)
             else do {
               mem \<leftarrow> wr mem dst (word_of_nat (lcn_len * 16 + len_len));
               Some (mem, Some dst_next) } } }"

text \<open>The end of the function: the vcn stored through \<open>stop_vcn\<close> and the terminator byte.\<close>

definition mp_finish :: "errno \<Rightarrow> u8 list \<Rightarrow> nat \<Rightarrow> ntfs_rl_element \<Rightarrow> (errno \<times> int option \<times> u8 list) option" where
  "mp_finish err mem dst e = do { mem \<leftarrow> wr mem dst 0; Some (err, Some (vcn e), mem) }"

fun mp_build_runs ::
    "nat \<Rightarrow> u8 list \<Rightarrow> nat \<Rightarrow> nat \<Rightarrow> ntfs_rl_element list \<Rightarrow> int \<Rightarrow> int \<Rightarrow> bool \<Rightarrow> (errno \<times> int option \<times> u8 list) option" where
  "mp_build_runs major_ver mem dst dst_max [] last_vcn prev_lcn the_end = None"
| "mp_build_runs major_ver mem dst dst_max (e # es) last_vcn prev_lcn the_end =
     (if rlen e \<noteq> 0 \<and> \<not> the_end then
        (if rlen e < 0 \<or> lcn e < LCN_HOLE then Some (mp_run_error e, None, mem)
         else do {
           (len, the_end) \<leftarrow> cap_run (e # es) last_vcn;
           let stored = (0 \<le> lcn e \<or> major_ver < 3);
           (mem, next) \<leftarrow> mp_build_pair mem dst dst_max len (if stored then Some (s64 (lcn e - prev_lcn)) else None);
           case next of
             None \<Rightarrow> mp_finish ENOSPC mem dst e
           | Some dst_next \<Rightarrow>
               mp_build_runs major_ver mem dst_next dst_max es last_vcn (if stored then lcn e else prev_lcn) the_end })
      else mp_finish EOK mem dst e)"

definition ntfs_mapping_pairs_build ::
    "nat \<Rightarrow> u8 list \<Rightarrow> nat \<Rightarrow> ntfs_rl_element list \<Rightarrow> int \<Rightarrow> int \<Rightarrow> (errno \<times> int option \<times> u8 list) option" where
  "ntfs_mapping_pairs_build major_ver mem dst_len xs first_vcn last_vcn =
     (if first_vcn < 0 \<or> last_vcn < - 1 \<or> (0 \<le> last_vcn \<and> last_vcn < first_vcn) \<or> dst_len < 1 then None
      else if xs = [] then
        (if first_vcn \<noteq> 0 \<or> 0 < last_vcn then None
         else do { mem \<leftarrow> wr mem 0 0; Some (EOK, Some 0, mem) })
      else do {
        i \<leftarrow> rl_skip xs first_vcn;
        e \<leftarrow> rd xs i;
        if (rlen e = 0 \<and> vcn e < first_vcn) \<or> first_vcn < vcn e then Some (EINVAL, None, mem)
        else do {
          let dst_max = dst_len - 1;
          if vcn e < first_vcn then
            (if rlen e < 0 \<or> lcn e < LCN_HOLE then Some (mp_run_error e, None, mem)
             else do {
               (len, the_end) \<leftarrow> cap_run (drop i xs) last_vcn;
               let delta = first_vcn - vcn e;
               let stored = (0 \<le> lcn e \<or> major_ver < 3);
               let prev_lcn = (if stored then (if 0 \<le> lcn e then lcn e + delta else lcn e) else 0);
               (mem, next) \<leftarrow> mp_build_pair mem 0 dst_max (len - delta) (if stored then Some prev_lcn else None);
               case next of
                 None \<Rightarrow> mp_finish ENOSPC mem 0 e
               | Some dst_next \<Rightarrow> mp_build_runs major_ver mem dst_next dst_max (drop (i + 1) xs) last_vcn prev_lcn the_end })
          else mp_build_runs major_ver mem 0 dst_max (drop i xs) last_vcn 0 False } })"

section \<open>Reading\<close>

text \<open>
  What the function reads of an attribute record, and of the volume. \<open>a_mem\<close> is the memory
  from the start of the record on.
\<close>

record attr_record =
  non_resident :: bool
  a_length :: nat
  mapping_pairs_offset :: nat
  lowest_vcn :: int
  highest_vcn :: int
  allocated_size :: int
  a_mem :: "u8 list"

record mp_volume =
  cluster_size_mask :: int
  cluster_size_shift :: nat

text \<open>
  The signed number of \<open>n\<close> bytes behind \<open>base\<close>: the last byte gives the sign, the others are
  shifted in.
\<close>

fun mp_read_rest :: "u8 list \<Rightarrow> nat \<Rightarrow> nat \<Rightarrow> int \<Rightarrow> int option" where
  "mp_read_rest mem base 0 acc = Some acc"
| "mp_read_rest mem base (Suc n) acc = do {
     x \<leftarrow> rd mem (base + Suc n);
     mp_read_rest mem base n (s64 (s64 (acc * 256) + uint x)) }"

definition mp_read :: "u8 list \<Rightarrow> nat \<Rightarrow> nat \<Rightarrow> int option" where
  "mp_read mem base n = do { x \<leftarrow> rd mem (base + n); mp_read_rest mem base (n - 1) (sint x) }"

text \<open>The variables of the loop. \<open>rlcount\<close> is the length of the array \<open>out\<close>.\<close>

record mp_state =
  buf :: nat
  mvcn :: int
  mlcn :: int
  out :: "ntfs_rl_element list"
  rlpos :: nat
  rlcount :: nat

text \<open>One more block of elements, if there are fewer than three left.\<close>

definition mp_grow :: "rl_alloc \<Rightarrow> mp_state \<Rightarrow> (errno + mp_state) option" where
  "mp_grow io s =
     (if rlcount s < rlpos s + 3 then
        (case io (rlcount s + 42) of
           None \<Rightarrow> Some (Inl ENOMEM)
         | Some rl2 \<Rightarrow> do {
             rl2 \<leftarrow> copy_els rl2 0 (out s) 0 (rlcount s);
             Some (Inr (s\<lparr>out := rl2, rlcount := rlcount s + 42\<rparr>)) })
      else Some (Inr s))"

text \<open>The body of the loop behind that: one mapping pair, with header byte \<open>h\<close>.\<close>

definition mp_pair :: "attr_record \<Rightarrow> mp_state \<Rightarrow> nat \<Rightarrow> (errno + mp_state) option" where
  "mp_pair a s h = do {
     xs \<leftarrow> upd (out s) (rlpos s) (\<lambda>e. e\<lparr>vcn := mvcn s\<rparr>);
     let b = h mod 16;
     let c = h div 16;
     if b \<noteq> 0 \<and> a_length a \<le> buf s + b then Some (Inl EIO)
     else do {
       len \<leftarrow> (if b \<noteq> 0 then mp_read (a_mem a) (buf s) b else Some (- 1));
       if len < 0 then Some (Inl EIO)
       else do {
         xs \<leftarrow> upd xs (rlpos s) (\<lambda>e. e\<lparr>rlen := len\<rparr>);
         let s = s\<lparr>out := xs, mvcn := s64 (mvcn s + len)\<rparr>;
         if c = 0 then do {
           xs \<leftarrow> upd xs (rlpos s) (\<lambda>e. e\<lparr>lcn := LCN_HOLE\<rparr>);
           Some (Inr (s\<lparr>out := xs, rlpos := rlpos s + 1, buf := buf s + b + c + 1\<rparr>)) }
         else if a_length a \<le> buf s + (b + c) then Some (Inl EIO)
         else do {
           delta \<leftarrow> mp_read (a_mem a) (buf s + b) c;
           let l = s64 (mlcn s + delta);
           if l < - 1 then Some (Inl EIO)
           else do {
             xs \<leftarrow> upd xs (rlpos s) (\<lambda>e. e\<lparr>lcn := l\<rparr>);
             Some (Inr (s\<lparr>mlcn := l, out := xs, rlpos := rlpos s + 1, buf := buf s + b + c + 1\<rparr>)) } } } } }"

lemma mp_grow_buf: "mp_grow io s = Some (Inr s') \<Longrightarrow> buf s' = buf s"
  by (auto simp: mp_grow_def bind_eq_Some_conv split: if_splits option.splits)

lemma mp_pair_buf: "mp_pair a s h = Some (Inr s') \<Longrightarrow> buf s < buf s'"
  by (auto simp: mp_pair_def bind_eq_Some_conv Let_def split: if_splits)

function mp_loop :: "rl_alloc \<Rightarrow> attr_record \<Rightarrow> mp_state \<Rightarrow> (errno + mp_state) option" where
  "mp_loop io a s =
     (if buf s < a_length a then
        (case rd (a_mem a) (buf s) of
           None \<Rightarrow> None
         | Some x \<Rightarrow>
             if x = 0 then Some (Inr s)
             else (case mp_grow io s of
                 None \<Rightarrow> None
               | Some (Inl err) \<Rightarrow> Some (Inl err)
               | Some (Inr s1) \<Rightarrow>
                   (case mp_pair a s1 (unat x) of
                      None \<Rightarrow> None
                    | Some (Inl err) \<Rightarrow> Some (Inl err)
                    | Some (Inr s2) \<Rightarrow> mp_loop io a s2)))
      else Some (Inr s))"
  by pat_completeness auto
termination
  by (relation "measure (\<lambda>(io, a, s). a_length a - buf s)") (auto dest!: mp_grow_buf mp_pair_buf)

declare mp_loop.simps [simp del]

text \<open>The elements behind the last run: what is not mapped yet, and the terminator.\<close>

definition mp_terminate :: "mp_volume \<Rightarrow> attr_record \<Rightarrow> mp_state \<Rightarrow> (errno + mp_state) option" where
  "mp_terminate vol a s = do {
     let high = highest_vcn a;
     if a_length a \<le> buf s \<or> mvcn s - 1 \<noteq> high then Some (Inl EIO)
     else if lowest_vcn a = 0 then do {
       let max_cluster = s64 (allocated_size a + cluster_size_mask vol) div 2 ^ cluster_size_shift vol - 1;
       if max_cluster < high then Some (Inl EIO)
       else do {
         s \<leftarrow> (if high < max_cluster then do {
                  xs \<leftarrow> upd (out s) (rlpos s)
                    (\<lambda>e. e\<lparr>vcn := mvcn s, rlen := max_cluster - high, lcn := LCN_RL_NOT_MAPPED\<rparr>);
                  Some (s\<lparr>out := xs, mvcn := s64 (mvcn s + (max_cluster - high)), rlpos := rlpos s + 1\<rparr>) }
                else Some s);
         xs \<leftarrow> upd (out s) (rlpos s) (\<lambda>e. e\<lparr>lcn := LCN_ENOENT, vcn := mvcn s, rlen := 0\<rparr>);
         Some (Inr (s\<lparr>out := xs\<rparr>)) } }
     else do {
       xs \<leftarrow> upd (out s) (rlpos s) (\<lambda>e. e\<lparr>lcn := LCN_RL_NOT_MAPPED, vcn := mvcn s, rlen := 0\<rparr>);
       Some (Inr (s\<lparr>out := xs\<rparr>)) } }"

text \<open>The new runlist alone, before it is combined with an existing one. \<open>Inr None\<close> is an empty array.\<close>

definition mp_decode :: "rl_alloc \<Rightarrow> mp_volume \<Rightarrow> attr_record \<Rightarrow> (errno + mp_state option) option" where
  "mp_decode io vol a =
     (if \<not> non_resident a \<or> lowest_vcn a < 0 then Some (Inl EINVAL)
      else if a_length a < mapping_pairs_offset a then Some (Inl EIO)
      else do {
        h \<leftarrow> (if lowest_vcn a = 0 then rd (a_mem a) (mapping_pairs_offset a) else Some 1);
        if h = 0 then Some (Inr None)
        else case io 42 of
          None \<Rightarrow> Some (Inl ENOMEM)
        | Some xs \<Rightarrow> do {
            (xs, pos) \<leftarrow>
              (if lowest_vcn a \<noteq> 0 then do {
                 xs \<leftarrow> upd xs 0 (\<lambda>e. e\<lparr>vcn := 0, lcn := LCN_RL_NOT_MAPPED, rlen := lowest_vcn a\<rparr>);
                 Some (xs, 1) }
               else Some (xs, 0));
            s \<leftarrow> mp_loop io a \<lparr>buf = mapping_pairs_offset a, mvcn = lowest_vcn a, mlcn = 0,
                   out = xs, rlpos = pos, rlcount = 42\<rparr>;
            case s of
              Inl err \<Rightarrow> Some (Inl err)
            | Inr s \<Rightarrow> do {
                s \<leftarrow> mp_terminate vol a s;
                case s of Inl err \<Rightarrow> Some (Inl err) | Inr s \<Rightarrow> Some (Inr (Some s)) } } })"

definition ntfs_mapping_pairs_decompress ::
    "rl_alloc \<Rightarrow> mp_volume \<Rightarrow> attr_record \<Rightarrow> ntfs_runlist \<Rightarrow> (errno \<times> ntfs_runlist) option" where
  "ntfs_mapping_pairs_decompress io vol a r = do {
     s \<leftarrow> mp_decode io vol a;
     case s of
       Inl err \<Rightarrow> Some (err, r)
     | Inr None \<Rightarrow> Some (EOK, r)
     | Inr (Some s) \<Rightarrow>
         let new = \<lparr>rl = out s, elements = rlpos s + 1, alloc_count = rlcount s\<rparr> in
         if elements r = 0 then Some (EOK, new)
         else ntfs_rl_merge io r new }"

section \<open>The encoding\<close>

lemma div_256_Suc: "n div 256 ^ Suc k = n div 256 div 256 ^ k" for n :: int
  by (simp add: zdiv_zmult2_eq)

lemma div_256_Suc': "n div 256 ^ Suc k = n div 256 ^ k div 256" for n :: int
  using zdiv_zmult2_eq [of 256 n "256 ^ k"] by (simp add: mult.commute)

lemma sig_count_pos: "0 < sig_count n"
  by (subst sig_count.simps) (simp add: Let_def)

lemma sig_count_spec: "n div 256 ^ sig_count n = 0 \<or> n div 256 ^ sig_count n = - 1"
proof (induction n rule: sig_count.induct)
  case (1 n)
  show ?case
  proof (cases "n div 256 \<noteq> 0 \<and> n div 256 \<noteq> - 1")
    case True
    then have "sig_count n = Suc (sig_count (n div 256))" by (subst sig_count.simps) (simp add: Let_def)
    then show ?thesis using 1 [OF refl True] by (simp only: div_256_Suc)
  next
    case False
    then have "sig_count n = 1" by (subst sig_count.simps) (auto simp: Let_def)
    then show ?thesis using False by simp
  qed
qed

lemma sig_count_le: "n div 256 ^ Suc k = 0 \<or> n div 256 ^ Suc k = - 1 \<Longrightarrow> sig_count n \<le> Suc k"
proof (induction k arbitrary: n)
  case 0
  then have "sig_count n = 1" by (subst sig_count.simps) (auto simp: Let_def)
  then show ?case by simp
next
  case (Suc k)
  have "sig_count (n div 256) \<le> Suc k" using Suc.prems by (intro Suc.IH) (simp only: div_256_Suc [symmetric])
  then show ?case by (subst sig_count.simps) (simp add: Let_def)
qed

lemma s8_eq: "s8 x = (x + 128) mod 256 - 128"
  unfolding s8_def signed_take_bit_eq_take_bit_shift by (simp add: take_bit_eq_mod)

lemma s8_cases:
  assumes "- 256 \<le> x" "x < 256"
  shows "s8 x = (if x < - 128 then x + 256 else if x < 128 then x else x - 256)"
proof -
  consider "x < - 128" | "- 128 \<le> x" "x < 128" | "128 \<le> x" by linarith
  then show ?thesis
  proof cases
    case 1
    have "(x + 128) mod 256 = (x + 384) mod 256" using mod_add_self2 [of "x + 128" 256] by (simp add: add.commute)
    then show ?thesis using 1 assms by (simp add: s8_eq)
  next
    case 3
    have "(x + 128) mod 256 = (x - 128) mod 256" using mod_add_self2 [of "x - 128" 256] by (simp add: add.commute)
    then show ?thesis using 3 assms by (simp add: s8_eq)
  qed (simp add: s8_eq)
qed

lemma div_256_sign: "0 \<le> n \<Longrightarrow> 0 \<le> n div 256 ^ k" "n < 0 \<Longrightarrow> n div 256 ^ k < 0" for n :: int
  by (simp_all add: pos_imp_zdiv_nonneg_iff pos_imp_zdiv_neg_iff)

text \<open>The top byte of the number has the right sign.\<close>

lemma nr_significant_top:
  assumes "i = ntfs_get_nr_significant_bytes n"
  shows "0 < i" "- 128 \<le> n div 256 ^ (i - 1)" "n div 256 ^ (i - 1) < 128"
proof -
  let ?c = "sig_count n"
  let ?t = "n div 256 ^ (?c - 1)"
  have c: "0 < ?c" by (rule sig_count_pos)
  then have t: "?t div 256 = n div 256 ^ ?c" using div_256_Suc' [of n "?c - 1"] by simp
  then have range: "- 256 \<le> ?t" "?t < 256" using sig_count_spec [of n] by auto
  have w: "sig_wrong_sign n ?c \<longleftrightarrow> ?t < - 128 \<or> 128 \<le> ?t"
    using div_256_sign [of n "?c - 1"] range by (cases "n < 0"; cases "n = 0") (simp_all add: sig_wrong_sign_def s8_cases Let_def)
  have i: "i = (if sig_wrong_sign n ?c then ?c + 1 else ?c)" using assms by (simp add: ntfs_get_nr_significant_bytes_def Let_def)
  show "0 < i" using c i by simp
  show "- 128 \<le> n div 256 ^ (i - 1)" "n div 256 ^ (i - 1) < 128"
    using i w sig_count_spec [of n] by (auto split: if_splits)
qed

lemma nr_significant_le:
  assumes "- 128 \<le> n div 256 ^ k" "n div 256 ^ k < 128"
  shows "ntfs_get_nr_significant_bytes n \<le> Suc k"
proof -
  have "n div 256 ^ Suc k = n div 256 ^ k div 256" by (rule div_256_Suc')
  then have "sig_count n \<le> Suc k" using assms by (intro sig_count_le) auto
  moreover have "\<not> sig_wrong_sign n (Suc k)"
    using assms div_256_sign [of n k] by (auto simp: sig_wrong_sign_def s8_cases Let_def)
  ultimately show ?thesis by (cases "sig_count n = Suc k") (auto simp: ntfs_get_nr_significant_bytes_def Let_def)
qed

lemma nr_significant_le_8: "in_s64 n \<Longrightarrow> ntfs_get_nr_significant_bytes n \<le> 8"
  using nr_significant_le [of n 7] zdiv_mono1 [of "- (2 ^ 63)" n "256 ^ 7"] zdiv_mono1 [of n "2 ^ 63 - 1" "256 ^ 7"] by simp

text \<open>The bytes of a number, and of a mapping pair.\<close>

definition sig_byte :: "int \<Rightarrow> nat \<Rightarrow> u8" where
  "sig_byte n k = word_of_int (n div 256 ^ k)"

definition sig_bytes :: "int \<Rightarrow> u8 list" where
  "sig_bytes n = map (sig_byte n) [0..<ntfs_get_nr_significant_bytes n]"

lemma length_sig_bytes [simp]: "length (sig_bytes n) = ntfs_get_nr_significant_bytes n"
  by (simp add: sig_bytes_def)

definition put :: "u8 list \<Rightarrow> nat \<Rightarrow> u8 list \<Rightarrow> u8 list" where
  "put mem pos bs = take pos mem @ bs @ drop (pos + length bs) mem"

lemma length_put [simp]: "pos + length bs \<le> length mem \<Longrightarrow> length (put mem pos bs) = length mem"
  by (simp add: put_def)

lemma put_put: "pos + length xs + length ys \<le> length mem \<Longrightarrow> put (put mem pos xs) (pos + length xs) ys = put mem pos (xs @ ys)"
  by (simp add: put_def ac_simps)

lemma wr_put: "pos < length mem \<Longrightarrow> wr mem pos x = Some (put mem pos [x])"
  by (simp add: wr_def put_def upd_conv_take_nth_drop)

lemma put_Nil [simp]: "put mem pos [] = mem"
  by (simp add: put_def)

lemma take_put: "pos \<le> length mem \<Longrightarrow> take pos (put mem pos bs) = take pos mem"
  by (simp add: put_def)

definition count_bytes :: "int \<Rightarrow> u8 list" where
  "count_bytes l = map (sig_byte l) [0..<sig_count l]"

lemma length_count_bytes [simp]: "length (count_bytes l) = sig_count l"
  by (simp add: count_bytes_def)

lemma count_bytes_step:
  "count_bytes l = word_of_int l # (if l div 256 \<noteq> 0 \<and> l div 256 \<noteq> - 1 then count_bytes (l div 256) else [])"
proof -
  have "map (sig_byte l) [0..<Suc c] = word_of_int l # map (sig_byte (l div 256)) [0..<c]" for c
    by (simp add: upt_conv_Cons map_Suc_upt [symmetric] sig_byte_def zdiv_zmult2_eq del: upt_Suc)
  then show ?thesis unfolding count_bytes_def by (subst sig_count.simps) (auto simp: Let_def sig_byte_def [of l 0])
qed

text \<open>What a write that does not fit leaves behind.\<close>

definition no_space :: "u8 list \<Rightarrow> nat \<Rightarrow> (u8 list \<times> nat option) option \<Rightarrow> bool" where
  "no_space mem dst x \<longleftrightarrow> (\<exists>mem'. x = Some (mem', None) \<and> length mem' = length mem \<and> take dst mem' = take dst mem)"

lemma no_space_weaken:
  assumes "no_space mem (dst + k) x"
  shows "no_space mem dst x"
proof -
  from assms obtain mem' where m: "x = Some (mem', None)" "length mem' = length mem" "take (dst + k) mem' = take (dst + k) mem"
    by (auto simp: no_space_def)
  have "take dst mem' = take dst mem" using arg_cong [OF m(3), of "take dst"] by (simp add: min_def)
  then show ?thesis using m by (simp add: no_space_def)
qed

lemma no_space_put:
  assumes "no_space (put mem dst bs) (dst + k) x" "dst + length bs \<le> length mem"
  shows "no_space mem dst x"
  using no_space_weaken [OF assms(1)] assms(2) by (simp add: no_space_def take_put)

lemma sig_write_eq:
  assumes "dst_max < length mem"
  shows "if dst + sig_count l \<le> dst_max + 1
    then sig_write mem dst dst_max l i = Some (put mem dst (count_bytes l), Some (i + sig_count l))
    else no_space mem dst (sig_write mem dst dst_max l i)"
  using assms
proof (induction mem dst dst_max l i rule: sig_write.induct)
  case (1 mem dst dst_max l i)
  show ?case
  proof (cases "dst_max < dst")
    case True
    then show ?thesis using sig_count_pos [of l] by (subst (1 2) sig_write.simps) (auto simp: no_space_def)
  next
    case False
    let ?mem = "put mem dst [word_of_int l]"
    have w: "wr mem dst (word_of_int l) = Some ?mem" using False 1(2) by (simp add: wr_put)
    show ?thesis
    proof (cases "l div 256 \<noteq> 0 \<and> l div 256 \<noteq> - 1")
      case True
      have sw: "sig_write mem dst dst_max l i = sig_write ?mem (dst + 1) dst_max (l div 256) (i + 1)"
        using True False w by (subst sig_write.simps) (simp add: Let_def)
      have c: "sig_count l = Suc (sig_count (l div 256))" using True by (subst sig_count.simps) (simp add: Let_def)
      have b: "count_bytes l = [word_of_int l] @ count_bytes (l div 256)" using True by (subst count_bytes_step) simp
      have IH: "if dst + 1 + sig_count (l div 256) \<le> dst_max + 1
          then sig_write ?mem (dst + 1) dst_max (l div 256) (i + 1) = Some (put ?mem (dst + 1) (count_bytes (l div 256)), Some (i + 1 + sig_count (l div 256)))
          else no_space ?mem (dst + 1) (sig_write ?mem (dst + 1) dst_max (l div 256) (i + 1))"
        using True False w 1(2) by (intro 1(1)) auto
      show ?thesis
      proof (cases "dst + sig_count l \<le> dst_max + 1")
        case fits: True
        then have "put ?mem (dst + 1) (count_bytes (l div 256)) = put mem dst (count_bytes l)"
          using put_put [of dst "[word_of_int l]" "count_bytes (l div 256)" mem] c b 1(2) by simp
        then show ?thesis using IH fits c sw by simp
      next
        case nofit: False
        then have "no_space mem dst (sig_write ?mem (dst + 1) dst_max (l div 256) (i + 1))"
          using IH c False 1(2) by (intro no_space_put [of mem dst "[word_of_int l]" 1]) auto
        then show ?thesis using nofit sw by simp
      qed
    next
      case stop: False
      have "sig_write mem dst dst_max l i = Some (?mem, Some (i + 1))"
        using stop False w by (subst sig_write.simps) (auto simp: Let_def)
      moreover have "sig_count l = 1" using stop by (subst sig_count.simps) (auto simp: Let_def)
      moreover have "count_bytes l = [word_of_int l]" using stop by (subst count_bytes_step) auto
      ultimately show ?thesis using False by simp
    qed
  qed
qed

lemma sig_bytes_eq:
  "sig_bytes n = count_bytes n @ (if sig_wrong_sign n (sig_count n) then [if n < 0 then - 1 else 0] else [])"
proof -
  have "sig_byte n (sig_count n) = (if n < 0 then - 1 else 0)"
    using sig_count_spec [of n] div_256_sign [of n "sig_count n"] by (auto simp: sig_byte_def)
  then show ?thesis by (simp add: sig_bytes_def count_bytes_def ntfs_get_nr_significant_bytes_def Let_def)
qed

lemma write_significant_eq:
  assumes "dst_max < length mem"
  shows "if dst + ntfs_get_nr_significant_bytes n \<le> dst_max + 1
    then ntfs_write_significant_bytes mem dst dst_max n = Some (put mem dst (sig_bytes n), Some (ntfs_get_nr_significant_bytes n))
    else no_space mem dst (ntfs_write_significant_bytes mem dst dst_max n)"
proof -
  let ?c = "sig_count n"
  let ?mem = "put mem dst (count_bytes n)"
  let ?x = "if n < 0 then - 1 else 0 :: u8"
  have nr: "ntfs_get_nr_significant_bytes n = (if sig_wrong_sign n ?c then ?c + 1 else ?c)"
    by (simp add: ntfs_get_nr_significant_bytes_def Let_def)
  note sw = sig_write_eq [OF assms, of dst n 0]
  show ?thesis
  proof (cases "dst + ?c \<le> dst_max + 1")
    case False
    then have "no_space mem dst (sig_write mem dst dst_max n 0)" using sw by simp
    then have "no_space mem dst (ntfs_write_significant_bytes mem dst dst_max n)"
      by (auto simp: no_space_def ntfs_write_significant_bytes_def)
    then show ?thesis using False nr by simp
  next
    case True
    then have len: "length ?mem = length mem" using assms by simp
    have W: "ntfs_write_significant_bytes mem dst dst_max n =
      (if sig_wrong_sign n ?c then
         (if dst_max < dst + ?c then Some (?mem, None) else do { mem \<leftarrow> wr ?mem (dst + ?c) ?x; Some (mem, Some (?c + 1)) })
       else Some (?mem, Some ?c))"
      using True sw by (auto simp: ntfs_write_significant_bytes_def sig_wrong_sign_def Let_def)
    have "wr ?mem (dst + ?c) ?x = Some (put mem dst (count_bytes n @ [?x]))" if "dst + ?c \<le> dst_max"
      using that assms len put_put [of dst "count_bytes n" "[?x]" mem] by (simp add: wr_put)
    moreover have "no_space mem dst (Some (?mem, None))" using True assms by (simp add: no_space_def take_put)
    ultimately show ?thesis using True unfolding W nr by (auto simp: sig_bytes_eq)
  qed
qed

definition pair_bytes :: "int \<times> int option \<Rightarrow> u8 list" where
  "pair_bytes p = (let ls = sig_bytes (fst p); cs = (case snd p of Some d \<Rightarrow> sig_bytes d | None \<Rightarrow> []) in
     word_of_nat (length cs * 16 + length ls) # ls @ cs)"

lemma pair_bytes_pos: "0 < length (pair_bytes p)"
  by (simp add: pair_bytes_def Let_def)

lemma put_bytes_behind:
  assumes "pos + Suc (length xs) \<le> length mem"
  shows "put (put mem (Suc pos) xs) pos [x] = put mem pos (x # xs)"
  using assms by (simp add: put_def min_def take_Suc_conv_app_nth)

lemma mp_build_pair_eq:
  assumes "dst_max < length mem"
  shows "if dst + length (pair_bytes (len, d)) \<le> dst_max
    then mp_build_pair mem dst dst_max len d = Some (put mem dst (pair_bytes (len, d)), Some (dst + length (pair_bytes (len, d))))
    else no_space mem dst (mp_build_pair mem dst dst_max len d)"
proof -
  define ls where "ls = sig_bytes len"
  define cs where "cs = (case d of Some d \<Rightarrow> sig_bytes d | None \<Rightarrow> [])"
  have b: "pair_bytes (len, d) = word_of_nat (length cs * 16 + length ls) # ls @ cs" by (simp add: pair_bytes_def Let_def ls_def cs_def)
  let ?mem1 = "put mem (dst + 1) ls"
  let ?w = "case d of Some d \<Rightarrow> ntfs_write_significant_bytes ?mem1 (dst + 1 + length ls) dst_max d | None \<Rightarrow> Some (?mem1, Some 0)"
  show ?thesis
  proof (cases "dst + 1 + length ls \<le> dst_max + 1")
    case False
    then have "no_space mem (dst + 1) (ntfs_write_significant_bytes mem (dst + 1) dst_max len)"
      using write_significant_eq [OF assms, of "dst + 1" len] by (simp add: ls_def)
    then have "no_space mem dst (ntfs_write_significant_bytes mem (dst + 1) dst_max len)" by (rule no_space_weaken)
    then have "no_space mem dst (mp_build_pair mem dst dst_max len d)" by (auto simp: no_space_def mp_build_pair_def)
    then show ?thesis using False b by simp
  next
    case fit1: True
    have len1: "length ?mem1 = length mem" using fit1 assms by simp
    have w1: "ntfs_write_significant_bytes mem (dst + 1) dst_max len = Some (?mem1, Some (length ls))"
      using write_significant_eq [OF assms, of "dst + 1" len] fit1 by (simp add: ls_def)
    have B: "mp_build_pair mem dst dst_max len d = do {
        (mem, lcn_len) \<leftarrow> ?w;
        case lcn_len of
           None \<Rightarrow> Some (mem, None)
         | Some lcn_len \<Rightarrow>
             let dst_next = dst + length ls + lcn_len + 1 in
             if dst_max < dst_next then Some (mem, None)
             else do { mem \<leftarrow> wr mem dst (word_of_nat (lcn_len * 16 + length ls)); Some (mem, Some dst_next) } }"
      unfolding mp_build_pair_def w1 by (simp only: bind.bind_lunit prod.case option.case)
    have w2: "if dst + 1 + length ls + length cs \<le> dst_max + 1
        then ?w = Some (put ?mem1 (dst + 1 + length ls) cs, Some (length cs)) else no_space ?mem1 (dst + 1 + length ls) ?w"
    proof (cases d)
      case None
      then show ?thesis using fit1 by (simp add: cs_def)
    next
      case (Some x)
      then show ?thesis using write_significant_eq [of dst_max ?mem1 "dst + 1 + length ls" x] assms len1 by (simp add: cs_def split: if_split_asm)
    qed
    show ?thesis
    proof (cases "dst + 1 + length ls + length cs \<le> dst_max + 1")
      case False
      then have "no_space ?mem1 (dst + 1 + length ls) ?w" using w2 by simp
      then have "no_space mem (dst + 1) ?w" by (rule no_space_put) (use fit1 assms in simp)
      then have "no_space mem dst ?w" by (rule no_space_weaken)
      then have "no_space mem dst (mp_build_pair mem dst dst_max len d)" unfolding B by (auto simp: no_space_def)
      then show ?thesis using False b by simp
    next
      case fit2: True
      have "put ?mem1 (dst + 1 + length ls) cs = put mem (dst + 1) (ls @ cs)"
        using put_put [of "dst + 1" ls cs mem] fit2 assms by simp
      then have w: "?w = Some (put mem (dst + 1) (ls @ cs), Some (length cs))" using w2 fit2 by simp
      have len2: "length (put mem (dst + 1) (ls @ cs)) = length mem" using fit2 assms by simp
      show ?thesis
      proof (cases "dst + length (pair_bytes (len, d)) \<le> dst_max")
        case True
        then have "wr (put mem (dst + 1) (ls @ cs)) dst (word_of_nat (length cs * 16 + length ls)) = Some (put mem dst (pair_bytes (len, d)))"
          using len2 assms b put_bytes_behind [of dst "ls @ cs" mem] by (simp add: wr_put)
        then show ?thesis using True unfolding B w by (simp add: b Let_def)
      next
        case False
        have "no_space mem (dst + 1) (Some (put mem (dst + 1) (ls @ cs), None))"
          using fit2 assms len2 by (simp add: no_space_def take_put)
        then have "no_space mem dst (Some (put mem (dst + 1) (ls @ cs), None))" by (rule no_space_weaken)
        then show ?thesis using False unfolding B w by (simp add: b Let_def)
      qed
    qed
  qed
qed

section \<open>Size and building agree\<close>

text \<open>The mapping pairs of a list of runs, as numbers: what both functions compute.\<close>

fun mp_pairs :: "nat \<Rightarrow> ntfs_rl_element list \<Rightarrow> int \<Rightarrow> int \<Rightarrow> bool \<Rightarrow> (errno + (int \<times> int option) list) option" where
  "mp_pairs major_ver [] last_vcn prev_lcn the_end = None"
| "mp_pairs major_ver (e # es) last_vcn prev_lcn the_end =
     (if rlen e \<noteq> 0 \<and> \<not> the_end then
        (if rlen e < 0 \<or> lcn e < LCN_HOLE then Some (Inl (mp_run_error e))
         else do {
           (len, the_end) \<leftarrow> cap_run (e # es) last_vcn;
           let stored = (0 \<le> lcn e \<or> major_ver < 3);
           map_option (map_sum id ((#) (len, if stored then Some (s64 (lcn e - prev_lcn)) else None)))
             (mp_pairs major_ver es last_vcn (if stored then lcn e else prev_lcn) the_end) })
      else Some (Inr []))"

abbreviation pairs_bytes :: "(int \<times> int option) list \<Rightarrow> u8 list" where
  "pairs_bytes ps \<equiv> concat (map pair_bytes ps)"

lemma pair_bytes_length: "length (pair_bytes (len, d)) =
   1 + ntfs_get_nr_significant_bytes len + (case d of Some d \<Rightarrow> ntfs_get_nr_significant_bytes d | None \<Rightarrow> 0)"
  by (simp add: pair_bytes_def Let_def split: option.split)

lemma mp_size_runs_eq:
  "mp_size_runs major_ver es last_vcn prev_lcn the_end rls =
   map_option (map_sum id (\<lambda>ps. rls + length (pairs_bytes ps))) (mp_pairs major_ver es last_vcn prev_lcn the_end)"
proof (induction es arbitrary: prev_lcn the_end rls)
  case (Cons e es)
  show ?case
  proof (cases "rlen e \<noteq> 0 \<and> \<not> the_end \<and> \<not> (rlen e < 0 \<or> lcn e < LCN_HOLE)")
    case True
    then show ?thesis
      by (cases "cap_run (e # es) last_vcn")
        (auto simp del: cap_run.simps simp: Cons.IH Let_def pair_bytes_length option.map_comp sum.map_comp comp_def add.assoc)
  next
    case False
    then show ?thesis by auto
  qed
qed simp

lemma mp_build_runs_eq:
  assumes "mp_pairs major_ver es last_vcn prev_lcn the_end = Some (Inr ps)" "dst \<le> dst_max" "dst_max < length mem"
  shows "if dst + length (pairs_bytes ps) \<le> dst_max
    then \<exists>stop. mp_build_runs major_ver mem dst dst_max es last_vcn prev_lcn the_end =
      Some (EOK, Some stop, put mem dst (pairs_bytes ps @ [0]))
    else \<exists>stop mem'. mp_build_runs major_ver mem dst dst_max es last_vcn prev_lcn the_end = Some (ENOSPC, Some stop, mem') \<and>
      length mem' = length mem"
  using assms
proof (induction es arbitrary: mem dst prev_lcn the_end ps)
  case (Cons e es)
  show ?case
  proof (cases "rlen e \<noteq> 0 \<and> \<not> the_end")
    case False
    then have "ps = []" using Cons.prems(1) by auto
    then show ?thesis using False Cons.prems by (auto simp: mp_finish_def wr_put)
  next
    case True
    have ok: "\<not> (rlen e < 0 \<or> lcn e < LCN_HOLE)" using Cons.prems(1) True by (auto split: if_splits)
    define stored where "stored = (0 \<le> lcn e \<or> major_ver < 3)"
    define prev where "prev = (if stored then lcn e else prev_lcn)"
    obtain len te where cap: "cap_run (e # es) last_vcn = Some (len, te)"
      using Cons.prems(1) True ok by (cases "cap_run (e # es) last_vcn") (auto simp del: cap_run.simps)
    define p where "p = (len, if stored then Some (s64 (lcn e - prev_lcn)) else None)"
    have "mp_pairs major_ver (e # es) last_vcn prev_lcn the_end = map_option (map_sum id ((#) p)) (mp_pairs major_ver es last_vcn prev te)"
      using True ok by (simp add: cap Let_def p_def prev_def stored_def del: cap_run.simps)
    then have "map_option (map_sum id ((#) p)) (mp_pairs major_ver es last_vcn prev te) = Some (Inr ps)" using Cons.prems(1) by simp
    then obtain x where x: "mp_pairs major_ver es last_vcn prev te = Some x" "map_sum id ((#) p) x = Inr ps" by auto
    then obtain ps' where ps': "ps = p # ps'" "mp_pairs major_ver es last_vcn prev te = Some (Inr ps')" by (cases x) auto
    have B: "mp_build_runs major_ver mem dst dst_max (e # es) last_vcn prev_lcn the_end = do {
        (mem, next) \<leftarrow> mp_build_pair mem dst dst_max len (snd p);
        case next of
          None \<Rightarrow> mp_finish ENOSPC mem dst e
        | Some dst_next \<Rightarrow> mp_build_runs major_ver mem dst_next dst_max es last_vcn prev te }"
      using True ok by (simp only: mp_build_runs.simps cap bind.bind_lunit prod.case Let_def p_def prev_def stored_def snd_conv if_True if_False simp_thms)
    note bp = mp_build_pair_eq [OF Cons.prems(3), of dst len "snd p"]
    show ?thesis
    proof (cases "dst + length (pair_bytes p) \<le> dst_max")
      case False
      then have "no_space mem dst (mp_build_pair mem dst dst_max len (snd p))" using bp by (simp add: p_def)
      then obtain mem' where "mp_build_pair mem dst dst_max len (snd p) = Some (mem', None)" "length mem' = length mem" by (auto simp: no_space_def)
      then show ?thesis using False ps'(1) Cons.prems(2,3) unfolding B by (simp add: mp_finish_def wr_def)
    next
      case fits: True
      let ?mem = "put mem dst (pair_bytes p)" and ?dst = "dst + length (pair_bytes p)"
      have len: "length ?mem = length mem" using fits Cons.prems(3) by simp
      have go: "mp_build_runs major_ver mem dst dst_max (e # es) last_vcn prev_lcn the_end =
          mp_build_runs major_ver ?mem ?dst dst_max es last_vcn prev te"
        using bp fits unfolding B by (simp add: p_def)
      have "put ?mem ?dst (pairs_bytes ps' @ [0]) = put mem dst (pairs_bytes ps @ [0])" if "?dst + length (pairs_bytes ps') \<le> dst_max"
        using that put_put [of dst "pair_bytes p" "pairs_bytes ps' @ [0]" mem] Cons.prems(3) by (simp add: ps'(1))
      then show ?thesis using Cons.IH [OF ps'(2) fits, of ?mem] Cons.prems(3) len unfolding go by (simp add: ps'(1) add.assoc split: if_split_asm)
    qed
  qed
qed simp

text \<open>The same with a first run that is only partly in the range, which is a pair of its own.\<close>

lemma mp_first_pair_eq:
  assumes "mp_pairs major_ver es last_vcn prev_lcn the_end = Some (Inr ps)" "0 < dst_len" "dst_len \<le> length mem"
  shows "if Suc (length (pairs_bytes (p # ps))) \<le> dst_len
    then \<exists>stop. (do {
        (mem, next) \<leftarrow> mp_build_pair mem 0 (dst_len - 1) (fst p) (snd p);
        case next of
          None \<Rightarrow> mp_finish ENOSPC mem 0 e
        | Some dst_next \<Rightarrow> mp_build_runs major_ver mem dst_next (dst_len - 1) es last_vcn prev_lcn the_end }) =
      Some (EOK, Some stop, put mem 0 (pairs_bytes (p # ps) @ [0]))
    else \<exists>stop mem'. (do {
        (mem, next) \<leftarrow> mp_build_pair mem 0 (dst_len - 1) (fst p) (snd p);
        case next of
          None \<Rightarrow> mp_finish ENOSPC mem 0 e
        | Some dst_next \<Rightarrow> mp_build_runs major_ver mem dst_next (dst_len - 1) es last_vcn prev_lcn the_end }) =
      Some (ENOSPC, Some stop, mem') \<and> length mem' = length mem"
    (is "if _ then \<exists>stop. ?B = _ stop else _")
proof -
  have max: "dst_len - 1 < length mem" using assms(2,3) by linarith
  note bp = mp_build_pair_eq [OF max, of 0 "fst p" "snd p"]
  show ?thesis
  proof (cases "length (pair_bytes p) \<le> dst_len - 1")
    case False
    then have "no_space mem 0 (mp_build_pair mem 0 (dst_len - 1) (fst p) (snd p))" using bp by simp
    then obtain mem' where "mp_build_pair mem 0 (dst_len - 1) (fst p) (snd p) = Some (mem', None)" "length mem' = length mem"
      by (auto simp: no_space_def)
    moreover have "\<not> Suc (length (pairs_bytes (p # ps))) \<le> dst_len" using False by simp
    moreover have "0 < length mem" using max by linarith
    ultimately show ?thesis by (auto simp: mp_finish_def wr_def)
  next
    case True
    let ?mem = "put mem 0 (pair_bytes p)" and ?dst = "length (pair_bytes p)"
    have len: "length ?mem = length mem" using True max by simp
    have go: "?B = mp_build_runs major_ver ?mem ?dst (dst_len - 1) es last_vcn prev_lcn the_end" using bp True by simp
    have eq: "put ?mem ?dst (pairs_bytes ps @ [0]) = put mem 0 (pairs_bytes (p # ps) @ [0])" if "?dst + length (pairs_bytes ps) \<le> dst_len - 1"
      using that put_put [of 0 "pair_bytes p" "pairs_bytes ps @ [0]" mem] max by simp
    have "?dst + length (pairs_bytes ps) \<le> dst_len - 1 \<longleftrightarrow> Suc (length (pairs_bytes (p # ps))) \<le> dst_len" using assms(2) by auto
    then show ?thesis using mp_build_runs_eq [OF assms(1) True, of ?mem] max len eq unfolding go by (simp split: if_split_asm)
  qed
qed

text \<open>
  C13. Size and building agree. Where \<open>ntfs_get_size_for_mapping_pairs\<close> returns a size,
  \<open>ntfs_mapping_pairs_build\<close> for the same runs succeeds in every buffer of at least that size:
  it writes exactly that many bytes, the last of them the terminator, and leaves the rest of
  the memory alone. In a smaller buffer it returns \<open>ENOSPC\<close> and stays inside the memory.
\<close>

theorem mapping_pairs_size_exact:
  assumes "ntfs_get_size_for_mapping_pairs major_ver xs first_vcn last_vcn = Some (Inr n)"
    and "0 < dst_len" and "dst_len \<le> length mem"
  shows "if n \<le> dst_len
    then \<exists>stop bs. ntfs_mapping_pairs_build major_ver mem dst_len xs first_vcn last_vcn = Some (EOK, Some stop, bs @ 0 # drop n mem) \<and>
      Suc (length bs) = n
    else \<exists>stop mem'. ntfs_mapping_pairs_build major_ver mem dst_len xs first_vcn last_vcn = Some (ENOSPC, Some stop, mem') \<and>
      length mem' = length mem"
proof -
  have range: "\<not> (first_vcn < 0 \<or> last_vcn < - 1 \<or> (0 \<le> last_vcn \<and> last_vcn < first_vcn))"
    using assms(1) by (auto simp: ntfs_get_size_for_mapping_pairs_def split: if_splits)
  have put0: "put mem 0 (bs @ [0]) = bs @ 0 # drop (Suc (length bs)) mem" for bs by (simp add: put_def)
  show ?thesis
  proof (cases "xs = []")
    case True
    then have "n = 1" "first_vcn = 0" "\<not> 0 < last_vcn" using assms(1) range by (auto simp: ntfs_get_size_for_mapping_pairs_def split: if_splits)
    moreover have "mem \<noteq> []" using assms(2,3) by auto
    then have "wr mem 0 0 = Some (0 # drop (Suc 0) mem)" using wr_put [of 0 mem 0] put0 [of "[]"] by simp
    ultimately show ?thesis using True range assms(2) by (auto simp: ntfs_mapping_pairs_build_def)
  next
    case False
    obtain i e where i: "rl_skip xs first_vcn = Some i" "rd xs i = Some e" "\<not> ((rlen e = 0 \<and> vcn e < first_vcn) \<or> first_vcn < vcn e)"
      using assms(1) range False by (auto simp: ntfs_get_size_for_mapping_pairs_def bind_eq_Some_conv Let_def split: if_splits)
    show ?thesis
    proof (cases "vcn e < first_vcn")
      case whole: False
      have "mp_size_runs major_ver (drop i xs) last_vcn 0 False 1 = Some (Inr n)"
        using assms(1) range False i whole by (simp add: ntfs_get_size_for_mapping_pairs_def)
      then obtain x where x: "mp_pairs major_ver (drop i xs) last_vcn 0 False = Some x" "map_sum id (\<lambda>ps. 1 + length (pairs_bytes ps)) x = Inr n"
        unfolding mp_size_runs_eq by auto
      then obtain ps where ps: "mp_pairs major_ver (drop i xs) last_vcn 0 False = Some (Inr ps)" "n = Suc (length (pairs_bytes ps))"
        by (cases x) auto
      have "ntfs_mapping_pairs_build major_ver mem dst_len xs first_vcn last_vcn = mp_build_runs major_ver mem 0 (dst_len - 1) (drop i xs) last_vcn 0 False"
        using range False i whole assms(2) by (auto simp: ntfs_mapping_pairs_build_def Let_def)
      moreover have "length (pairs_bytes ps) \<le> dst_len - 1 \<longleftrightarrow> n \<le> dst_len" "dst_len - 1 < length mem" using ps(2) assms(2,3) by auto
      ultimately show ?thesis using mp_build_runs_eq [OF ps(1), of 0 "dst_len - 1" mem] by (auto simp: put0 ps(2) split: if_splits)
    next
      case part: True
      have guard: "\<not> (first_vcn < 0 \<or> last_vcn < - 1 \<or> (0 \<le> last_vcn \<and> last_vcn < first_vcn) \<or> dst_len < 1)"
        using range assms(2) by auto
      define delta where "delta = first_vcn - vcn e"
      define stored where "stored = (0 \<le> lcn e \<or> major_ver < 3)"
      define prev where "prev = (if stored then (if 0 \<le> lcn e then lcn e + delta else lcn e) else 0)"
      have ok: "\<not> (rlen e < 0 \<or> lcn e < LCN_HOLE)"
        using assms(1) range False i part by (auto simp: ntfs_get_size_for_mapping_pairs_def split: if_splits)
      obtain len te where cap: "cap_run (drop i xs) last_vcn = Some (len, te)"
        using assms(1) range False i part ok
        by (cases "cap_run (drop i xs) last_vcn") (auto simp: ntfs_get_size_for_mapping_pairs_def split: if_splits)
      define p where "p = (len - delta, if stored then Some prev else None)"
      have "mp_size_runs major_ver (drop (i + 1) xs) last_vcn prev te (1 + length (pair_bytes p)) = Some (Inr n)"
        using assms(1) range False i part ok cap
        by (auto simp: ntfs_get_size_for_mapping_pairs_def Let_def delta_def prev_def stored_def p_def pair_bytes_length split: if_splits)
      then obtain x where x: "mp_pairs major_ver (drop (i + 1) xs) last_vcn prev te = Some x"
          "map_sum id (\<lambda>ps. 1 + length (pair_bytes p) + length (pairs_bytes ps)) x = Inr n"
        unfolding mp_size_runs_eq by auto
      then obtain ps where ps: "mp_pairs major_ver (drop (i + 1) xs) last_vcn prev te = Some (Inr ps)" "n = Suc (length (pairs_bytes (p # ps)))"
        by (cases x) auto
      have B: "ntfs_mapping_pairs_build major_ver mem dst_len xs first_vcn last_vcn = do {
        (mem, next) \<leftarrow> mp_build_pair mem 0 (dst_len - 1) (fst p) (snd p);
        case next of
          None \<Rightarrow> mp_finish ENOSPC mem 0 e
        | Some dst_next \<Rightarrow> mp_build_runs major_ver mem dst_next (dst_len - 1) (drop (i + 1) xs) last_vcn prev te }"
        unfolding ntfs_mapping_pairs_build_def Let_def if_not_P [OF guard] if_not_P [OF False] i(1,2) bind.bind_lunit
          if_not_P [OF i(3)] if_P [OF part] if_not_P [OF ok] cap prod.case
        by (simp only: p_def prev_def stored_def delta_def fst_conv snd_conv)
      note F = mp_first_pair_eq [OF ps(1) assms(2,3), of p e, folded B, folded ps(2), unfolded put0, folded ps(2)]
      show ?thesis
      proof (cases "n \<le> dst_len")
        case True
        then obtain stop where "ntfs_mapping_pairs_build major_ver mem dst_len xs first_vcn last_vcn =
            Some (EOK, Some stop, pairs_bytes (p # ps) @ 0 # drop n mem)" using F by auto
        then have "\<exists>stop bs. ntfs_mapping_pairs_build major_ver mem dst_len xs first_vcn last_vcn =
            Some (EOK, Some stop, bs @ 0 # drop n mem) \<and> Suc (length bs) = n" using ps(2) [symmetric] by blast
        then show ?thesis using True by simp
      qed (use F in simp)
    qed
  qed
qed

theorem mapping_pairs_size_exact_witness:
  "\<exists>stop bs. ntfs_mapping_pairs_build 3 (replicate 10 7) 10
      [\<lparr>vcn = 0, lcn = 200, rlen = 4\<rparr>, \<lparr>vcn = 4, lcn = -3, rlen = 0\<rparr>] 0 (- 1) =
    Some (EOK, Some stop, bs @ 0 # drop 5 (replicate 10 7)) \<and> Suc (length bs) = 5"
proof -
  have "sig_count 4 = 1" "sig_count 200 = 1" by (simp_all add: sig_count.simps)
  then have "ntfs_get_nr_significant_bytes 4 = 1" "ntfs_get_nr_significant_bytes 200 = 2"
    by (simp_all add: ntfs_get_nr_significant_bytes_def sig_wrong_sign_def s8_eq Let_def)
  then have "ntfs_get_size_for_mapping_pairs 3 [\<lparr>vcn = 0, lcn = 200, rlen = 4\<rparr>, \<lparr>vcn = 4, lcn = -3, rlen = 0\<rparr>] 0 (- 1) = Some (Inr 5)"
    by (simp add: ntfs_get_size_for_mapping_pairs_def rd_def)
  from mapping_pairs_size_exact [OF this, of 10 "replicate 10 7"] show ?thesis by simp
qed

end
