(* ===== verification/NTFS_Mapping_Pairs_Read.thy ===== *)
theory NTFS_Mapping_Pairs_Read
  imports NTFS_Mapping_Pairs
begin

text \<open>
  Reading a mapping pairs array back: \<open>ntfs_mapping_pairs_decompress\<close> undoes
  \<open>ntfs_mapping_pairs_build\<close>. First for one number, then for one pair, then, by induction on
  the runs, for the loop that also grows the array of runs.
\<close>

section \<open>Reading back what was built\<close>

lemma in_s64_div: "in_s64 n \<Longrightarrow> in_s64 (n div 256 ^ k)"
proof -
  assume n: "in_s64 n"
  have p: "0 < (256 :: int) ^ k" by simp
  show ?thesis
  proof (cases "0 \<le> n")
    case True
    have "n div 256 ^ k \<le> n" using zdiv_mono2 [of n 1 "256 ^ k"] True by simp
    moreover have "0 \<le> n div 256 ^ k" using True by (simp add: pos_imp_zdiv_nonneg_iff)
    ultimately show ?thesis using n by simp
  next
    case False
    have "n * 256 ^ k \<le> n * 1" using False p by (intro mult_left_mono_neg) auto
    then have "n \<le> n div 256 ^ k" using zdiv_mono1 [of "n * 256 ^ k" n "256 ^ k"] by simp
    moreover have "n div 256 ^ k < 0" using False by (simp add: pos_imp_zdiv_neg_iff)
    ultimately show ?thesis using n by simp
  qed
qed

lemma s64_shift_in:
  assumes "in_s64 m"
  shows "s64 (s64 (m div 256 * 256) + m mod 256) = m"
proof -
  have "- (2 ^ 55) \<le> m div 256" using zdiv_mono1 [of "- (2 ^ 63)" m 256] assms by simp
  moreover have "m div 256 * 256 \<le> m" by (simp add: minus_mod_eq_div_mult [symmetric])
  ultimately have "in_s64 (m div 256 * 256)" using assms by simp
  then show ?thesis using assms by simp
qed

lemma mp_read_rest_eq:
  assumes "in_s64 n" "\<forall>j < k. rd mem (base + Suc j) = Some (sig_byte n j)"
  shows "mp_read_rest mem base k (n div 256 ^ k) = Some n"
  using assms(2)
proof (induction k)
  case (Suc k)
  have "uint (sig_byte n k) = n div 256 ^ k mod 256" by (simp add: sig_byte_def uint_word_of_int)
  moreover have "n div 256 ^ Suc k = n div 256 ^ k div 256" by (rule div_256_Suc')
  ultimately have "s64 (s64 (n div 256 ^ Suc k * 256) + uint (sig_byte n k)) = n div 256 ^ k"
    using s64_shift_in [OF in_s64_div [OF assms(1)], of k] by simp
  then show ?case using Suc by simp
qed simp

lemma mp_read_eq:
  assumes "in_s64 n" "mem = xs @ sig_bytes n @ ys" "Suc base = length xs"
  shows "mp_read mem base (ntfs_get_nr_significant_bytes n) = Some n"
proof -
  let ?i = "ntfs_get_nr_significant_bytes n"
  note top = nr_significant_top [OF refl, of n]
  have rd: "rd mem (base + Suc j) = Some (sig_byte n j)" if "j < ?i" for j
  proof -
    have "base + Suc j = length xs + j" using assms(3) by simp
    then show ?thesis using that assms(2) by (simp only:) (simp add: rd_def sig_bytes_def nth_append)
  qed
  have "sint (sig_byte n (?i - 1)) = n div 256 ^ (?i - 1)"
    unfolding sig_byte_def sint_sbintrunc' using top(2,3) by (intro signed_take_bit_int_eq_self) simp_all
  moreover have "rd mem (base + ?i) = Some (sig_byte n (?i - 1))" using rd [of "?i - 1"] top(1) by simp
  ultimately show ?thesis using mp_read_rest_eq [OF assms(1), of "?i - 1" mem base] rd by (simp add: mp_read_def)
qed

text \<open>One pair read back.\<close>

definition pair_ok :: "int \<Rightarrow> int \<times> int option \<Rightarrow> bool" where
  "pair_ok prev p \<longleftrightarrow> 0 \<le> fst p \<and> in_s64 (fst p) \<and>
     (case snd p of None \<Rightarrow> True | Some d \<Rightarrow> in_s64 d \<and> - 1 \<le> prev + d \<and> prev + d < 2 ^ 63)"

lemma pair_head:
  assumes "pair_ok prev (len, d)"
    and "b = ntfs_get_nr_significant_bytes len" "c = (case d of Some d \<Rightarrow> ntfs_get_nr_significant_bytes d | None \<Rightarrow> 0)"
  shows "0 < b" "b \<le> 8" "c \<le> 8" "d = None \<longleftrightarrow> c = 0" "unat (hd (pair_bytes (len, d))) = c * 16 + b"
    "hd (pair_bytes (len, d)) \<noteq> 0"
proof -
  show b: "0 < b" "b \<le> 8" using assms nr_significant_top(1) [OF assms(2)] nr_significant_le_8 by (simp_all add: pair_ok_def)
  show c: "c \<le> 8" "d = None \<longleftrightarrow> c = 0"
    using assms nr_significant_le_8 nr_significant_top(1) [OF refl] by (auto simp: pair_ok_def split: option.splits)
  have "hd (pair_bytes (len, d)) = word_of_nat (c * 16 + b)"
    using assms(2,3) by (simp add: pair_bytes_def Let_def split: option.split)
  then show h: "unat (hd (pair_bytes (len, d))) = c * 16 + b" using b c by (simp only: unat_of_nat) simp
  show "hd (pair_bytes (len, d)) \<noteq> 0" using h b by auto
qed

lemma mp_pair_eq:
  assumes out: "out s = es @ x # g" "rlpos s = length es"
    and p: "pair_ok (mlcn s) p" "in_s64 (mvcn s + fst p)"
    and mem: "a_mem a = A @ pair_bytes p @ B" "buf s = length A" "length A + length (pair_bytes p) < a_length a"
  shows "mp_pair a s (unat (hd (pair_bytes p))) = Some (Inr (s\<lparr>
     buf := length A + length (pair_bytes p), mvcn := mvcn s + fst p,
     mlcn := (case snd p of Some d \<Rightarrow> mlcn s + d | None \<Rightarrow> mlcn s),
     out := es @ x\<lparr>vcn := mvcn s, rlen := fst p, lcn := (case snd p of Some d \<Rightarrow> mlcn s + d | None \<Rightarrow> LCN_HOLE)\<rparr> # g,
     rlpos := Suc (length es)\<rparr>))"
proof -
  obtain len d where pd: "p = (len, d)" by (cases p)
  define b where "b = ntfs_get_nr_significant_bytes len"
  define c where "c = (case d of Some d \<Rightarrow> ntfs_get_nr_significant_bytes d | None \<Rightarrow> 0)"
  let ?cs = "case d of Some d \<Rightarrow> sig_bytes d | None \<Rightarrow> []"
  have len: "in_s64 len" "0 \<le> len" using p(1) by (simp_all add: pair_ok_def pd)
  note H = pair_head [OF p(1) [unfolded pd] b_def c_def]
  have b: "0 < b" "b \<le> 8" and c: "c \<le> 8" "d = None \<longleftrightarrow> c = 0" by (rule H)+
  have bytes: "pair_bytes p = word_of_nat (c * 16 + b) # sig_bytes len @ ?cs" "length (pair_bytes p) = Suc (b + c)"
    by (simp_all add: pair_bytes_def pd Let_def b_def c_def split: option.split)
  have h: "unat (hd (pair_bytes p)) = c * 16 + b" using H(5) by (simp add: pd)
  have split: "(c * 16 + b) mod 16 = b" "(c * 16 + b) div 16 = c" using b by simp_all
  have r1: "mp_read (a_mem a) (buf s) b = Some len"
    unfolding b_def using mp_read_eq [OF len(1), of "a_mem a" "A @ [word_of_nat (c * 16 + b)]" "?cs @ B" "buf s"] mem(1,2) bytes(1)
    by (simp add: b_def)
  have u: "upd (out s) (rlpos s) f = Some (es @ f x # g)" for f using out by (simp add: mem_simps)
  have u': "upd (es @ y # g) (rlpos s) f = Some (es @ f y # g)" for y f using out by (simp add: mem_simps)
  show ?thesis
  proof (cases d)
    case None
    then have "c = 0" using c(2) by simp
    then show ?thesis using r1 u u' b len p(2) mem(2,3) bytes(2) out(2) None
      unfolding mp_pair_def h split by (simp add: pd Let_def)
  next
    case (Some d')
    have d': "in_s64 d'" "- 1 \<le> mlcn s + d'" "in_s64 (mlcn s + d')" "c = ntfs_get_nr_significant_bytes d'" "0 < c"
      using p(1) c Some by (auto simp: pair_ok_def pd c_def)
    have r2: "mp_read (a_mem a) (buf s + b) c = Some d'"
      unfolding d'(4) using mp_read_eq [OF d'(1), of "a_mem a" "A @ word_of_nat (c * 16 + b) # sig_bytes len" B "buf s + b"] mem(1,2) bytes(1)
      by (simp add: b_def Some)
    show ?thesis using r1 r2 u u' b len p(2) mem(2,3) bytes(2) out(2) d' Some
      unfolding mp_pair_def h split by (simp add: pd Let_def)
  qed
qed

text \<open>The runs that can be stored: mapped or holes, with numbers that fit.\<close>

definition mp_runs_ok :: "ntfs_rl_element list \<Rightarrow> bool" where
  "mp_runs_ok xs \<longleftrightarrow> (\<forall>e \<in> set xs. LCN_HOLE \<le> lcn e \<and> lcn e < 2 ^ 63 - 1)"

definition mp_stored :: "nat \<Rightarrow> ntfs_rl_element \<Rightarrow> bool" where
  "mp_stored major_ver e \<longleftrightarrow> 0 \<le> lcn e \<or> major_ver < 3"

lemma mp_pairs_Cons:
  assumes "rlen e \<noteq> 0" "0 < rlen e" "LCN_HOLE \<le> lcn e"
  shows "mp_pairs major_ver (e # es) (- 1) prev_lcn False =
    map_option (map_sum id ((#) (rlen e, if mp_stored major_ver e then Some (s64 (lcn e - prev_lcn)) else None)))
      (mp_pairs major_ver es (- 1) (if mp_stored major_ver e then lcn e else prev_lcn) False)"
  using assms by (simp add: Let_def mp_stored_def)

lemma mp_grow_cases:
  assumes "alloc_ok io" "out s = es @ g" "rlpos s = length es" "rlcount s = length (out s)" "2 \<le> length g"
  obtains (nomem) "mp_grow io s = Some (Inl ENOMEM)"
  | (grown) x g' where "mp_grow io s = Some (Inr (s\<lparr>out := es @ x # g', rlcount := Suc (length es + length g')\<rparr>))" "2 \<le> length g'"
proof (cases "rlcount s < rlpos s + 3")
  case False
  then obtain x g' where g: "g = x # g'" "2 \<le> length g'" using assms by (cases g) auto
  have "s\<lparr>out := es @ x # g', rlcount := Suc (length es + length g')\<rparr> = s" using assms g(1) by simp
  then show thesis using False grown [where x = x and g' = g'] g(2) by (simp add: mp_grow_def)
next
  case True
  show thesis
  proof (cases "io (rlcount s + 42)")
    case None
    then show thesis using True nomem by (simp add: mp_grow_def)
  next
    case (Some b)
    then have b: "length b = rlcount s + 42" using assms(1) by (auto simp: alloc_ok_def)
    have cp: "copy_els b 0 (out s) 0 (rlcount s) = Some (out s @ drop (rlcount s) b)"
      using b assms(4) copy_els_prefix [of "rlcount s" b "out s"] by simp
    obtain x g' where g: "g @ drop (rlcount s) b = x # g'" using assms(5) by (cases g) auto
    then have g': "Suc (length g') = length g + 42" using arg_cong [OF g, of length] b unfolding length_append length_drop list.size by linarith
    then have "s\<lparr>out := out s @ drop (rlcount s) b, rlcount := rlcount s + 42\<rparr> = s\<lparr>out := es @ x # g', rlcount := Suc (length es + length g')\<rparr>"
      using assms(2,4) g by simp
    then show thesis using True Some cp grown [where x = x and g' = g'] g' by (simp add: mp_grow_def)
  qed
qed

lemma mp_loop_eq:
  assumes io: "alloc_ok io" and t: "rlen t = 0" "vt < 2 ^ 63"
    and "rl_chain v xs vt" "0 \<le> v" "mp_runs_ok xs" "mp_pairs major_ver (xs @ t # ts) (- 1) prev False = Some (Inr ps)" "- 1 \<le> prev" "prev < 2 ^ 63 - 1"
    and "a_mem a = A @ pairs_bytes ps @ 0 # B" "length A + length (pairs_bytes ps) < a_length a"
    and "buf s = length A" "mvcn s = v" "mlcn s = prev" "out s = es @ g" "rlpos s = length es" "rlcount s = length (out s)" "2 \<le> length g"
  shows "mp_loop io a s = Some (Inl ENOMEM) \<or>
    (\<exists>g' m. mp_loop io a s = Some (Inr \<lparr>buf = length A + length (pairs_bytes ps), mvcn = vt, mlcn = m, out = es @ xs @ g',
       rlpos = length es + length xs, rlcount = length es + length xs + length g'\<rparr>) \<and> 2 \<le> length g')"
  using assms(4-)
proof (induction xs arbitrary: v prev ps A s es g)
  case Nil
  then have "ps = []" using t(1) by simp
  then have "mp_loop io a s = Some (Inr s)" using Nil by (subst mp_loop.simps) (simp add: rd_def nth_append)
  moreover have "s = \<lparr>buf = length A + length (pairs_bytes ps), mvcn = vt, mlcn = prev, out = es @ [] @ g,
       rlpos = length es + length [], rlcount = length es + length [] + length g\<rparr>"
    using Nil.prems \<open>ps = []\<close> by (cases s) simp
  ultimately show ?case using Nil.prems by blast
next
  case (Cons e xs)
  have e: "vcn e = v" "0 < rlen e" "rl_chain (v + rlen e) xs vt" using Cons.prems(1) by auto
  have lcn: "LCN_HOLE \<le> lcn e" "lcn e < 2 ^ 63 - 1" "mp_runs_ok xs" using Cons.prems(3) by (auto simp: mp_runs_ok_def)
  define d where "d = (if mp_stored major_ver e then Some (lcn e - prev) else None)"
  define prev' where "prev' = (if mp_stored major_ver e then lcn e else prev)"
  have diff: "in_s64 (lcn e - prev)" using lcn Cons.prems(5,6) by simp
  have "map_option (map_sum id ((#) (rlen e, d))) (mp_pairs major_ver (xs @ t # ts) (- 1) prev' False) = Some (Inr ps)"
    using Cons.prems(4) mp_pairs_Cons [of e major_ver "xs @ t # ts" prev] e(2) lcn(1) diff by (simp add: d_def prev'_def)
  then obtain x where x: "mp_pairs major_ver (xs @ t # ts) (- 1) prev' False = Some x" "map_sum id ((#) (rlen e, d)) x = Inr ps" by auto
  then obtain ps' where ps: "mp_pairs major_ver (xs @ t # ts) (- 1) prev' False = Some (Inr ps')" "ps = (rlen e, d) # ps'" by (cases x) auto
  let ?p = "(rlen e, d)"
  have bytes: "a_mem a = A @ pair_bytes ?p @ pairs_bytes ps' @ 0 # B" using Cons.prems(7) by (simp add: ps(2))
  have le: "v + rlen e \<le> vt" using rl_chain_le [OF e(3)] .
  have pair: "pair_ok prev ?p" "in_s64 (v + rlen e)"
    using e(2) le t(2) lcn(1,2) diff Cons.prems(2) by (auto simp: pair_ok_def d_def)
  obtain w ws where w: "pair_bytes ?p = w # ws" using pair_bytes_pos [of ?p] by (cases "pair_bytes ?p") auto
  have w0: "w \<noteq> 0" using pair_head(6) [OF pair(1) refl refl] by (simp add: w)
  have rd: "rd (a_mem a) (buf s) = Some w" "buf s < a_length a"
    using bytes Cons.prems(8,9) by (simp_all add: w rd_def nth_append)
  from io Cons.prems(12-15) show ?case
  proof (cases rule: mp_grow_cases)
    case nomem
    then have "mp_loop io a s = Some (Inl ENOMEM)" using rd w0 by (subst mp_loop.simps) simp
    then show ?thesis by simp
  next
    case (grown y g')
    define s1 where "s1 = s\<lparr>out := es @ y # g', rlcount := Suc (length es + length g')\<rparr>"
    have lcn': "(case d of Some d \<Rightarrow> prev + d | None \<Rightarrow> LCN_HOLE) = lcn e" "(case d of Some d \<Rightarrow> prev + d | None \<Rightarrow> prev) = prev'"
      using lcn(1) by (auto simp: d_def prev'_def mp_stored_def)
    define s2 where "s2 = s1\<lparr>buf := length A + length (pair_bytes ?p), mvcn := v + rlen e, mlcn := prev', out := (es @ [e]) @ g', rlpos := Suc (length es)\<rparr>"
    have e': "y\<lparr>vcn := v, rlen := rlen e, lcn := lcn e\<rparr> = e" using e(1) by (cases y, cases e) simp
    have m1: "mlcn s1 = prev" "mvcn s1 = v" using Cons.prems(10,11) by (simp_all add: s1_def)
    have "mp_pair a s1 (unat w) = Some (Inr s2)"
      using mp_pair_eq [of s1 es y g' ?p a A "pairs_bytes ps' @ 0 # B", unfolded fst_conv snd_conv m1 lcn' e'] pair bytes Cons.prems(8-13) lcn' e' w
      by (simp add: s1_def s2_def ps(2))
    then have step: "mp_loop io a s = mp_loop io a s2" using rd w0 grown(1) by (subst mp_loop.simps) (simp add: s1_def)
    have mem': "a_mem a = (A @ pair_bytes ?p) @ pairs_bytes ps' @ 0 # B" using bytes by simp
    have "mp_loop io a s2 = Some (Inl ENOMEM) \<or>
      (\<exists>g'' m. mp_loop io a s2 = Some (Inr \<lparr>buf = length (A @ pair_bytes ?p) + length (pairs_bytes ps'), mvcn = vt, mlcn = m, out = (es @ [e]) @ xs @ g'',
         rlpos = length (es @ [e]) + length xs, rlcount = length (es @ [e]) + length xs + length g''\<rparr>) \<and> 2 \<le> length g'')"
    proof (rule Cons.IH [OF e(3) _ lcn(3) ps(1) _ _ mem'])
      show "0 \<le> v + rlen e" using Cons.prems(2) e(2) by simp
      show "- 1 \<le> prev'" "prev' < 2 ^ 63 - 1" using lcn Cons.prems(5,6) by (simp_all add: prev'_def)
    qed (use Cons.prems(8) grown(2) in \<open>simp_all add: s1_def s2_def ps(2)\<close>)
    then show ?thesis unfolding step by (simp add: ps(2) add.assoc)
  qed
qed

lemma mp_pairs_total:
  assumes "rl_chain v xs vt" "mp_runs_ok xs" "rlen t = 0"
  shows "\<exists>ps. mp_pairs major_ver (xs @ t # ts) (- 1) prev False = Some (Inr ps)"
  using assms
proof (induction xs arbitrary: v prev)
  case (Cons e xs)
  then have "0 < rlen e" "LCN_HOLE \<le> lcn e" "mp_runs_ok xs" "rl_chain (v + rlen e) xs vt" by (auto simp: mp_runs_ok_def)
  then show ?case using Cons.IH [of "v + rlen e" "if mp_stored major_ver e then lcn e else prev"] Cons.prems(3)
    by (auto simp: mp_pairs_Cons simp del: mp_pairs.simps)
qed simp

text \<open>Growing keeps the array at a size that can be allocated.\<close>

lemma mp_loop_rlcount:
  assumes "alloc_ok io" "mp_loop io a s = Some (Inr s')" "rlcount s \<le> rl_max"
  shows "rlcount s' \<le> rl_max"
  using assms
proof (induction io a s rule: mp_loop.induct [case_names step])
  case (step io a s)
  have grow: "rlcount s1 \<le> rl_max" if "mp_grow io s = Some (Inr s1)" for s1
    using that step.prems(1,3) by (auto simp: mp_grow_def alloc_ok_def bind_eq_Some_conv split: if_splits option.splits)
  have pair: "rlcount s2 = rlcount s1" if "mp_pair a s1 h = Some (Inr s2)" for s1 s2 h
    using that by (auto simp: mp_pair_def bind_eq_Some_conv Let_def split: if_splits)
  show ?case using step.prems(2,3) step.IH [OF _ _ _ _ _ _ _ step.prems(1)] grow pair
    by (subst (asm) mp_loop.simps) (auto split: if_splits option.splits sum.splits)
qed

text \<open>
  The pairs of an extent, decoded: what is in front of the extent is not mapped, then come its runs.
  What \<open>mp_terminate\<close> puts behind them depends on whether it is the base extent.
\<close>

definition mp_front :: "attr_record \<Rightarrow> ntfs_rl_element list" where
  "mp_front a = (if lowest_vcn a = 0 then [] else [\<lparr>vcn = 0, lcn = LCN_RL_NOT_MAPPED, rlen = lowest_vcn a\<rparr>])"

definition mp_loop_done :: "attr_record \<Rightarrow> ntfs_rl_element list \<Rightarrow> mp_state \<Rightarrow> bool" where
  "mp_loop_done a xs s \<longleftrightarrow> buf s < a_length a \<and> mvcn s = highest_vcn a + 1 \<and> rlpos s = length (mp_front a) + length xs \<and>
     rlcount s = length (out s) \<and> rlcount s \<le> rl_max \<and> (\<exists>y z g. out s = mp_front a @ xs @ y # z # g)"

definition holds_runs :: "attr_record \<Rightarrow> ntfs_rl_element list \<Rightarrow> bool" where
  "holds_runs a xs \<longleftrightarrow> non_resident a \<and> 0 \<le> lowest_vcn a \<and> xs \<noteq> [] \<and> rl_chain (lowest_vcn a) xs (highest_vcn a + 1) \<and>
     highest_vcn a + 1 < 2 ^ 63 \<and> mp_runs_ok xs \<and>
     (\<exists>major_ver t ts ps A B. rlen t = 0 \<and> mp_pairs major_ver (xs @ t # ts) (- 1) 0 False = Some (Inr ps) \<and>
        a_mem a = A @ pairs_bytes ps @ 0 # B \<and> mapping_pairs_offset a = length A \<and>
        length A + length (pairs_bytes ps) < a_length a)"

lemma first_pair_byte:
  assumes "rl_chain v (e # xs) vt" "0 \<le> v" "vt < 2 ^ 63" "mp_runs_ok (e # xs)" "rlen t = 0"
    "mp_pairs major_ver ((e # xs) @ t # ts) (- 1) 0 False = Some (Inr ps)"
  obtains h hs where "pairs_bytes ps = h # hs" "h \<noteq> 0"
proof -
  have e: "0 < rlen e" "LCN_HOLE \<le> lcn e" "lcn e < 2 ^ 63 - 1" "rlen e < 2 ^ 63"
    using assms(1-4) rl_chain_le [of "v + rlen e" xs vt] by (auto simp: mp_runs_ok_def)
  define p where "p = (rlen e, if mp_stored major_ver e then Some (lcn e) else None)"
  have "pair_ok 0 p" using e by (auto simp: pair_ok_def p_def)
  then have h: "hd (pair_bytes p) \<noteq> 0" unfolding p_def by (rule pair_head(6) [OF _ refl refl])
  obtain ps' where "ps = p # ps'"
    using assms(6) mp_pairs_Cons [of e major_ver "xs @ t # ts" 0] e
    by (cases "mp_pairs major_ver (xs @ t # ts) (- 1) (if mp_stored major_ver e then lcn e else 0) False")
      (auto simp: p_def map_sum_def split: sum.splits)
  then show thesis using h pair_bytes_pos [of p] that by (cases "pair_bytes p") auto
qed

lemma mp_decode_runs:
  assumes "alloc_ok io" "holds_runs a xs"
  obtains (nomem) "mp_decode io vol a = Some (Inl ENOMEM)"
  | (runs) s where "mp_loop_done a xs s" "mp_decode io vol a = map_option (map_sum id Some) (mp_terminate vol a s)"
proof -
  from assms(2) obtain major_ver t ts ps A B where a: "non_resident a" "0 \<le> lowest_vcn a" "xs \<noteq> []"
      "rl_chain (lowest_vcn a) xs (highest_vcn a + 1)" "highest_vcn a + 1 < 2 ^ 63" "mp_runs_ok xs"
    and ps: "rlen t = 0" "mp_pairs major_ver (xs @ t # ts) (- 1) 0 False = Some (Inr ps)"
      "a_mem a = A @ pairs_bytes ps @ 0 # B" "mapping_pairs_offset a = length A" "length A + length (pairs_bytes ps) < a_length a"
    unfolding holds_runs_def by blast
  obtain e es where xs: "xs = e # es" using a(3) by (cases xs) auto
  obtain h hs where h: "pairs_bytes ps = h # hs" "h \<noteq> 0"
    by (rule first_pair_byte [OF a(4) [unfolded xs] a(2,5) a(6) [unfolded xs] ps(1) ps(2) [unfolded xs]])
  have rd: "rd (a_mem a) (length A) = Some h" using h by (simp add: ps(3) rd_def nth_append)
  show thesis
  proof (cases "io 42")
    case None
    then show thesis using a(1,2) ps(4,5) rd h(2) by (intro nomem) (simp add: mp_decode_def)
  next
    case (Some b)
    then have b: "length b = 42" using assms(1) by (auto simp: alloc_ok_def)
    then obtain b0 b' where b': "b = b0 # b'" "length b' = 41" by (cases b) auto
    define g where "g = (if lowest_vcn a = 0 then b else b')"
    let ?s = "\<lparr>buf = length A, mvcn = lowest_vcn a, mlcn = 0, out = mp_front a @ g, rlpos = length (mp_front a), rlcount = 42\<rparr>"
    have len: "length (mp_front a @ g) = 42" "2 \<le> length g" using b b' by (simp_all add: g_def mp_front_def)
    have D: "mp_decode io vol a = do {
        s \<leftarrow> mp_loop io a ?s;
        case s of Inl err \<Rightarrow> Some (Inl err)
        | Inr s \<Rightarrow> do { s \<leftarrow> mp_terminate vol a s; case s of Inl err \<Rightarrow> Some (Inl err) | Inr s \<Rightarrow> Some (Inr (Some s)) } }"
      using a(1,2) ps(4,5) rd h(2) Some b'(1)
      by (cases b0) (simp add: mp_decode_def mp_front_def g_def upd_def rd_def wr_def)
    have "mp_loop io a ?s = Some (Inl ENOMEM) \<or>
      (\<exists>g' m. mp_loop io a ?s = Some (Inr \<lparr>buf = length A + length (pairs_bytes ps), mvcn = highest_vcn a + 1, mlcn = m,
         out = mp_front a @ xs @ g', rlpos = length (mp_front a) + length xs, rlcount = length (mp_front a) + length xs + length g'\<rparr>) \<and> 2 \<le> length g')"
      by (rule mp_loop_eq [OF assms(1) ps(1) a(5,4,2,6) ps(2) _ _ ps(3,5)]) (use len in simp_all)
    then show thesis
    proof (elim disjE exE conjE)
      assume "mp_loop io a ?s = Some (Inl ENOMEM)"
      then show thesis by (intro nomem) (simp add: D)
    next
      fix g' m
      let ?s' = "\<lparr>buf = length A + length (pairs_bytes ps), mvcn = highest_vcn a + 1, mlcn = m,
         out = mp_front a @ xs @ g', rlpos = length (mp_front a) + length xs, rlcount = length (mp_front a) + length xs + length g'\<rparr>"
      assume l: "mp_loop io a ?s = Some (Inr ?s')" "2 \<le> length g'"
      have "rlcount ?s' \<le> rl_max" by (rule mp_loop_rlcount [OF assms(1) l(1)]) simp
      moreover obtain y z g'' where "g' = y # z # g''" using l(2) by (cases g' rule: list.exhaust; cases "tl g'") auto
      ultimately have "mp_loop_done a xs ?s'" using ps(5) by (simp add: mp_loop_done_def)
      then show thesis
        by (rule runs) (simp add: D l(1), cases "mp_terminate vol a ?s'"; simp split: sum.split)
    qed
  qed
qed

text \<open>The base extent is followed by an unmapped run up to the allocated size; the others may not be the last.\<close>

definition mp_base_rest :: "attr_record \<Rightarrow> int \<Rightarrow> ntfs_rl_element list" where
  "mp_base_rest a n =
     (if highest_vcn a + 1 < n then [\<lparr>vcn = highest_vcn a + 1, lcn = LCN_RL_NOT_MAPPED, rlen = n - (highest_vcn a + 1)\<rparr>] else [])"

abbreviation allocated_clusters :: "mp_volume \<Rightarrow> attr_record \<Rightarrow> int" where
  "allocated_clusters vol a \<equiv> s64 (allocated_size a + cluster_size_mask vol) div 2 ^ cluster_size_shift vol"

lemma rl_element_eqI: "vcn x = v \<Longrightarrow> lcn x = l \<Longrightarrow> rlen x = n \<Longrightarrow> x = \<lparr>vcn = v, lcn = l, rlen = n\<rparr>"
  by (cases x) simp

lemma mp_terminate_base:
  assumes "mp_loop_done a xs s" "lowest_vcn a = 0" "highest_vcn a < n" "0 \<le> highest_vcn a + 1" "allocated_clusters vol a = n" "n < 2 ^ 63"
  obtains s' where "mp_terminate vol a s = Some (Inr s')" "rlcount s' = length (out s')" "rlcount s' \<le> rl_max" "rlpos s' < length (out s')"
    "take (rlpos s' + 1) (out s') = xs @ mp_base_rest a n @ [\<lparr>vcn = n, lcn = LCN_ENOENT, rlen = 0\<rparr>]"
proof -
  obtain y z g where s: "out s = xs @ y # z # g" "rlpos s = length xs" "rlcount s = length (out s)" "rlcount s \<le> rl_max"
      "\<not> a_length a \<le> buf s" "mvcn s = highest_vcn a + 1"
    using assms(1,2) by (auto simp: mp_loop_done_def mp_front_def)
  have w: "w\<lparr>lcn := l, vcn := v, rlen := k\<rparr> = \<lparr>vcn = v, lcn = l, rlen = k\<rparr>" for w :: ntfs_rl_element and l v k
    by (rule rl_element_eqI) simp_all
  have w': "w\<lparr>vcn := v, rlen := k, lcn := l\<rparr> = \<lparr>vcn = v, lcn = l, rlen = k\<rparr>" for w :: ntfs_rl_element and l v k
    by (rule rl_element_eqI) simp_all
  have u: "upd (xs @ y # z # g) (length xs) f = Some (xs @ f y # z # g)" "upd (xs @ y # z # g) (Suc (length xs)) f = Some (xs @ y # f z # g)" for y f
    by (simp_all add: arr_simps)
  show thesis
  proof (cases "highest_vcn a + 1 < n")
    case True
    then have n: "s64 (highest_vcn a + 1 + (n - 1 - highest_vcn a)) = n" "highest_vcn a < n - 1" "\<not> n - 1 < highest_vcn a"
      using assms(4,6) by simp_all
    show thesis
      by (rule that [of "s\<lparr>out := xs @ \<lparr>vcn = highest_vcn a + 1, lcn = LCN_RL_NOT_MAPPED, rlen = n - 1 - highest_vcn a\<rparr> # \<lparr>vcn = n, lcn = LCN_ENOENT, rlen = 0\<rparr> # g,
           mvcn := n, rlpos := Suc (length xs)\<rparr>"])
        (use s True n assms(2,5) in \<open>simp_all add: mp_terminate_def Let_def u w w' mp_base_rest_def\<close>)
  next
    case False
    then have n: "n = highest_vcn a + 1" using assms(3) by simp
    show thesis
      by (rule that [of "s\<lparr>out := xs @ \<lparr>vcn = n, lcn = LCN_ENOENT, rlen = 0\<rparr> # z # g\<rparr>"])
        (use s n assms(2,5) in \<open>simp_all add: mp_terminate_def Let_def u w mp_base_rest_def\<close>)
  qed
qed

lemma mp_terminate_later:
  assumes "mp_loop_done a xs s" "lowest_vcn a \<noteq> 0"
  obtains s' where "mp_terminate vol a s = Some (Inr s')" "rlcount s' = length (out s')" "rlcount s' \<le> rl_max" "rlpos s' + 1 < length (out s')"
    "take (rlpos s' + 1) (out s') = mp_front a @ xs @ [\<lparr>vcn = highest_vcn a + 1, lcn = LCN_RL_NOT_MAPPED, rlen = 0\<rparr>]"
proof -
  obtain y z g where s: "out s = (mp_front a @ xs) @ y # z # g" "rlpos s = length (mp_front a @ xs)" "rlcount s = length (out s)" "rlcount s \<le> rl_max"
      "\<not> a_length a \<le> buf s" "mvcn s = highest_vcn a + 1"
    using assms(1) by (auto simp: mp_loop_done_def)
  have w: "y\<lparr>lcn := LCN_RL_NOT_MAPPED, vcn := highest_vcn a + 1, rlen := 0\<rparr> = \<lparr>vcn = highest_vcn a + 1, lcn = LCN_RL_NOT_MAPPED, rlen = 0\<rparr>"
    by (rule rl_element_eqI) simp_all
  have u: "upd (out s) (rlpos s) f = Some ((mp_front a @ xs) @ f y # z # g)" for f
    unfolding s(1,2) by (simp add: upd_append del: append_assoc)
  show thesis
    by (rule that [of "s\<lparr>out := (mp_front a @ xs) @ \<lparr>vcn = highest_vcn a + 1, lcn = LCN_RL_NOT_MAPPED, rlen = 0\<rparr> # z # g\<rparr>"])
      (use s assms(2) u [of "\<lambda>e. e\<lparr>lcn := LCN_RL_NOT_MAPPED, vcn := highest_vcn a + 1, rlen := 0\<rparr>"] w in
        \<open>simp_all add: mp_terminate_def Let_def del: append_assoc\<close>)
qed

lemma decompress_base:
  assumes "alloc_ok io" "holds_runs a xs" "lowest_vcn a = 0" "highest_vcn a < n" "allocated_clusters vol a = n" "n < 2 ^ 63" "elements r = 0"
  shows "ntfs_mapping_pairs_decompress io vol a r = Some (ENOMEM, r) \<or>
    (\<exists>r'. ntfs_mapping_pairs_decompress io vol a r = Some (EOK, r') \<and> rl_arr_ok r' \<and>
       els r' = xs @ mp_base_rest a n @ [\<lparr>vcn = n, lcn = LCN_ENOENT, rlen = 0\<rparr>])"
proof (rule mp_decode_runs [OF assms(1,2), of vol])
  assume "mp_decode io vol a = Some (Inl ENOMEM)"
  then show ?thesis by (simp add: ntfs_mapping_pairs_decompress_def)
next
  fix s assume s: "mp_loop_done a xs s" "mp_decode io vol a = map_option (map_sum id Some) (mp_terminate vol a s)"
  have "0 \<le> highest_vcn a + 1" using assms(2,3) rl_chain_le by (auto simp: holds_runs_def)
  from mp_terminate_base [OF s(1) assms(3,4) this assms(5,6)] obtain s' where s':
    "mp_terminate vol a s = Some (Inr s')" "rlcount s' = length (out s')" "rlcount s' \<le> rl_max" "rlpos s' < length (out s')"
    "take (rlpos s' + 1) (out s') = xs @ mp_base_rest a n @ [\<lparr>vcn = n, lcn = LCN_ENOENT, rlen = 0\<rparr>]" .
  then show ?thesis using assms(7)
    by (simp add: ntfs_mapping_pairs_decompress_def s(2) s'(1) Let_def rl_arr_ok_def)
qed

text \<open>Another extent fills its part of a runlist that has it in an unmapped run.\<close>

lemma decompress_extent:
  assumes "alloc_ok io" "holds_runs a xs" "lowest_vcn a \<noteq> 0"
    and r: "rl_arr_ok r" "rl_wf (els r)" "els r = pre @ d # post" "rlen d \<noteq> 0" "lcn d < 0" "vcn d \<le> lowest_vcn a" "highest_vcn a < vcn d + rlen d"
  shows "ntfs_mapping_pairs_decompress io vol a r = Some (ENOMEM, r) \<or>
    (\<exists>r'. ntfs_mapping_pairs_decompress io vol a r = Some (EOK, r') \<and> rl_arr_ok r' \<and>
       spliced (els r) (lowest_vcn a) (highest_vcn a + 1) (\<lambda>v. the (rl_map xs v)) (els r'))"
proof (rule mp_decode_runs [OF assms(1,2), of vol])
  assume "mp_decode io vol a = Some (Inl ENOMEM)"
  then show ?thesis by (simp add: ntfs_mapping_pairs_decompress_def)
next
  fix s assume s: "mp_loop_done a xs s" "mp_decode io vol a = map_option (map_sum id Some) (mp_terminate vol a s)"
  let ?t = "\<lparr>vcn = highest_vcn a + 1, lcn = LCN_RL_NOT_MAPPED, rlen = 0\<rparr>"
  obtain s' where s': "mp_terminate vol a s = Some (Inr s')" "rlcount s' = length (out s')" "rlcount s' \<le> rl_max"
      "rlpos s' + 1 < length (out s')" "take (rlpos s' + 1) (out s') = mp_front a @ xs @ [?t]"
    by (rule mp_terminate_later [OF s(1) assms(3)])
  define src where "src = \<lparr>rl = out s', elements = rlpos s' + 1, alloc_count = rlcount s'\<rparr>"
  have els: "els src = mp_front a @ xs @ [?t]" using s'(5) by (simp add: src_def)
  have xs: "xs \<noteq> []" "0 \<le> lowest_vcn a" "rl_chain (lowest_vcn a) xs (highest_vcn a + 1)" "\<forall>e \<in> set xs. LCN_HOLE \<le> lcn e"
    using assms(2) by (auto simp: holds_runs_def mp_runs_ok_def)
  have hd: "vcn (hd xs) = lowest_vcn a" using xs(1,3) by (cases xs) auto
  have front: "rl_chain 0 (mp_front a) (lowest_vcn a)" using xs(2) assms(3) by (simp add: mp_front_def)
  have wf: "rl_wf (els src)"
  proof -
    have "rl_from (lowest_vcn a) (xs @ [?t])" using xs(3) by (simp add: rl_from_append rl_from_Cons rl_term_def)
    then show ?thesis unfolding els using front by (simp add: rl_wf_from rl_from_append)
  qed
  have "elements src < rl_max" "elements src \<le> length (rl src)" using s'(2-4) by (simp_all add: src_def)
  then have src: "merge_source src xs ?t"
    unfolding merge_source_def els using wf [unfolded els rl_wf_from] xs(1,4) by (auto simp: mp_front_def)
  have dec: "ntfs_mapping_pairs_decompress io vol a r = ntfs_rl_merge io r src"
    using r(3) by (cases "elements r") (auto simp: ntfs_mapping_pairs_decompress_def s(2) s'(1) src_def Let_def)
  have look: "rl_lookup (els src) v = the (rl_map xs v)" if "lowest_vcn a \<le> v" "v < highest_vcn a + 1" for v
    by (rule merge_sourceD [OF src]) (use that hd in auto)
  have "ntfs_rl_merge io r src = Some (ENOMEM, r) \<or>
    (\<exists>r'. ntfs_rl_merge io r src = Some (EOK, r') \<and> rl_arr_ok r' \<and> (rl_mem_ok r \<longrightarrow> rl_mem_ok r') \<and>
       spliced (els r) (vcn (hd xs)) (vcn ?t) (rl_lookup (els src)) (els r'))"
    by (rule rl_merge_in_hole [OF assms(1) r(1-5) src]) (use hd r(6,7) in simp_all)
  then show ?thesis unfolding dec hd using spliced_cong [OF _ look] by fastforce
qed

lemma build_from_start:
  assumes c: "rl_chain 0 (e # xs) (vcn t)" "rl_term t" and "0 < dst_len"
  shows "ntfs_mapping_pairs_build major_ver mem dst_len ((e # xs) @ t # ts) 0 (- 1) =
    mp_build_runs major_ver mem 0 (dst_len - 1) ((e # xs) @ t # ts) (- 1) 0 False"
proof -
  have "rl_skip ((e # xs) @ t # ts) 0 = Some 0" using rl_skip_at [of 0 "[]" e xs t 0 ts] c by simp
  moreover have "rd ((e # xs) @ t # ts) 0 = Some e" "vcn e = 0" using c by (simp_all add: rd_def)
  ultimately show ?thesis using assms(3) unfolding ntfs_mapping_pairs_build_def by (simp add: Let_def del: rl_skip.simps)
qed

text \<open>
  C12. Round trip. A runlist whose runs are mapped or holes, written with
  \<open>ntfs_mapping_pairs_build\<close> and read back from the attribute with
  \<open>ntfs_mapping_pairs_decompress\<close>, is the same runlist again, element by element, on every
  version of the file system; the only thing that can go wrong is lack of memory.
\<close>

theorem mapping_pairs_roundtrip:
  assumes "alloc_ok io" and es: "rl_wf es" "es = xs @ [t]" "xs \<noteq> []" "lcn t = LCN_ENOENT" "vcn t < 2 ^ 63" "mp_runs_ok xs"
    and build: "ntfs_mapping_pairs_build major_ver mem dst_len (es @ ts) 0 (- 1) = Some (EOK, stop, mem')" "dst_len \<le> length mem"
    and a: "non_resident a" "lowest_vcn a = 0" "highest_vcn a = vcn t - 1"
      "s64 (allocated_size a + cluster_size_mask vol) div 2 ^ cluster_size_shift vol = vcn t"
      "a_mem a = A @ mem' @ B" "mapping_pairs_offset a = length A" "length A + dst_len \<le> a_length a"
    and r: "elements r = 0"
  shows "ntfs_mapping_pairs_decompress io vol a r = Some (ENOMEM, r) \<or>
    (\<exists>r'. ntfs_mapping_pairs_decompress io vol a r = Some (EOK, r') \<and> els r' = es)"
proof -
  obtain e xs' where xs: "xs = e # xs'" using es(3) by (cases xs) auto
  have c: "rl_chain 0 xs (vcn t)" "rl_term t" "rlen t = 0" using es(1) by (simp_all add: es(2) rl_simps rl_term_def)
  obtain ps where ps: "mp_pairs major_ver (xs @ t # ts) (- 1) 0 False = Some (Inr ps)" using mp_pairs_total [OF c(1) es(6) c(3)] by blast
  have d: "0 < dst_len" using build(1) by (auto simp: ntfs_mapping_pairs_build_def split: if_splits)
  have max: "dst_len - 1 < length mem" using d build(2) by linarith
  have "mp_build_runs major_ver mem 0 (dst_len - 1) (xs @ t # ts) (- 1) 0 False = Some (EOK, stop, mem')"
    using build(1) build_from_start [of e xs' t dst_len major_ver mem ts] c d by (simp add: es(2) xs)
  then have mem': "mem' = put mem 0 (pairs_bytes ps @ [0])" "length (pairs_bytes ps) \<le> dst_len - 1"
    using mp_build_runs_eq [OF ps zero_le max] by (auto split: if_splits)
  have bytes: "a_mem a = A @ pairs_bytes ps @ 0 # (drop (Suc (length (pairs_bytes ps))) mem @ B)" using a(5) mem'(1) by (simp add: put_def)
  have "length A + length (pairs_bytes ps) < a_length a" using mem'(2) d a(7) by linarith
  then have "\<exists>major_ver t ts ps A B. rlen t = 0 \<and> mp_pairs major_ver (xs @ t # ts) (- 1) 0 False = Some (Inr ps) \<and>
      a_mem a = A @ pairs_bytes ps @ 0 # B \<and> mapping_pairs_offset a = length A \<and> length A + length (pairs_bytes ps) < a_length a"
    using c(3) ps bytes a(6) by blast
  then have h: "holds_runs a xs"
    unfolding holds_runs_def using a(1-3) es(3,5,6) c(1) by simp
  have "\<lparr>vcn = vcn t, lcn = LCN_ENOENT, rlen = 0\<rparr> = t" by (rule rl_element_eqI [symmetric]) (simp_all add: es(4) c(3))
  then show ?thesis using decompress_base [OF assms(1) h a(2) _ a(4) es(5) r] a(3) by (auto simp: mp_base_rest_def es(2))
qed

theorem mapping_pairs_roundtrip_witness:
  "\<exists>r'. ntfs_mapping_pairs_decompress (\<lambda>n. if n = 42 then Some (replicate 42 \<lparr>vcn = 0, lcn = 0, rlen = 0\<rparr>) else None)
       \<lparr>cluster_size_mask = 4095, cluster_size_shift = 12\<rparr>
       \<lparr>non_resident = True, a_length = 7, mapping_pairs_offset = 1, lowest_vcn = 0, highest_vcn = 3,
         allocated_size = 16384, a_mem = [0] @ [0x21, 4, 200, 0, 0, 7] @ []\<rparr>
       ntfs_rl_init = Some (EOK, r') \<and>
     els r' = [\<lparr>vcn = 0, lcn = 200, rlen = 4\<rparr>, \<lparr>vcn = 4, lcn = -3, rlen = 0\<rparr>]"
  (is "\<exists>r'. ntfs_mapping_pairs_decompress ?io ?vol ?a ?r = Some (EOK, r') \<and> els r' = ?es")
proof -
  have "ntfs_mapping_pairs_build 3 [7, 7, 7, 7, 7, 7] 6 (?es @ []) 0 (- 1) = Some (EOK, Some 4, [0x21, 4, 200, 0, 0, 7])"
    by (simp add: ntfs_mapping_pairs_build_def rd_def wr_def mp_build_pair_def mp_finish_def ntfs_write_significant_bytes_def
      sig_write.simps s8_eq Let_def)
  note build = this
  have "ntfs_mapping_pairs_decompress ?io ?vol ?a ?r = Some (ENOMEM, ?r) \<or>
    (\<exists>r'. ntfs_mapping_pairs_decompress ?io ?vol ?a ?r = Some (EOK, r') \<and> els r' = ?es)"
  proof (rule mapping_pairs_roundtrip [OF _ _ _ _ _ _ _ build, where xs = "[\<lparr>vcn = 0, lcn = 200, rlen = 4\<rparr>]" and t = "\<lparr>vcn = 4, lcn = -3, rlen = 0\<rparr>" and A = "[0]" and B = "[]"])
    show "alloc_ok ?io" by (simp add: alloc_ok_def)
    show "rl_wf ?es" by (simp add: rl_wf_def rl_term_def)
    show "mp_runs_ok [\<lparr>vcn = 0, lcn = 200, rlen = 4\<rparr>]" by (simp add: mp_runs_ok_def)
    show "s64 (allocated_size ?a + cluster_size_mask ?vol) div 2 ^ cluster_size_shift ?vol = vcn \<lparr>vcn = 4, lcn = - 3, rlen = 0\<rparr>" by simp
  qed (simp_all add: ntfs_rl_init_def)
  moreover have "ntfs_mapping_pairs_decompress ?io ?vol ?a ?r \<noteq> Some (ENOMEM, ?r)"
    by code_simp
  ultimately show ?thesis by blast
qed

end
