(* ===== verification/NTFS_Compress.thy ===== *)
theory NTFS_Compress
  imports NTFS_Prelude
begin

text \<open>
  Decompression of a compression block, \<open>ntfs_decompress\<close> of \<open>kext/ntfs_compress.c\<close>.

  The destination is a byte buffer that begins at \<open>dst_start\<close> and may go on behind
  \<open>dst_size\<close>, the source a byte buffer that begins at \<open>cb_start\<close>; pointers are offsets there.
  The list of pages, when there is one, is the function that tells which pages are valid.

  Against the code stands the format: a sub-block is either 4096 bytes or a list of tokens,
  each a byte or a reference to bytes already produced, and its bytes on disk are those
  \<open>sb_bytes\<close> gives.
\<close>

section \<open>The code\<close>

abbreviation (input) NTFS_SB_SIZE :: nat where
  "NTFS_SB_SIZE \<equiv> 4096"

abbreviation (input) NTFS_SB_IS_COMPRESSED :: nat where
  "NTFS_SB_IS_COMPRESSED \<equiv> 32768"

text \<open>The number of times the position can be halved until it is below 16.\<close>

fun dc_lg :: "nat \<Rightarrow> nat" where
  "dc_lg u = (if 16 \<le> u then Suc (dc_lg (u div 2)) else 0)"

text \<open>The byte by byte copy for the overlapping part of a byte sequence.\<close>

fun dc_copy_slow :: "u8 list \<Rightarrow> nat \<Rightarrow> nat \<Rightarrow> nat \<Rightarrow> u8 list option" where
  "dc_copy_slow mem dst back 0 = Some mem"
| "dc_copy_slow mem dst back (Suc n) = do {
     b \<leftarrow> rd mem back;
     mem \<leftarrow> wr mem dst b;
     dc_copy_slow mem (dst + 1) (back + 1) n }"

definition dc_copy :: "u8 list \<Rightarrow> nat \<Rightarrow> nat \<Rightarrow> nat \<Rightarrow> u8 list option" where
  "dc_copy mem dst back len =
     (let max_non_overlap = dst - back in
      if len \<le> max_non_overlap then move_els mem dst back len
      else do {
        mem \<leftarrow> move_els mem dst back max_non_overlap;
        dc_copy_slow mem (dst + max_non_overlap) (back + max_non_overlap) (len - max_non_overlap) })"

text \<open>
  A phrase token at \<open>cb\<close>. A shift right by \<open>n\<close> is a division by \<open>2 ^ n\<close>, and masking with
  \<open>0xfff >> lg\<close> is the remainder modulo \<open>2 ^ (12 - lg)\<close>.
\<close>

definition dc_phrase ::
  "u8 list \<Rightarrow> nat \<Rightarrow> nat \<Rightarrow> u8 list \<Rightarrow> nat \<Rightarrow> nat \<Rightarrow> (errno + u8 list \<times> nat) option" where
  "dc_phrase cbm dst_sb_start dst_sb_end mem dst cb =
     (if dst = dst_sb_start then Some (Inl EOVERFLOW)
      else let lg = dc_lg (dst - dst_sb_start - 1) in do {
        pt \<leftarrow> rd16 cbm cb;
        let p = pt div 2 ^ (12 - lg) + 1;
        let len = pt mod 2 ^ (12 - lg) + 3;
        if dst < dst_sb_start + p then Some (Inl EOVERFLOW)
        else if dst_sb_end < dst + len then Some (Inl EOVERFLOW)
        else do {
          mem \<leftarrow> dc_copy mem dst (dst - p) len;
          Some (Inr (mem, dst + len)) } })"

text \<open>The loop over the tokens of a tag, with the number of tokens left.\<close>

fun dc_tokens ::
  "u8 list \<Rightarrow> nat \<Rightarrow> nat \<Rightarrow> nat \<Rightarrow> nat \<Rightarrow> nat \<Rightarrow> u8 list \<Rightarrow> nat \<Rightarrow> nat \<Rightarrow> ((errno \<times> u8 list) + u8 list \<times> nat \<times> nat) option" where
  "dc_tokens cbm cb_sb_end dst_sb_start dst_sb_end 0 tag mem dst cb = Some (Inr (mem, dst, cb))"
| "dc_tokens cbm cb_sb_end dst_sb_start dst_sb_end (Suc n) tag mem dst cb =
     (if cb_sb_end \<le> cb \<or> dst_sb_end < dst then Some (Inr (mem, dst, cb))
      else if even tag then do {
        b \<leftarrow> rd cbm cb;
        mem \<leftarrow> wr mem dst b;
        dc_tokens cbm cb_sb_end dst_sb_start dst_sb_end n (tag div 2) mem (dst + 1) (cb + 1) }
      else do {
        r \<leftarrow> dc_phrase cbm dst_sb_start dst_sb_end mem dst cb;
        case r of
          Inl e \<Rightarrow> Some (Inl (e, mem))
        | Inr (mem, dst) \<Rightarrow>
            dc_tokens cbm cb_sb_end dst_sb_start dst_sb_end n (tag div 2) mem dst (cb + 2) })"

lemma dc_tokens_cb_mono:
  "dc_tokens cbm cbe s e n tag mem dst cb = Some (Inr (mem', dst', cb')) \<Longrightarrow> cb \<le> cb'"
proof (induction n arbitrary: tag mem dst cb)
  case (Suc n)
  show ?case
  proof (cases "cbe \<le> cb \<or> e < dst")
    case False
    then show ?thesis using Suc.prems
      by (auto split: bind_splits if_splits sum.splits dest!: Suc.IH)
  qed (use Suc.prems in auto)
qed simp

text \<open>From \<open>next_tag\<close> on: the tags of one compressed sub-block.\<close>

function dc_tags ::
  "u8 list \<Rightarrow> nat \<Rightarrow> nat \<Rightarrow> nat \<Rightarrow> u8 list \<Rightarrow> nat \<Rightarrow> nat \<Rightarrow> ((errno \<times> u8 list) + u8 list \<times> nat) option" where
  "dc_tags cbm cb_sb_end dst_sb_start dst_sb_end mem dst cb =
     (if cb = cb_sb_end then
        if dst < dst_sb_end then do {
          mem \<leftarrow> bzero mem dst (dst_sb_end - dst);
          Some (Inr (mem, dst_sb_end)) }
        else Some (Inr (mem, dst))
      else if cb_sb_end < cb \<or> dst_sb_end < dst then Some (Inl (EOVERFLOW, mem))
      else do {
        tag \<leftarrow> rd cbm cb;
        r \<leftarrow> dc_tokens cbm cb_sb_end dst_sb_start dst_sb_end 8 (unat tag) mem dst (cb + 1);
        case r of
          Inl e \<Rightarrow> Some (Inl e)
        | Inr (mem, dst, cb) \<Rightarrow> dc_tags cbm cb_sb_end dst_sb_start dst_sb_end mem dst cb })"
  by pat_completeness auto
termination
  by (relation "measure (\<lambda>(cbm, cbe, s, e, mem, dst, cb). cbe - cb)")
    (auto simp: dest!: dc_tokens_cb_mono)

declare dc_lg.simps [simp del] dc_tags.simps [simp del]

text \<open>From \<open>next_sb\<close> on: the sub-blocks.\<close>

function dc_sbs ::
  "nat \<Rightarrow> (nat \<Rightarrow> bool) option \<Rightarrow> u8 list \<Rightarrow> nat \<Rightarrow> nat \<Rightarrow> nat \<Rightarrow> nat \<Rightarrow> u8 list \<Rightarrow> nat \<Rightarrow> nat \<Rightarrow> (errno \<times> u8 list) option"
where
  "dc_sbs page_size valid cbm cb_end dst_end skip_sbs cur_pg mem dst cb =
     (if cb = cb_end then do {
        mem \<leftarrow> (if dst < dst_end then bzero mem dst (dst_end - dst) else Some mem);
        Some (EOK, mem) }
      else do {
        hdr \<leftarrow> rd16 cbm cb;
        if hdr = 0 \<or> dst = dst_end then do {
          mem \<leftarrow> (if dst < dst_end then bzero mem dst (dst_end - dst) else Some mem);
          Some (EOK, mem) }
        else let dst_sb_end = dst + NTFS_SB_SIZE; cb_sb_end = cb + hdr mod 4096 + 3 in
        if dst_end < dst_sb_end then Some (EOVERFLOW, mem)
        else if cb_end < cb + 6 then Some (EOVERFLOW, mem)
        else if cb_end < cb_sb_end then Some (EOVERFLOW, mem)
        else if skip_sbs \<noteq> 0 then
          dc_sbs page_size valid cbm cb_end dst_end (skip_sbs - 1) cur_pg mem dst cb_sb_end
        else let
          skip_sb = (case valid of Some v \<Rightarrow> v cur_pg | None \<Rightarrow> False);
          cur_pg = (if valid \<noteq> None \<and> (dst + NTFS_SB_SIZE) mod page_size = 0 then cur_pg + 1 else cur_pg) in
        if skip_sb then
          dc_sbs page_size valid cbm cb_end dst_end 0 cur_pg mem dst_sb_end cb_sb_end
        else if hdr < NTFS_SB_IS_COMPRESSED then
          if cb_sb_end \<noteq> cb + 2 + NTFS_SB_SIZE then Some (EOVERFLOW, mem)
          else do {
            mem \<leftarrow> copy_els mem dst cbm (cb + 2) NTFS_SB_SIZE;
            dc_sbs page_size valid cbm cb_end dst_end 0 cur_pg mem dst_sb_end cb_sb_end }
        else do {
          r \<leftarrow> dc_tags cbm cb_sb_end dst dst_sb_end mem dst (cb + 2);
          case r of
            Inl e \<Rightarrow> Some e
          | Inr (mem, dst) \<Rightarrow>
              dc_sbs page_size valid cbm cb_end dst_end 0 cur_pg mem dst cb_sb_end } })"
  by pat_completeness auto
termination
  by (relation "measure (\<lambda>(ps, v, cbm, cbe, de, sk, pg, mem, dst, cb). cbe - cb)") auto

declare dc_sbs.simps [simp del]

definition ntfs_decompress ::
  "nat \<Rightarrow> u8 list \<Rightarrow> nat \<Rightarrow> nat \<Rightarrow> u8 list \<Rightarrow> nat \<Rightarrow> (nat \<Rightarrow> bool) option \<Rightarrow> nat \<Rightarrow> nat \<Rightarrow> (errno \<times> u8 list) option" where
  "ntfs_decompress page_size dst_mem dst_ofs_in_cb dst_size cbm cb_size pl cur_pg pages_per_cb =
     dc_sbs page_size (if pages_per_cb > 1 then pl else None) cbm cb_size dst_size
       (dst_ofs_in_cb div NTFS_SB_SIZE) cur_pg dst_mem 0 0"

section \<open>The format\<close>

datatype lz_token = Sym u8 | Phrase nat nat

text \<open>\<open>Phrase p l\<close> repeats \<open>l\<close> bytes from \<open>p\<close> bytes back, one after the other.\<close>

fun lz_copy :: "u8 list \<Rightarrow> nat \<Rightarrow> nat \<Rightarrow> u8 list" where
  "lz_copy acc p 0 = acc"
| "lz_copy acc p (Suc l) = lz_copy (acc @ [acc ! (length acc - p)]) p l"

fun lz_step :: "u8 list \<Rightarrow> lz_token \<Rightarrow> u8 list" where
  "lz_step acc (Sym b) = acc @ [b]"
| "lz_step acc (Phrase p l) = lz_copy acc p l"

definition lz_expand :: "u8 list \<Rightarrow> lz_token list \<Rightarrow> u8 list" where
  "lz_expand = foldl lz_step"

text \<open>How many bits of a phrase token hold the length: 12 while at most 16 bytes have been
  produced, and one less each time that number doubles.\<close>

definition lz_len_bits :: "nat \<Rightarrow> nat" where
  "lz_len_bits n = 12 - length (filter (\<lambda>k. 2 ^ k < n) [4..<12])"

definition le16 :: "nat \<Rightarrow> u8 list" where
  "le16 n = [of_nat n, of_nat (n div 256)]"

fun lz_token_bytes :: "nat \<Rightarrow> lz_token \<Rightarrow> u8 list" where
  "lz_token_bytes n (Sym b) = [b]"
| "lz_token_bytes n (Phrase p l) = le16 ((p - 1) * 2 ^ lz_len_bits n + (l - 3))"

fun lz_token_ok :: "nat \<Rightarrow> lz_token \<Rightarrow> bool" where
  "lz_token_ok n (Sym b) \<longleftrightarrow> n < 4096"
| "lz_token_ok n (Phrase p l) \<longleftrightarrow>
     1 \<le> p \<and> p \<le> n \<and> 3 \<le> l \<and> l < 2 ^ lz_len_bits n + 3 \<and> n + l \<le> 4096"

fun lz_tokens_ok :: "u8 list \<Rightarrow> lz_token list \<Rightarrow> bool" where
  "lz_tokens_ok acc [] \<longleftrightarrow> True"
| "lz_tokens_ok acc (t # ts) \<longleftrightarrow> lz_token_ok (length acc) t \<and> lz_tokens_ok (lz_step acc t) ts"

fun lz_bytes :: "u8 list \<Rightarrow> lz_token list \<Rightarrow> u8 list" where
  "lz_bytes acc [] = []"
| "lz_bytes acc (t # ts) = lz_token_bytes (length acc) t @ lz_bytes (lz_step acc t) ts"

fun lz_tag :: "lz_token list \<Rightarrow> nat" where
  "lz_tag [] = 0"
| "lz_tag (Sym b # ts) = 2 * lz_tag ts"
| "lz_tag (Phrase p l # ts) = 1 + 2 * lz_tag ts"

text \<open>Tokens come in groups of eight, each after its tag.\<close>

fun lz_encode :: "u8 list \<Rightarrow> lz_token list \<Rightarrow> u8 list" where
  "lz_encode acc [] = []"
| "lz_encode acc (t # ts) =
     of_nat (lz_tag (t # take 7 ts)) # lz_bytes acc (t # take 7 ts) @
     lz_encode (lz_expand acc (t # take 7 ts)) (drop 7 ts)"

text \<open>
  A sub-block with its header: bits 0 to 11 have the size, bit 15 tells a packed sub-block
  from a stored one, and bits 12 to 14 (the first component of a sub-block) are not looked at.
\<close>

datatype sub_block = Raw nat "u8 list" | Packed nat "lz_token list"

fun sb_bytes :: "sub_block \<Rightarrow> u8 list" where
  "sb_bytes (Raw f xs) = le16 (f * 4096 + 0xfff) @ xs"
| "sb_bytes (Packed f ts) = le16 ((8 + f) * 4096 + (length (lz_encode [] ts) - 1)) @ lz_encode [] ts"

fun sb_ok :: "sub_block \<Rightarrow> bool" where
  "sb_ok (Raw f xs) \<longleftrightarrow> f < 8 \<and> length xs = 4096"
| "sb_ok (Packed f ts) \<longleftrightarrow> f < 8 \<and> ts \<noteq> [] \<and> lz_tokens_ok [] ts \<and> length (lz_encode [] ts) \<le> 4096"

text \<open>A sub-block stands for 4096 bytes; what its tokens do not produce is zero.\<close>

fun sb_data :: "sub_block \<Rightarrow> u8 list" where
  "sb_data (Raw f xs) = xs"
| "sb_data (Packed f ts) = lz_expand [] ts @ replicate (4096 - length (lz_expand [] ts)) 0"

section \<open>The position of a phrase and its number of bits\<close>

lemma dc_lg_filter: "u < 2 ^ (4 + n) \<Longrightarrow> dc_lg u = length (filter (\<lambda>k. 2 ^ k \<le> u) [4..<4 + n])"
proof (induction u arbitrary: n rule: dc_lg.induct)
  case (1 u)
  show ?case
  proof (cases "16 \<le> u")
    case True
    then obtain m where n: "n = Suc m" using 1(2) by (cases n) auto
    have half: "u div 2 < 2 ^ (4 + m)" using 1(2) n by (simp add: power_add)
    have "[4..<4 + n] = 4 # map Suc [4..<4 + m]" by (simp add: n upt_conv_Cons map_Suc_upt)
    then show ?thesis using True 1(1) [OF True half]
      by (subst dc_lg.simps) (simp add: filter_map comp_def less_eq_div_iff_mult_less_eq mult.commute)
  next
    case False
    have "filter (\<lambda>k. 2 ^ k \<le> u) [4..<4 + n] = []"
      using False power_increasing [of 4 _ "2::nat"] by (fastforce simp: filter_empty_conv)
    then show ?thesis using False by (simp add: dc_lg.simps)
  qed
qed

lemma lz_len_bits_eq: "0 < n \<Longrightarrow> n \<le> 4096 \<Longrightarrow> lz_len_bits n = 12 - dc_lg (n - 1)"
proof -
  assume n: "0 < n" "n \<le> 4096"
  then have "(2 ^ k < n) = (2 ^ k \<le> n - 1)" for k :: nat by auto
  then show ?thesis using dc_lg_filter [of "n - 1" 8] n by (simp add: lz_len_bits_def)
qed

lemma dc_lg_bound: "u < 2 ^ (4 + n) \<Longrightarrow> dc_lg u \<le> n"
  using length_filter_le [of _ "[4..<4 + n]"] by (simp add: dc_lg_filter)

lemma dc_lg_covers: "u < 2 ^ (4 + dc_lg u)"
proof (induction u rule: dc_lg.induct)
  case (1 u)
  show ?case
  proof (cases "16 \<le> u")
    case True
    have "u < 2 * (u div 2 + 1)" by simp
    also have "\<dots> \<le> 2 * 2 ^ (4 + dc_lg (u div 2))" using 1 [OF True] by simp
    finally show ?thesis using True by (subst dc_lg.simps) (simp add: power_add)
  qed (simp add: dc_lg.simps)
qed


section \<open>Copying a phrase\<close>

lemma lz_copy_add: "lz_copy acc p (a + b) = lz_copy (lz_copy acc p a) p b"
  by (induction a arbitrary: acc) simp_all

lemma length_lz_copy [simp]: "length (lz_copy acc p l) = length acc + l"
  by (induction l arbitrary: acc) simp_all

lemma lz_copy_prefix: "p \<le> length acc \<Longrightarrow> 1 \<le> p \<Longrightarrow> lz_copy (xs @ acc) p l = xs @ lz_copy acc p l"
proof (induction l arbitrary: acc)
  case (Suc l)
  have "(xs @ acc) ! (length (xs @ acc) - p) = acc ! (length acc - p)"
    using Suc.prems by (simp flip: add_diff_assoc)
  then show ?case using Suc.IH [of "acc @ [acc ! (length acc - p)]"] Suc.prems by simp
qed simp

lemma lz_copy_no_overlap:
  "l \<le> p \<Longrightarrow> p \<le> length acc \<Longrightarrow> lz_copy acc p l = acc @ take l (drop (length acc - p) acc)"
proof (induction l)
  case (Suc l)
  have "lz_copy acc p (Suc l) = lz_copy (lz_copy acc p l) p 1"
    using lz_copy_add [of acc p l 1] by simp
  then show ?case using Suc
    by (simp add: take_Suc_conv_app_nth nth_append)
qed simp

lemma dc_copy_slow_eq:
  "1 \<le> p \<Longrightarrow> p \<le> length acc \<Longrightarrow> n \<le> length xs \<Longrightarrow>
   dc_copy_slow (acc @ xs) (length acc) (length acc - p) n = Some (lz_copy acc p n @ drop n xs)"
proof (induction n arbitrary: acc xs)
  case (Suc n)
  then obtain x ys where xs: "xs = x # ys" by (cases xs) auto
  have "length acc - p < length acc" using Suc.prems by linarith
  then have "rd (acc @ xs) (length acc - p) = Some (acc ! (length acc - p))"
    using Suc.prems by (simp add: rd_def nth_append)
  moreover have "Suc (length acc - p) = Suc (length acc) - p" using Suc.prems by simp
  ultimately show ?case
    using Suc.IH [of "acc @ [acc ! (length acc - p)]" ys] Suc.prems by (simp add: xs wr_append)
qed simp

lemma move_els_forward:
  "n \<le> p \<Longrightarrow> p \<le> length acc \<Longrightarrow> n \<le> length xs \<Longrightarrow>
   move_els (acc @ xs) (length acc) (length acc - p) n = Some (lz_copy acc p n @ drop n xs)"
  by (auto simp: move_els_def copy_els_def lz_copy_no_overlap)

lemma dc_copy_eq:
  assumes "1 \<le> p" "p \<le> length acc" "l \<le> length xs"
  shows "dc_copy (acc @ xs) (length acc) (length acc - p) l = Some (lz_copy acc p l @ drop l xs)"
proof (cases "l \<le> p")
  case False
  have "dc_copy_slow (lz_copy acc p p @ drop p xs) (length acc + p) (length acc) (l - p) =
    Some (lz_copy (lz_copy acc p p) p (l - p) @ drop (l - p) (drop p xs))"
    using dc_copy_slow_eq [of p "lz_copy acc p p" "l - p" "drop p xs"] assms by simp
  also have "\<dots> = Some (lz_copy acc p l @ drop l xs)"
    using False lz_copy_add [of acc p p "l - p"] by simp
  finally show ?thesis using False assms by (simp add: dc_copy_def move_els_forward Let_def)
qed (use assms in \<open>simp add: dc_copy_def move_els_forward Let_def\<close>)

section \<open>Tokens and tags\<close>

lemma rd16_le16 [mem_simps]: "n < 65536 \<Longrightarrow> i = length xs \<Longrightarrow> rd16 (xs @ le16 n @ ys) i = Some n"
proof -
  assume "n < 65536" "i = length xs"
  moreover have "unat (of_nat n :: u8) + 256 * unat (of_nat (n div 256) :: u8) = n"
    using \<open>n < 65536\<close> by (simp add: unat_of_nat)
  ultimately show ?thesis by (simp add: rd16_def le16_def rd_def nth_append)
qed

lemma phrase_token_value:
  assumes "lz_token_ok n (Phrase p l)"
  defines "b \<equiv> lz_len_bits n"
  defines "pt \<equiv> (p - 1) * 2 ^ b + (l - 3)"
  shows "pt div 2 ^ b + 1 = p" "pt mod 2 ^ b + 3 = l" "pt < 65536" "b = 12 - dc_lg (n - 1)"
proof -
  have n: "0 < n" "n \<le> 4096" "1 \<le> p" "p \<le> n" and l: "3 \<le> l" "l - 3 < 2 ^ b"
    using assms(1) by (auto simp: b_def)
  show b: "b = 12 - dc_lg (n - 1)" using lz_len_bits_eq [OF n(1,2)] by (simp add: b_def)
  show "pt div 2 ^ b + 1 = p" "pt mod 2 ^ b + 3 = l" 
  proof -
    obtain k where "l = k + 3" using l by (metis le_add_diff_inverse2)
    then show "pt div 2 ^ b + 1 = p" "pt mod 2 ^ b + 3 = l" using n l by (simp_all add: pt_def)
  qed
  have "dc_lg (n - 1) \<le> 8" using dc_lg_bound [of "n - 1" 8] n by simp
  then have two: "2 ^ b * 2 ^ (4 + dc_lg (n - 1)) = (65536 :: nat)" 
    unfolding b power_add [symmetric] by simp
  have "p - 1 < 2 ^ (4 + dc_lg (n - 1))"
    by (rule le_less_trans [OF _ dc_lg_covers [of "n - 1"]]) (use n in simp)
  then have "(p - 1) * 2 ^ b + 2 ^ b \<le> 2 ^ (4 + dc_lg (n - 1)) * 2 ^ b"
    using mult_le_mono1 [of "Suc (p - 1)" "2 ^ (4 + dc_lg (n - 1))" "2 ^ b"] by simp
  then show "pt < 65536" unfolding pt_def using two l(2) by (simp only: mult.commute)
qed

lemma dc_phrase_eq:
  assumes "lz_token_ok (length acc) (Phrase p l)" "l \<le> length xs" "s = length pre" "i = length c0"
  shows "dc_phrase (c0 @ lz_token_bytes (length acc) (Phrase p l) @ c1) s (s + 4096)
      (pre @ acc @ xs) (s + length acc) i =
    Some (Inr (pre @ lz_copy acc p l @ drop l xs, s + length acc + l))"
proof -
  define pt where "pt = (p - 1) * 2 ^ lz_len_bits (length acc) + (l - 3)"
  note v = phrase_token_value [OF assms(1), folded pt_def, unfolded phrase_token_value(4) [OF assms(1)]]
  have rd: "rd16 (c0 @ lz_token_bytes (length acc) (Phrase p l) @ c1) i = Some pt"
    using rd16_le16 [OF v(3) assms(4)] by (simp only: lz_token_bytes.simps pt_def)
  have p: "1 \<le> p" "p \<le> length acc" "length acc + l \<le> 4096" using assms(1) by auto
  have "dc_copy (pre @ acc @ xs) (s + length acc) (s + length acc - p) l =
      Some (pre @ lz_copy acc p l @ drop l xs)"
    using dc_copy_eq [of p "pre @ acc" l xs] p assms(2,3) by (simp add: lz_copy_prefix)
  moreover have "acc \<noteq> []" using p by auto
  ultimately show ?thesis using p unfolding dc_phrase_def rd by (simp add: Let_def v(1,2) [simplified])
qed

lemma dc_tokens_eq:
  assumes "lz_tokens_ok acc ts" "length ts \<le> n" "length ts < n \<Longrightarrow> cbe = i + length (lz_bytes acc ts)"
    "i + length (lz_bytes acc ts) \<le> cbe" "i = length c0" "s = length pre" "4096 \<le> length M"
  shows "dc_tokens (c0 @ lz_bytes acc ts @ c1) cbe s (s + 4096) n (lz_tag ts)
      (pre @ acc @ drop (length acc) M) (s + length acc) i =
    Some (Inr (pre @ lz_expand acc ts @ drop (length (lz_expand acc ts)) M,
      s + length (lz_expand acc ts), i + length (lz_bytes acc ts)))"
  using assms
proof (induction ts arbitrary: acc n i c0)
  case Nil
  then show ?case by (cases n) (simp_all add: lz_expand_def)
next
  case (Cons t ts)
  obtain m where n: "n = Suc m" using Cons.prems(2) by (cases n) auto
  let ?b = "lz_token_bytes (length acc) t"
  have step: "lz_expand acc (t # ts) = lz_expand (lz_step acc t) ts" by (simp add: lz_expand_def)
  have b: "0 < length ?b" by (cases t) (simp_all add: le16_def)
  have IH: "dc_tokens (c0 @ ?b @ lz_bytes (lz_step acc t) ts @ c1) cbe s (s + 4096) m (lz_tag ts)
      (pre @ lz_step acc t @ drop (length (lz_step acc t)) M) (s + length (lz_step acc t)) (i + length ?b) =
    Some (Inr (pre @ lz_expand acc (t # ts) @ drop (length (lz_expand acc (t # ts))) M,
      s + length (lz_expand acc (t # ts)), i + length (lz_bytes acc (t # ts))))"
    using Cons.IH [of "lz_step acc t" m "i + length ?b" "c0 @ ?b"] Cons.prems n
    by (simp add: step add.assoc)
  have ok: "lz_token_ok (length acc) t" using Cons.prems(1) by simp
  have in_cb: "i < cbe" using b Cons.prems(4) unfolding lz_bytes.simps length_append by linarith
  show ?case
  proof (cases t)
    case (Sym x)
    then have acc: "length acc < 4096" using ok by simp
    then have "drop (length acc) M = M ! length acc # drop (Suc (length acc)) M"
      using Cons.prems(7) by (simp add: Cons_nth_drop_Suc)
    then have "wr (pre @ acc @ drop (length acc) M) (s + length acc) x =
        Some (pre @ (acc @ [x]) @ drop (Suc (length acc)) M)"
      using wr_append [of "s + length acc" "pre @ acc"] Cons.prems(6) by simp
    then show ?thesis using IH acc in_cb Cons.prems(5) by (simp add: n Sym rd_append)
  next
    case (Phrase p l)
    then have acc: "length acc + l \<le> 4096" using ok by simp
    have "dc_phrase (c0 @ ?b @ lz_bytes (lz_step acc t) ts @ c1) s (s + 4096)
        (pre @ acc @ drop (length acc) M) (s + length acc) i =
      Some (Inr (pre @ lz_copy acc p l @ drop (length acc + l) M, s + length acc + l))"
      using dc_phrase_eq [of acc p l "drop (length acc) M" s pre i c0] ok acc Cons.prems Phrase
      by (simp add: add.commute)
    then show ?thesis using IH acc in_cb by (simp add: n Phrase le16_def add.assoc)
  qed
qed

lemma lz_expand_append: "lz_expand acc (xs @ ys) = lz_expand (lz_expand acc xs) ys"
  by (simp add: lz_expand_def)

lemma lz_tokens_ok_append:
  "lz_tokens_ok acc (xs @ ys) \<longleftrightarrow> lz_tokens_ok acc xs \<and> lz_tokens_ok (lz_expand acc xs) ys"
  by (induction xs arbitrary: acc) (auto simp: lz_expand_def)

lemma length_lz_expand:
  "lz_tokens_ok acc ts \<Longrightarrow> length acc \<le> 4096 \<Longrightarrow> length (lz_expand acc ts) \<le> 4096"
proof (induction ts arbitrary: acc)
  case (Cons t ts)
  then show ?case using Cons.IH [of "lz_step acc t"] by (cases t) (auto simp: lz_expand_def)
qed (simp add: lz_expand_def)

lemma lz_tag_less: "lz_tag ts < 2 ^ length ts"
  by (induction ts rule: lz_tag.induct) auto

lemma dc_tags_eq:
  assumes "lz_tokens_ok acc ts" "length acc \<le> 4096" "cbe = i + length (lz_encode acc ts)"
    "i = length c0" "s = length pre" "4096 \<le> length M"
  shows "dc_tags (c0 @ lz_encode acc ts @ c1) cbe s (s + 4096)
      (pre @ acc @ drop (length acc) M) (s + length acc) i =
    Some (Inr (pre @ lz_expand acc ts @ replicate (4096 - length (lz_expand acc ts)) 0 @ drop 4096 M, s + 4096))"
  using assms
proof (induction acc ts arbitrary: i c0 rule: lz_encode.induct)
  case (1 acc)
  then show ?case using bzero_append [of "s + length acc" "pre @ acc" "4096 - length acc" "drop (length acc) M"]
    by (subst dc_tags.simps) (auto simp: lz_expand_def)
next
  case (2 acc t ts)
  let ?g = "t # take 7 ts"
  have split: "t # ts = ?g @ drop 7 ts" by simp
  have ok: "lz_tokens_ok acc ?g" "lz_tokens_ok (lz_expand acc ?g) (drop 7 ts)"
    using "2.prems"(1) unfolding split lz_tokens_ok_append by blast+
  have ex: "lz_expand acc (t # ts) = lz_expand (lz_expand acc ?g) (drop 7 ts)"
    using lz_expand_append [of acc ?g "drop 7 ts"] by simp
  have len: "length (lz_expand acc ?g) \<le> 4096" using length_lz_expand [OF ok(1) "2.prems"(2)] .
  have "lz_tag ?g < 2 ^ 8"
    by (rule less_le_trans [OF lz_tag_less], rule power_increasing) simp_all
  then have tag: "unat (of_nat (lz_tag ?g) :: u8) = lz_tag ?g" by (simp add: unat_of_nat)
  define tail where "tail = lz_encode (lz_expand acc ?g) (drop 7 ts)"
  have "tail = []" if "length ?g < 8" using that by (simp add: tail_def)
  then have toks: "dc_tokens (c0 @ lz_encode acc (t # ts) @ c1) cbe s (s + 4096) 8 (lz_tag ?g)
      (pre @ acc @ drop (length acc) M) (s + length acc) (i + 1) =
    Some (Inr (pre @ lz_expand acc ?g @ drop (length (lz_expand acc ?g)) M,
      s + length (lz_expand acc ?g), i + 1 + length (lz_bytes acc ?g)))"
    using dc_tokens_eq [of acc ?g 8 cbe "i + 1" "c0 @ [of_nat (lz_tag ?g)]" s pre M "tail @ c1"] ok(1) "2.prems"
    by (simp add: tail_def del: lz_bytes.simps lz_tokens_ok.simps)
  have rd: "rd (c0 @ lz_encode acc (t # ts) @ c1) i = Some (of_nat (lz_tag ?g))"
    using "2.prems"(4) by (simp add: rd_append del: lz_tag.simps)
  have IH: "dc_tags (c0 @ lz_encode acc (t # ts) @ c1) cbe s (s + 4096)
      (pre @ lz_expand acc ?g @ drop (length (lz_expand acc ?g)) M)
      (s + length (lz_expand acc ?g)) (i + 1 + length (lz_bytes acc ?g)) =
    Some (Inr (pre @ lz_expand acc (t # ts) @
      replicate (4096 - length (lz_expand acc (t # ts))) 0 @ drop 4096 M, s + 4096))"
    using "2.IH" [of "i + 1 + length (lz_bytes acc ?g)" "c0 @ of_nat (lz_tag ?g) # lz_bytes acc ?g"]
      ok(2) len "2.prems" ex by (simp del: lz_bytes.simps lz_tokens_ok.simps lz_tag.simps)
  have "i \<noteq> cbe" "\<not> cbe < i" using "2.prems"(3) by auto
  then show ?case unfolding dc_tags.simps [of _ _ _ _ _ _ i] rd using "2.prems"(2) toks IH tag by simp
qed


section \<open>Sub-blocks\<close>

text \<open>
  What sub-blocks from number \<open>i\<close> on leave in the rest of the destination: 4096 bytes each,
  except where the page is kept, and zeroes behind the last one.
\<close>

fun sbs_write :: "(nat \<Rightarrow> bool) \<Rightarrow> nat \<Rightarrow> sub_block list \<Rightarrow> u8 list \<Rightarrow> u8 list" where
  "sbs_write keep i [] xs = replicate (length xs) 0"
| "sbs_write keep i (sb # sbs) xs =
     (if xs = [] then []
      else (if keep i then take 4096 xs else sb_data sb) @ sbs_write keep (i + 1) sbs (drop 4096 xs))"

text \<open>
  The end of a compression block: nothing, or a zero header. Without one the last sub-block
  has at least six bytes.
\<close>

definition cb_tail_ok :: "sub_block list \<Rightarrow> u8 list \<Rightarrow> bool" where
  "cb_tail_ok sbs tail \<longleftrightarrow>
     (if tail = [] then sbs \<noteq> [] \<longrightarrow> 6 \<le> length (sb_bytes (last sbs)) else take 2 tail = [0, 0])"

definition sb_hdr :: "sub_block \<Rightarrow> nat" where
  "sb_hdr sb = (case sb of Raw f xs \<Rightarrow> f * 4096 + 0xfff | Packed f ts \<Rightarrow> (8 + f) * 4096 + (length (lz_encode [] ts) - 1))"

lemma lz_encode_length: "ts \<noteq> [] \<Longrightarrow> 2 \<le> length (lz_encode acc ts)"
proof (cases ts)
  case (Cons t us)
  then show ?thesis by (cases t) (simp_all add: le16_def)
qed simp

lemma sb_hdr_facts:
  assumes "sb_ok sb"
  shows "sb_bytes sb = le16 (sb_hdr sb) @ drop 2 (sb_bytes sb)" "sb_hdr sb < 65536" "sb_hdr sb \<noteq> 0"
    "length (sb_bytes sb) = sb_hdr sb mod 4096 + 3" "4 \<le> length (sb_bytes sb)"
proof -
  have "sb_bytes sb = le16 (sb_hdr sb) @ drop 2 (sb_bytes sb) \<and> sb_hdr sb < 65536 \<and> sb_hdr sb \<noteq> 0 \<and>
    length (sb_bytes sb) = sb_hdr sb mod 4096 + 3 \<and> 4 \<le> length (sb_bytes sb)"
  proof (cases sb)
    case (Packed f ts)
    then have n: "2 \<le> length (lz_encode [] ts)" "length (lz_encode [] ts) \<le> 4096" "f < 8"
      using assms lz_encode_length by auto
    have "((8 + f) * 4096 + (length (lz_encode [] ts) - 1)) mod 4096 = length (lz_encode [] ts) - 1"
      using n(2) mod_mult_self3 [of "8 + f" 4096 "length (lz_encode [] ts) - 1"] by simp
    then show ?thesis using n by (simp add: Packed sb_hdr_def le16_def)
  qed (use assms in \<open>auto simp: sb_hdr_def le16_def\<close>)
  then show "sb_bytes sb = le16 (sb_hdr sb) @ drop 2 (sb_bytes sb)" "sb_hdr sb < 65536" "sb_hdr sb \<noteq> 0"
    "length (sb_bytes sb) = sb_hdr sb mod 4096 + 3" "4 \<le> length (sb_bytes sb)" by blast+
qed

lemma cb_tail_ok_Cons: "cb_tail_ok (sb # sbs) tail \<Longrightarrow> cb_tail_ok sbs tail"
  by (auto simp: cb_tail_ok_def split: if_splits)

lemma cb_tail_room:
  assumes "cb_tail_ok (sb # sbs) tail" "\<forall>sb \<in> set (sb # sbs). sb_ok sb"
  shows "6 \<le> length (sb_bytes sb @ concat (map sb_bytes sbs) @ tail)"
proof (cases sbs)
  case Nil
  have "tail \<noteq> [] \<Longrightarrow> 2 \<le> length tail" using assms(1)
    by (cases tail; cases "tl tail") (auto simp: cb_tail_ok_def)
  then show ?thesis using Nil assms sb_hdr_facts(5) [of sb]
    by (cases "tail = []") (auto simp: cb_tail_ok_def)
next
  case (Cons sb' sbs')
  then show ?thesis using assms(2) sb_hdr_facts(5) [of sb] sb_hdr_facts(5) [of sb'] by auto
qed

lemma length_sb_data: "sb_ok sb \<Longrightarrow> length (sb_data sb) = 4096"
proof (cases sb)
  case (Packed f ts)
  assume "sb_ok sb"
  then have "length (lz_expand [] ts) \<le> 4096" using length_lz_expand [of "[]" ts] by (simp add: Packed)
  then show ?thesis by (simp add: Packed)
qed simp

definition next_pg :: "nat \<Rightarrow> (nat \<Rightarrow> bool) option \<Rightarrow> nat \<Rightarrow> nat \<Rightarrow> nat" where
  "next_pg page_size valid dst pg = (if valid \<noteq> None \<and> (dst + 4096) mod page_size = 0 then pg + 1 else pg)"

abbreviation kept_pg :: "(nat \<Rightarrow> bool) option \<Rightarrow> nat \<Rightarrow> bool" where
  "kept_pg valid pg \<equiv> (case valid of Some v \<Rightarrow> v pg | None \<Rightarrow> False)"

lemma sb_hdr_rd16:
  "sb_ok sb \<Longrightarrow> i = length c0 \<Longrightarrow> rd16 (c0 @ sb_bytes sb @ c1) i = Some (sb_hdr sb)"
  by (subst sb_hdr_facts(1), assumption) (simp add: rd16_le16 sb_hdr_facts(2))

text \<open>What \<open>ntfs_decompress\<close> has checked when it reaches the body of a sub-block.\<close>

definition sb_room :: "sub_block \<Rightarrow> nat \<Rightarrow> nat \<Rightarrow> nat \<Rightarrow> nat \<Rightarrow> bool" where
  "sb_room sb i cb_end dst dst_end \<longleftrightarrow>
     sb_ok sb \<and> i + 6 \<le> cb_end \<and> i + length (sb_bytes sb) \<le> cb_end \<and> dst + 4096 \<le> dst_end"

lemma dc_sbs_skip:
  assumes "sb_room sb i cb_end dst dst_end" "i = length c0"
  shows "dc_sbs page_size valid (c0 @ sb_bytes sb @ c1) cb_end dst_end (Suc k) pg mem dst i =
   dc_sbs page_size valid (c0 @ sb_bytes sb @ c1) cb_end dst_end k pg mem dst (i + length (sb_bytes sb))"
  using assms sb_hdr_facts(3,4) [of sb]
  by (subst dc_sbs.simps) (simp add: sb_room_def sb_hdr_rd16 Let_def add.assoc)

lemma dc_sbs_kept:
  assumes "sb_room sb i cb_end dst dst_end" "i = length c0" "kept_pg valid pg"
  shows "dc_sbs page_size valid (c0 @ sb_bytes sb @ c1) cb_end dst_end 0 pg mem dst i =
   dc_sbs page_size valid (c0 @ sb_bytes sb @ c1) cb_end dst_end 0 (next_pg page_size valid dst pg) mem
     (dst + 4096) (i + length (sb_bytes sb))"
  using assms sb_hdr_facts(3,4) [of sb]
  by (subst dc_sbs.simps) (simp add: sb_room_def sb_hdr_rd16 Let_def add.assoc next_pg_def)

lemma dc_sbs_body:
  fixes c1 :: "u8 list" and page_size :: nat
  assumes "sb_room sb i cb_end dst dst_end" "i = length c0" "\<not> kept_pg valid pg"
  defines "cbm \<equiv> c0 @ sb_bytes sb @ c1" and "e \<equiv> i + length (sb_bytes sb)"
  defines "pg' \<equiv> next_pg page_size valid dst pg"
  shows "dc_sbs page_size valid cbm cb_end dst_end 0 pg mem dst i =
    (if sb_hdr sb < NTFS_SB_IS_COMPRESSED then
       if e \<noteq> i + 4098 then Some (EOVERFLOW, mem)
       else do {
         mem \<leftarrow> copy_els mem dst cbm (i + 2) NTFS_SB_SIZE;
         dc_sbs page_size valid cbm cb_end dst_end 0 pg' mem (dst + 4096) e }
     else do {
       r \<leftarrow> dc_tags cbm e dst (dst + 4096) mem dst (i + 2);
       case r of
         Inl e \<Rightarrow> Some e
       | Inr (mem, dst) \<Rightarrow> dc_sbs page_size valid cbm cb_end dst_end 0 pg' mem dst e })"
proof -
  have "rd16 cbm i = Some (sb_hdr sb)" using assms sb_hdr_rd16 by (simp add: sb_room_def)
  then show ?thesis using assms(1-3) sb_hdr_facts(3,4) [of sb]
    by (subst dc_sbs.simps)
      (simp add: sb_room_def Let_def add.assoc next_pg_def pg'_def e_def cong: if_cong)
qed

lemma dc_sbs_raw:
  assumes "sb_room sb i cb_end dst dst_end" "i = length c0" "\<not> kept_pg valid pg" "sb = Raw f xs"
    "dst = length dn" "4096 \<le> length M"
  shows "dc_sbs page_size valid (c0 @ sb_bytes sb @ c1) cb_end dst_end 0 pg (dn @ M) dst i =
   dc_sbs page_size valid (c0 @ sb_bytes sb @ c1) cb_end dst_end 0 (next_pg page_size valid dst pg)
     (dn @ sb_data sb @ drop 4096 M) (dst + 4096) (i + length (sb_bytes sb))"
proof -
  have xs: "length xs = 4096" "f < 8" using assms by (simp_all add: sb_room_def)
  from xs(1) have "copy_els (dn @ M) dst (c0 @ sb_bytes sb @ c1) (i + 2) 4096 = Some (dn @ xs @ drop 4096 M)"
    using assms by (simp add: copy_els_def le16_def)
  then show ?thesis unfolding dc_sbs_body [OF assms(1-3)] using xs assms(4)
    by (simp add: sb_hdr_def le16_def)
qed

lemma dc_sbs_packed:
  assumes "sb_room sb i cb_end dst dst_end" "i = length c0" "\<not> kept_pg valid pg" "sb = Packed f ts"
    "dst = length dn" "4096 \<le> length M"
  shows "dc_sbs page_size valid (c0 @ sb_bytes sb @ c1) cb_end dst_end 0 pg (dn @ M) dst i =
   dc_sbs page_size valid (c0 @ sb_bytes sb @ c1) cb_end dst_end 0 (next_pg page_size valid dst pg)
     (dn @ sb_data sb @ drop 4096 M) (dst + 4096) (i + length (sb_bytes sb))"
proof -
  have ok: "lz_tokens_ok [] ts" using assms by (simp add: sb_room_def)
  obtain h where h: "sb_bytes sb = h @ lz_encode [] ts" "length h = 2" by (simp add: assms(4) le16_def)
  have "dc_tags (c0 @ sb_bytes sb @ c1) (i + length (sb_bytes sb)) dst (dst + 4096) (dn @ M) dst (i + 2) =
      Some (Inr (dn @ sb_data sb @ drop 4096 M, dst + 4096))"
    using dc_tags_eq [OF ok, of "i + length (sb_bytes sb)" "i + 2" "c0 @ h" dst dn M c1] assms h by simp
  then show ?thesis unfolding dc_sbs_body [OF assms(1-3)] using assms(4) by (simp add: sb_hdr_def)
qed

lemma dc_sbs_step:
  assumes "sb_room sb i cb_end dst dst_end" "i = length c0" "dst = length dn" "4096 \<le> length M"
  shows "dc_sbs page_size valid (c0 @ sb_bytes sb @ c1) cb_end dst_end 0 pg (dn @ M) dst i =
   dc_sbs page_size valid (c0 @ sb_bytes sb @ c1) cb_end dst_end 0 (next_pg page_size valid dst pg)
     (dn @ (if kept_pg valid pg then take 4096 M else sb_data sb) @ drop 4096 M)
     (dst + 4096) (i + length (sb_bytes sb))"
proof (cases "kept_pg valid pg")
  case False
  then show ?thesis
    using dc_sbs_raw [OF assms(1,2) False _ assms(3,4)] dc_sbs_packed [OF assms(1,2) False _ assms(3,4)]
    by (cases sb) simp_all
qed (use dc_sbs_kept [OF assms(1,2)] assms in simp)

text \<open>At the end of the compression block or of the destination.\<close>

lemma dc_sbs_end:
  assumes "cb_tail_ok [] tail" "dst = length dn" "dst_end = dst + length R"
    "cb_end = length (c0 @ tail)" "i = length c0"
  shows "dc_sbs page_size valid (c0 @ tail) cb_end dst_end k pg (dn @ R @ S) dst i =
    Some (EOK, dn @ replicate (length R) 0 @ S)"
proof (cases "tail = []")
  case False
  then obtain r where "tail = 0 # 0 # r" using assms(1)
    by (cases tail; cases "tl tail") (auto simp: cb_tail_ok_def)
  then show ?thesis using assms
    by (subst dc_sbs.simps) (auto simp: rd16_def rd_def nth_append bzero_append)
qed (use assms in \<open>subst dc_sbs.simps, auto simp: bzero_append\<close>)

lemma sb_roomI:
  assumes "\<forall>sb \<in> set (sb # sbs). sb_ok sb" "cb_tail_ok (sb # sbs) tail" "i = length c0"
    "cb_end = length (c0 @ concat (map sb_bytes (sb # sbs)) @ tail)"
    "dst_end = dst + n" "n \<noteq> 0" "4096 dvd n"
  shows "sb_room sb i cb_end dst dst_end"
  using assms cb_tail_room [OF assms(2,1)] dvd_imp_le [OF assms(7)] by (simp add: sb_room_def)

lemma next_pg_eq:
  assumes "page_size = 4096 * q" "dst = 4096 * j" "valid \<noteq> None"
  shows "next_pg page_size valid dst (pg + j div q) = pg + (j + 1) div q"
proof -
  have "dst + 4096 = 4096 * Suc j" using assms(2) by simp
  then have "(dst + 4096) mod page_size = 0 \<longleftrightarrow> Suc j mod q = 0"
    unfolding assms(1) by (simp only: mult_mod_right [symmetric]) simp
  then show ?thesis using assms(3) by (auto simp: next_pg_def div_Suc)
qed

lemma dc_sbs_write:
  fixes pg0 q :: nat and valid :: "(nat \<Rightarrow> bool) option"
  assumes "\<forall>sb \<in> set sbs. sb_ok sb" "cb_tail_ok sbs tail" "dst = length dn" "dst = 4096 * j"
    "dst_end = dst + length R" "4096 dvd length R" "i = length c0" "page_size = 4096 * q"
    "cb_end = length (c0 @ concat (map sb_bytes sbs) @ tail)" "valid \<noteq> None \<Longrightarrow> pg = pg0 + j div q"
  shows "dc_sbs page_size valid (c0 @ concat (map sb_bytes sbs) @ tail) cb_end dst_end 0 pg (dn @ R @ S) dst i =
    Some (EOK, dn @ sbs_write (\<lambda>j. kept_pg valid (pg0 + j div q)) j sbs R @ S)"
  using assms
proof (induction sbs arbitrary: dst dn j R i c0 pg)
  case Nil
  then show ?case using dc_sbs_end [of tail dst dn dst_end R cb_end c0 i] by simp
next
  case (Cons sb sbs)
  let ?c1 = "concat (map sb_bytes sbs) @ tail"
  show ?case
  proof (cases "R = []")
    case True
    have "i \<noteq> cb_end" using Cons.prems sb_hdr_facts(5) [of sb] by auto
    then show ?thesis using True Cons.prems sb_hdr_rd16 [of sb i c0 ?c1]
      by (subst dc_sbs.simps) simp
  next
    case False
    let ?X = "if kept_pg valid pg then take 4096 R else sb_data sb"
    have R: "4096 \<le> length R" using False Cons.prems(6) by (simp add: dvd_imp_le)
    have room: "sb_room sb i cb_end dst dst_end"
      using sb_roomI [OF Cons.prems(1,2,7,9,5) _ Cons.prems(6)] False by simp
    have step: "dc_sbs page_size valid (c0 @ sb_bytes sb @ ?c1) cb_end dst_end 0 pg (dn @ R @ S) dst i =
      dc_sbs page_size valid (c0 @ sb_bytes sb @ ?c1) cb_end dst_end 0 (next_pg page_size valid dst pg)
        (dn @ ?X @ drop 4096 R @ S) (dst + 4096) (i + length (sb_bytes sb))"
      using dc_sbs_step [OF room Cons.prems(7,3), of "R @ S"] R by simp
    have X: "length ?X = 4096" using R Cons.prems(1) length_sb_data [of sb] by simp
    have pg: "valid \<noteq> None \<Longrightarrow> next_pg page_size valid dst pg = pg0 + (j + 1) div q"
      using next_pg_eq [OF Cons.prems(8,4)] Cons.prems(10) by simp
    have "kept_pg valid pg = kept_pg valid (pg0 + j div q)" using Cons.prems(10) by (cases valid) simp_all
    moreover have "dc_sbs page_size valid ((c0 @ sb_bytes sb) @ ?c1) cb_end dst_end 0
        (next_pg page_size valid dst pg) ((dn @ ?X) @ drop 4096 R @ S) (dst + 4096) (i + length (sb_bytes sb)) =
      Some (EOK, (dn @ ?X) @ sbs_write (\<lambda>j. kept_pg valid (pg0 + j div q)) (j + 1) sbs (drop 4096 R) @ S)"
      by (rule Cons.IH) (use Cons.prems X R pg cb_tail_ok_Cons [OF Cons.prems(2)] in \<open>simp_all add: dvd_diff_nat\<close>)
    ultimately show ?thesis using step False by simp
  qed
qed

lemma dc_sbs_skip_write:
  fixes pg0 q :: nat
  assumes "\<forall>sb \<in> set sbs. sb_ok sb" "cb_tail_ok sbs tail" "R \<noteq> []" "dst_end = length R" "4096 dvd length R"
    "i = length c0" "page_size = 4096 * q" "cb_end = length (c0 @ concat (map sb_bytes sbs) @ tail)"
  shows "dc_sbs page_size valid (c0 @ concat (map sb_bytes sbs) @ tail) cb_end dst_end k pg (R @ S) 0 i =
    Some (EOK, sbs_write (\<lambda>j. kept_pg valid (pg + j div q)) 0 (drop k sbs) R @ S)"
  using assms
proof (induction sbs arbitrary: k i c0)
  case Nil
  then show ?case using dc_sbs_end [of tail 0 "[]" dst_end R cb_end c0 i] by simp
next
  case (Cons sb sbs)
  show ?case
  proof (cases k)
    case 0
    then show ?thesis using dc_sbs_write [OF Cons.prems(1,2), of 0 "[]" 0 dst_end R i c0 page_size q] Cons.prems
      by simp
  next
    case (Suc n)
    have room: "sb_room sb i cb_end 0 dst_end"
      using sb_roomI [OF Cons.prems(1,2,6,8) _ _ Cons.prems(5), of dst_end 0] Cons.prems(3,4) by simp
    have "dc_sbs page_size valid ((c0 @ sb_bytes sb) @ concat (map sb_bytes sbs) @ tail) cb_end dst_end n pg (R @ S)
        0 (i + length (sb_bytes sb)) =
      Some (EOK, sbs_write (\<lambda>j. kept_pg valid (pg + j div q)) 0 (drop n sbs) R @ S)"
      by (rule Cons.IH) (use Cons.prems cb_tail_ok_Cons [OF Cons.prems(2)] in simp_all)
    then show ?thesis using dc_sbs_skip [OF room Cons.prems(6)] by (simp add: Suc)
  qed
qed

lemma lz_copy_run: "acc \<noteq> [] \<Longrightarrow> lz_copy acc 1 n = acc @ replicate n (last acc)"
  by (induction n arbitrary: acc) (simp_all add: last_conv_nth)

text \<open>The example of the comment before \<open>ntfs_decompress\<close>: a block full of the letter A.\<close>

lemma sb_all_A:
  obtains sb where "sb_ok sb" "sb_bytes sb = [0x03, 0xb0, 0x02, 0x41, 0xfc, 0x0f]" "sb_data sb = replicate 4096 0x41"
proof -
  define sb where "sb = Packed 3 [Sym 0x41, Phrase 1 4095]"
  have enc: "lz_encode [] [Sym 0x41, Phrase 1 4095] = [0x02, 0x41, 0xfc, 0x0f]"
    by (simp add: lz_len_bits_def le16_def)
  have "sb_bytes sb = [0x03, 0xb0, 0x02, 0x41, 0xfc, 0x0f]"
    by (simp only: sb_def sb_bytes.simps enc) (simp add: le16_def)
  moreover have "lz_expand [] [Sym 0x41, Phrase 1 4095] = 0x41 # replicate 4095 0x41"
    by (simp add: lz_expand_def lz_copy_run [simplified])
  then have "sb_data sb = replicate 4096 0x41"
    using replicate_Suc [of 4095 "0x41 :: u8"] by (simp add: sb_def del: replicate_Suc)
  moreover have "sb_ok sb" by (simp add: sb_def lz_len_bits_def le16_def)
  ultimately show ?thesis using that by blast
qed

section \<open>Properties\<close>

text \<open>
  C19. Decompression of a compression block: given sub-blocks in the LZNT1 format, one after
  the other, then a zero header or the end of the block, \<open>ntfs_decompress\<close> succeeds. It skips
  the sub-blocks before the destination, leaves every destination page that is valid alone,
  writes the 4096 bytes each other sub-block stands for, fills what no sub-block covers with
  zeroes and touches nothing behind the destination.
\<close>

theorem ntfs_decompress_correct:
  fixes pl :: "(nat \<Rightarrow> bool) option" and cur_pg pages_per_cb :: nat
  assumes "\<forall>sb \<in> set sbs. sb_ok sb" and "cb_tail_ok sbs tail"
    and "4096 dvd page_size" and "4096 dvd dst_size" and "0 < dst_size" and "dst_size \<le> length mem"
  defines "cbm \<equiv> concat (map sb_bytes sbs) @ tail"
    and "kept \<equiv> \<lambda>j. \<exists>v. pl = Some v \<and> 1 < pages_per_cb \<and> v (cur_pg + j div (page_size div 4096))"
  shows "ntfs_decompress page_size mem dst_ofs_in_cb dst_size cbm (length cbm) pl cur_pg pages_per_cb =
    Some (EOK, sbs_write kept 0 (drop (dst_ofs_in_cb div 4096) sbs) (take dst_size mem) @ drop dst_size mem)"
proof -
  let ?v = "if 1 < pages_per_cb then pl else None"
  have "kept = (\<lambda>j. kept_pg ?v (cur_pg + j div (page_size div 4096)))"
    by (auto simp: kept_def split: option.splits)
  moreover have "dst_size = length (take dst_size mem)" "4096 dvd length (take dst_size mem)" "take dst_size mem \<noteq> []"
    using assms(4-6) by (auto simp: min_def)
  ultimately show ?thesis
    using dc_sbs_skip_write [OF assms(1,2), of "take dst_size mem" dst_size 0 "[]" page_size
        "page_size div 4096" "length cbm" ?v "dst_ofs_in_cb div 4096" cur_pg "drop dst_size mem"] assms(3)
    by (simp add: ntfs_decompress_def cbm_def)
qed

theorem ntfs_decompress_correct_witness:
  "ntfs_decompress 4096 (replicate 4096 0) 0 4096 [0x03, 0xb0, 0x02, 0x41, 0xfc, 0x0f] 6 None 0 16 =
   Some (EOK, replicate 4096 0x41)"
proof -
  obtain sb where sb: "sb_ok sb" "sb_bytes sb = [0x03, 0xb0, 0x02, 0x41, 0xfc, 0x0f]" "sb_data sb = replicate 4096 0x41"
    by (rule sb_all_A)
  have "length (sb_bytes sb) = 6" "length (sb_data sb) = 4096" by (simp_all add: sb)
  then have "ntfs_decompress 4096 (replicate 4096 0) 0 4096 (sb_bytes sb) 6 None 0 16 = Some (EOK, sb_data sb)"
    using ntfs_decompress_correct [where sbs = "[sb]" and tail = "[]" and page_size = 4096 and dst_size = 4096 and
        mem = "replicate 4096 0" and pl = None and pages_per_cb = 16 and cur_pg = 0 and dst_ofs_in_cb = 0] sb(1)
    by (simp add: cb_tail_ok_def)
  then show ?thesis by (simp only: sb)
qed

end
