(* ===== verification/NTFS_Compress_Memory.thy ===== *)
theory NTFS_Compress_Memory
  imports NTFS_Compress
begin

text \<open>
  The memory \<open>ntfs_decompress\<close> touches on arbitrary, possibly corrupt, input: how far it can
  write and read, and an input that makes it write behind the destination.
\<close>

section \<open>Memory\<close>

text \<open>Two states of a buffer that differ at most before position \<open>n\<close>.\<close>

definition same_from :: "nat \<Rightarrow> u8 list \<Rightarrow> u8 list \<Rightarrow> bool" where
  "same_from n xs ys \<longleftrightarrow> length ys = length xs \<and> drop n ys = drop n xs"

lemma same_from_refl [simp]: "same_from n xs xs"
  by (simp add: same_from_def)

lemma same_from_trans: "same_from n xs ys \<Longrightarrow> same_from n ys zs \<Longrightarrow> same_from n xs zs"
  by (simp add: same_from_def)

lemma same_from_mono: "same_from n xs ys \<Longrightarrow> n \<le> m \<Longrightarrow> same_from m xs ys"
  unfolding same_from_def by (metis drop_drop le_add_diff_inverse2)

lemma same_from_update: "i < n \<Longrightarrow> same_from n xs (xs[i := v])"
  by (simp add: same_from_def drop_update_cancel)

lemma copy_els_safe:
  assumes "di + n \<le> length dst" "si + n \<le> length src" "di + n \<le> m"
  obtains ys where "copy_els dst di src si n = Some ys" "same_from m dst ys"
proof -
  have "same_from (di + n) dst (take di dst @ take n (drop si src) @ drop (di + n) dst)"
    using assms by (simp add: same_from_def)
  then show ?thesis using that assms same_from_mono by (cases "n = 0") (auto simp: copy_els_def)
qed

lemma dc_copy_slow_safe:
  "dst + n \<le> length mem \<Longrightarrow> dst + n \<le> m \<Longrightarrow> bk \<le> dst \<Longrightarrow>
   \<exists>mem'. dc_copy_slow mem dst bk n = Some mem' \<and> same_from m mem mem'"
proof (induction n arbitrary: mem dst bk)
  case (Suc n)
  let ?mem = "mem[dst := mem ! bk]"
  have "\<exists>mem'. dc_copy_slow ?mem (dst + 1) (bk + 1) n = Some mem' \<and> same_from m ?mem mem'"
    using Suc.IH [of "dst + 1" ?mem "bk + 1"] Suc.prems by simp
  moreover have "same_from m mem ?mem" using Suc.prems by (intro same_from_update) simp
  ultimately show ?case using Suc.prems same_from_trans by (fastforce simp: mem_simps)
qed simp

lemma dc_copy_safe:
  assumes "dst + n \<le> length mem" "dst + n \<le> m" "bk \<le> dst"
  shows "\<exists>mem'. dc_copy mem dst bk n = Some mem' \<and> same_from m mem mem'"
proof (cases "n \<le> dst - bk")
  case True
  obtain mem' where "copy_els mem dst mem bk n = Some mem'" "same_from m mem mem'"
    by (rule copy_els_safe [of dst n mem bk mem m]) (use assms in simp_all)
  then show ?thesis using True by (simp add: dc_copy_def move_els_def Let_def)
next
  case False
  obtain mem' where 1: "copy_els mem dst mem bk (dst - bk) = Some mem'" "same_from m mem mem'"
    by (rule copy_els_safe [of dst "dst - bk" mem bk mem m]) (use assms False in simp_all)
  have "\<exists>ys. dc_copy_slow mem' (dst + (dst - bk)) (bk + (dst - bk)) (n - (dst - bk)) = Some ys \<and>
      same_from m mem' ys"
    by (rule dc_copy_slow_safe) (use assms False 1 in \<open>simp_all add: same_from_def\<close>)
  then show ?thesis using False 1 same_from_trans
    by (fastforce simp: dc_copy_def move_els_def Let_def)
qed

lemma dc_phrase_safe:
  assumes "cb + 1 < length cbm" "e < length mem" "e < m" "s \<le> dst"
  shows "dc_phrase cbm s e mem dst cb = Some (Inl EOVERFLOW) \<or>
    (\<exists>mem' dst'. dc_phrase cbm s e mem dst cb = Some (Inr (mem', dst')) \<and>
       same_from m mem mem' \<and> dst \<le> dst' \<and> dst' \<le> e)"
proof -
  obtain pt where pt: "rd16 cbm cb = Some pt" using assms(1) by (simp add: rd16_def mem_simps)
  define k where "k = 12 - dc_lg (dst - s - 1)"
  define l where "l = pt mod 2 ^ k + 3"
  define p where "p = pt div 2 ^ k + 1"
  have *: "\<exists>mem'. dc_copy mem dst (dst - p) l = Some mem' \<and> same_from m mem mem'" if "dst + l \<le> e"
    by (rule dc_copy_safe) (use assms that in simp_all)
  have "dc_phrase cbm s e mem dst cb =
    (if dst = s then Some (Inl EOVERFLOW) else if dst < s + p then Some (Inl EOVERFLOW)
     else if e < dst + l then Some (Inl EOVERFLOW)
     else do { mem \<leftarrow> dc_copy mem dst (dst - p) l; Some (Inr (mem, dst + l)) })"
    unfolding dc_phrase_def Let_def pt k_def [symmetric] bind.bind_lunit p_def [symmetric] l_def [symmetric] ..
  then show ?thesis using * by (cases "dst + l \<le> e") auto
qed

lemma dc_tokens_safe:
  assumes "cbe < length cbm" "e < length mem" "e < m" "s \<le> dst" "dst \<le> e + 1"
  shows "(\<exists>mem'. dc_tokens cbm cbe s e n tag mem dst cb = Some (Inl (EOVERFLOW, mem')) \<and> same_from m mem mem') \<or>
    (\<exists>mem' dst' cb'. dc_tokens cbm cbe s e n tag mem dst cb = Some (Inr (mem', dst', cb')) \<and>
       same_from m mem mem' \<and> s \<le> dst' \<and> dst' \<le> e + 1)"
  using assms
proof (induction n arbitrary: tag mem dst cb)
  case (Suc n)
  consider "cbe \<le> cb \<or> e < dst" | "cb < cbe" "dst \<le> e" "even tag" | "cb < cbe" "dst \<le> e" "odd tag"
    by linarith
  then show ?case
  proof cases
    case 1
    then show ?thesis using Suc.prems by simp
  next
    case 2
    let ?mem = "mem[dst := cbm ! cb]"
    have "same_from m mem ?mem" using 2 Suc.prems by (intro same_from_update) simp
    then show ?thesis using Suc.IH [of ?mem "dst + 1" "tag div 2" "cb + 1"] 2 Suc.prems
      by (auto simp: mem_simps dest: same_from_trans)
  next
    case 3
    from dc_phrase_safe [of cb cbm e mem m s dst] 3 Suc.prems
    consider "dc_phrase cbm s e mem dst cb = Some (Inl EOVERFLOW)"
      | mem' dst' where "dc_phrase cbm s e mem dst cb = Some (Inr (mem', dst'))"
          "same_from m mem mem'" "dst \<le> dst'" "dst' \<le> e" by auto
    then show ?thesis
    proof cases
      case 1
      then show ?thesis using 3 by simp
    next
      case 2
      have "e < length mem'" using 2(2) Suc.prems by (simp add: same_from_def)
      then show ?thesis using Suc.IH [of mem' dst' "tag div 2" "cb + 2"] 2 3 Suc.prems
        by (auto dest: same_from_trans)
    qed
  qed
qed simp

lemma bzero_safe:
  assumes "i + n \<le> length mem" "i + n \<le> m"
  shows "\<exists>mem'. bzero mem i n = Some mem' \<and> same_from m mem mem'"
  using copy_els_safe [of i n mem 0 "replicate n 0" m] assms by (auto simp: bzero_def)

lemma dc_tags_safe:
  assumes "cbe < length cbm" "e < length mem" "e < m" "s \<le> dst" "dst \<le> e + 1"
  shows "(\<exists>mem'. dc_tags cbm cbe s e mem dst cb = Some (Inl (EOVERFLOW, mem')) \<and> same_from m mem mem') \<or>
    (\<exists>mem' dst'. dc_tags cbm cbe s e mem dst cb = Some (Inr (mem', dst')) \<and>
       same_from m mem mem' \<and> dst' \<le> e + 1)"
  using assms
proof (induction cbm cbe s e mem dst cb rule: dc_tags.induct)
  case (1 cbm cbe s e mem dst cb)
  consider "cb = cbe" | "cb \<noteq> cbe" "cbe < cb \<or> e < dst" | "cb < cbe" "dst \<le> e" by linarith
  then show ?case
  proof cases
    case 1
    then show ?thesis using "1.prems" bzero_safe [of dst "e - dst" mem m]
      by (subst (1 2) dc_tags.simps) (auto, blast)
  next
    case 2
    then show ?thesis by (subst (1 2) dc_tags.simps) auto
  next
    case 3
    have rd: "rd cbm cb = Some (cbm ! cb)" using 3 "1.prems" by (simp add: mem_simps)
    let ?r = "dc_tokens cbm cbe s e 8 (unat (cbm ! cb)) mem dst (cb + 1)"
    from dc_tokens_safe [OF "1.prems"]
    consider mem' where "?r = Some (Inl (EOVERFLOW, mem'))" "same_from m mem mem'"
      | mem' dst' cb' where "?r = Some (Inr (mem', dst', cb'))" "same_from m mem mem'" "s \<le> dst'" "dst' \<le> e + 1"
      by metis
    then show ?thesis
    proof cases
      case 1
      then show ?thesis using 3 rd by (subst (1 2) dc_tags.simps) auto
    next
      case 2
      have "e < length mem'" using 2(2) "1.prems" by (simp add: same_from_def)
      then have "(\<exists>ys. dc_tags cbm cbe s e mem' dst' cb' = Some (Inl (EOVERFLOW, ys)) \<and> same_from m mem' ys) \<or>
        (\<exists>ys d. dc_tags cbm cbe s e mem' dst' cb' = Some (Inr (ys, d)) \<and> same_from m mem' ys \<and> d \<le> e + 1)"
        using "1.IH" [OF _ _ rd 2(1), of "(mem', dst', cb')" mem' "(dst', cb')" dst' cb'] 2 3 "1.prems" by auto
      moreover have "dc_tags cbm cbe s e mem dst cb = dc_tags cbm cbe s e mem' dst' cb'"
        using 3 rd 2(1) by (subst dc_tags.simps) simp
      ultimately show ?thesis using 2(2) same_from_trans by fastforce
    qed
  qed
qed


definition dc_safe :: "nat \<Rightarrow> u8 list \<Rightarrow> (errno \<times> u8 list) option \<Rightarrow> bool" where
  "dc_safe m mem res \<longleftrightarrow> (\<exists>r mem'. res = Some (r, mem') \<and> r \<in> {EOK, EOVERFLOW} \<and> same_from m mem mem')"

lemma dc_safe_trans: "same_from m mem mem' \<Longrightarrow> dc_safe m mem' res \<Longrightarrow> dc_safe m mem res"
  unfolding dc_safe_def using same_from_trans by blast

lemma dc_safe_Some [simp]: "dc_safe m mem (Some (EOVERFLOW, mem))" "dc_safe m mem (Some (EOK, mem))"
  by (simp_all add: dc_safe_def)

lemma dc_safe_if:
  "(c \<Longrightarrow> dc_safe m mem a) \<Longrightarrow> (\<not> c \<Longrightarrow> dc_safe m mem b) \<Longrightarrow> dc_safe m mem (if c then a else b)"
  by simp

lemma dc_sbs_safe:
  assumes "cb_end < length cbm" "dst_end < length mem" "dst \<le> dst_end + 1" "cb \<le> cb_end"
  shows "dc_safe (dst_end + 1) mem (dc_sbs page_size valid cbm cb_end dst_end k pg mem dst cb)"
  using assms
proof (induction "cb_end - cb" arbitrary: k pg mem dst cb rule: less_induct)
  case less
  let ?m = "dst_end + 1" and ?go = "dc_sbs page_size valid cbm cb_end dst_end"
  have stop: "dc_safe ?m mem (do {
      mem \<leftarrow> (if dst < dst_end then bzero mem dst (dst_end - dst) else Some mem); Some (EOK, mem) })"
    using bzero_safe [of dst "dst_end - dst" mem ?m] less.prems by (auto simp: dc_safe_def)
  show ?case
  proof (cases "cb = cb_end")
    case False
    then obtain hdr where hdr: "rd16 cbm cb = Some hdr" using less.prems by (simp add: rd16_def mem_simps)
    let ?e = "cb + hdr mod 4096 + 3"
    have go: "dc_safe ?m mem (?go k' pg' mem' dst' ?e)"
      if "?e \<le> cb_end" "same_from ?m mem mem'" "dst' \<le> ?m" for k' pg' mem' dst'
      using that less.prems less.hyps [of ?e mem' dst' k' pg'] dc_safe_trans [OF that(2)]
      by (auto simp: same_from_def)
    have raw: "dc_safe ?m mem (do { mem \<leftarrow> copy_els mem dst cbm (cb + 2) 4096; ?go 0 pg' mem (dst + 4096) ?e })"
      if "?e = cb + 4098" "?e \<le> cb_end" "dst + 4096 \<le> dst_end" for pg'
    proof -
      note h = that
      obtain mem' where "copy_els mem dst cbm (cb + 2) 4096 = Some mem'" "same_from ?m mem mem'"
        by (rule copy_els_safe [of dst 4096 mem "cb + 2" cbm ?m]) (use h less.prems in simp_all)
      then show ?thesis using go [OF h(2)] h(3) by simp
    qed
    have packed: "dc_safe ?m mem (do {
        r \<leftarrow> dc_tags cbm ?e dst (dst + 4096) mem dst (cb + 2);
        case r of Inl e \<Rightarrow> Some e | Inr (mem, dst) \<Rightarrow> ?go 0 pg' mem dst ?e })"
      if "?e \<le> cb_end" "dst + 4096 \<le> dst_end" for pg'
    proof -
      from dc_tags_safe [of ?e cbm "dst + 4096" mem ?m dst dst "cb + 2"] that less.prems
      consider mem' where "dc_tags cbm ?e dst (dst + 4096) mem dst (cb + 2) = Some (Inl (EOVERFLOW, mem'))"
          "same_from ?m mem mem'"
        | mem' dst' where "dc_tags cbm ?e dst (dst + 4096) mem dst (cb + 2) = Some (Inr (mem', dst'))"
          "same_from ?m mem mem'" "dst' \<le> dst + 4096 + 1" by auto
      then show ?thesis by cases (use go that in \<open>auto simp: dc_safe_def\<close>)
    qed
    show ?thesis unfolding dc_sbs.simps [of _ _ _ _ _ _ _ _ _ cb] hdr Let_def bind.bind_lunit
      by (intro dc_safe_if stop go raw packed dc_safe_Some) (use False in \<open>simp_all add: not_less\<close>)
  qed (use stop in \<open>subst dc_sbs.simps, simp\<close>)
qed

text \<open>
  C21. Whatever the compression block contains, \<open>ntfs_decompress\<close> returns, with success or
  \<open>EOVERFLOW\<close>, provided one byte can be read behind the compression block and one byte written
  behind the destination; it changes nothing farther behind.
\<close>

theorem ntfs_decompress_safe:
  assumes "cb_size < length cbm" and "dst_size < length mem"
  shows "\<exists>r mem'. ntfs_decompress page_size mem dst_ofs_in_cb dst_size cbm cb_size pl cur_pg pages_per_cb =
      Some (r, mem') \<and> r \<in> {EOK, EOVERFLOW} \<and> length mem' = length mem \<and>
      drop (dst_size + 1) mem' = drop (dst_size + 1) mem"
  using dc_sbs_safe [OF assms, of 0 0] unfolding ntfs_decompress_def dc_safe_def same_from_def by simp

theorem ntfs_decompress_safe_witness:
  "\<exists>r mem'. ntfs_decompress 4096 (replicate 4097 0) 0 4096 [3, 0, 1, 2, 3, 4, 5] 6 None 0 16 = Some (r, mem') \<and>
     r \<in> {EOK, EOVERFLOW} \<and> length mem' = 4097 \<and> drop 4097 mem' = []"
  using ntfs_decompress_safe [where cb_size = 6 and cbm = "[3, 0, 1, 2, 3, 4, 5]" and dst_size = 4096 and
      mem = "replicate 4097 0" and page_size = 4096 and dst_ofs_in_cb = 0 and pl = None and cur_pg = 0 and
      pages_per_cb = 16] by simp

lemma dc_tokens_overflow:
  assumes "4096 \<le> length mem"
  shows "dc_tokens [0x04, 0xb0, 0x02, 0x41, 0xfc, 0x0f, b] 7 0 4096 (Suc (Suc (Suc (Suc n)))) 2 mem 0 3 =
    do { mem \<leftarrow> wr (replicate 4096 0x41 @ drop 4096 mem) 4096 b; Some (Inr (mem, 4097, 7)) }"
proof -
  let ?cbm = "[0x04, 0xb0, 0x02, 0x41, 0xfc, 0x0f, b]" and ?mem = "mem[0 := 0x41]"
  have mem: "?mem = [0x41] @ drop 1 mem" using assms by (cases mem) simp_all
  have rep: "lz_copy [0x41 :: u8] 1 4095 = replicate 4096 0x41"
    using replicate_Suc [of 4095 "0x41 :: u8"] by (simp add: lz_copy_run [simplified] del: replicate_Suc)
  have "dc_copy ?mem 1 0 4095 = Some (replicate 4096 0x41 @ drop 4096 mem)"
    using dc_copy_eq [of 1 "[0x41]" 4095 "drop 1 mem"] assms unfolding mem rep [symmetric] by simp
  then have phrase: "dc_phrase ?cbm 0 4096 ?mem 1 4 = Some (Inr (replicate 4096 0x41 @ drop 4096 mem, 4096))"
    by (simp add: dc_phrase_def rd16_def rd_def dc_lg.simps)
  have wr: "wr mem 0 0x41 = Some ?mem" and rd: "rd ?cbm 3 = Some 0x41" "rd ?cbm 6 = Some b"
    using assms by (auto simp: rd_def wr_def)
  show ?thesis using phrase wr rd by (simp add: bind_assoc)
qed

text \<open>
  C39. The byte behind the destination is written: seven bytes of compressed data make
  \<open>ntfs_decompress\<close> report success and put a byte of their choice right behind a destination of
  4096 bytes; when the destination buffer ends there the write is outside it.
\<close>

theorem ntfs_decompress_overflows:
  assumes "length mem = 4096"
  shows "ntfs_decompress 4096 (mem @ x # after) 0 4096 [0x04, 0xb0, 0x02, 0x41, 0xfc, 0x0f, b] 7 pl cur_pg 1 =
      Some (EOK, replicate 4096 0x41 @ b # after) \<and>
    ntfs_decompress 4096 mem 0 4096 [0x04, 0xb0, 0x02, 0x41, 0xfc, 0x0f, b] 7 pl cur_pg 1 = None"
proof -
  let ?cbm = "[0x04, 0xb0, 0x02, 0x41, 0xfc, 0x0f, b]"
  have tags: "dc_tags ?cbm 7 0 4096 M 0 2 =
      do { M \<leftarrow> wr (replicate 4096 0x41 @ drop 4096 M) 4096 b; Some (Inr (M, 4097)) }"
    if "4096 \<le> length M" for M
    using dc_tokens_overflow [OF that, of b 4]
    by (subst dc_tags.simps) (simp add: rd_def bind_assoc dc_tags.simps [of _ _ _ _ _ _ 7])
  have hdr: "rd16 ?cbm 0 = Some 0xb004" by (simp add: rd16_def rd_def)
  have run: "ntfs_decompress 4096 M 0 4096 ?cbm 7 pl cur_pg 1 =
      do { M \<leftarrow> wr (replicate 4096 0x41 @ drop 4096 M) 4096 b; Some (EOK, M) }"
    if "4096 \<le> length M" for M
    unfolding ntfs_decompress_def using tags [OF that] hdr
    by (subst dc_sbs.simps) (simp add: Let_def bind_assoc dc_sbs.simps [of _ _ _ _ _ _ _ _ _ 7] numeral_2_eq_2)
  show ?thesis using run [of mem] run [of "mem @ x # after"] assms by (simp add: wr_append wr_None)
qed

theorem ntfs_decompress_overflows_witness:
  "ntfs_decompress 4096 (replicate 4096 0 @ [0x11, 0x22]) 0 4096 [0x04, 0xb0, 0x02, 0x41, 0xfc, 0x0f, 0x99] 7 None 0 1 =
   Some (EOK, replicate 4096 0x41 @ [0x99, 0x22])"
  using ntfs_decompress_overflows [of "replicate 4096 0" "0x11" "[0x22]" "0x99" None 0] by simp

end
