(* ===== verification/NTFS_Compress_Read.thy ===== *)
theory NTFS_Compress_Read
  imports NTFS_Compress NTFS_Runlist
begin

text \<open>
  Reading a compressed attribute, \<open>ntfs_get_cb_type\<close> and \<open>ntfs_read_compressed\<close> of
  \<open>kext/ntfs_compress.c\<close>: each compression block is sparse, stored or compressed, as the
  runlist of the attribute tells, and is zeroed, read or decompressed into the destination.

  The destination buffer begins at offset 0 of a byte buffer. What the code calls is a
  parameter: \<open>map_runlist\<close> is \<open>ntfs_map_runlist_nolock\<close>, which returns an error or a runlist with
  more of it mapped, and \<open>cluster_read\<close> is the \<open>cluster_read\<close> of the kernel on the raw vnode, which
  returns an error code and the bytes it transferred. Locks are not modelled, and upgrading
  the lock on the runlist counts as successful.
\<close>

section \<open>The type of a compression block\<close>

datatype cb_type = NTFS_CB_SPARSE | NTFS_CB_COMPRESSED | NTFS_CB_UNCOMPRESSED

record cb_inode =
  cb_cluster_size_shift :: nat
  compression_block_clusters :: nat
  compression_block_size :: nat
  cb_rl :: "ntfs_rl_element list"

text \<open>
  From \<open>next_vcn\<close> on, with the runlist from the current element on. The result is the type, or
  the lcn that is neither a hole nor real, with the vcn and \<open>is_retry\<close>. When the last vcn of the
  block is in a real run that seems to end before it, the code comes back to the same place
  with the same values for ever: \<open>None\<close>.
\<close>

function cb_type_scan ::
  "int \<Rightarrow> int \<Rightarrow> ntfs_rl_element list \<Rightarrow> int \<Rightarrow> bool \<Rightarrow> (cb_type + int \<times> int \<times> bool) option" where
  "cb_type_scan start_vcn end_vcn xs v is_retry = do {
     n \<leftarrow> rl_skip xs v;
     (l, clusters) \<leftarrow> ntfs_rl_vcn_to_lcn (drop n xs) v;
     if l = LCN_HOLE then Some (Inl (if v = start_vcn then NTFS_CB_SPARSE else NTFS_CB_COMPRESSED))
     else if 0 \<le> l then (
       case clusters of
         None \<Rightarrow> None
       | Some c \<Rightarrow>
           if end_vcn \<le> v + c then Some (Inl NTFS_CB_UNCOMPRESSED)
           else if v = end_vcn - 1 then None
           else cb_type_scan start_vcn end_vcn (drop n xs) (end_vcn - 1) False)
     else Some (Inr (l, v, is_retry)) }"
  by pat_completeness auto
termination
  by (relation "measure (\<lambda>(s, e, xs, v, r). if v = e - 1 then 0 else 1)") auto

declare cb_type_scan.simps [simp del]

lemma cb_type_scan_moves:
  "cb_type_scan s e xs v r = Some (Inr (l, v', r')) \<Longrightarrow> (v' = v \<and> r' = r) \<or> (v \<noteq> e - 1 \<and> v' = e - 1)"
proof (induction s e xs v r rule: cb_type_scan.induct)
  case (1 s e xs v r)
  from "1.prems" show ?case
    by (subst (asm) cb_type_scan.simps)
      (auto split: bind_splits option.splits if_splits prod.splits dest!: "1.IH" [rotated -1])
qed

text \<open>From \<open>retry_remap\<close> on.\<close>

function cb_type_try ::
  "(ntfs_rl_element list \<Rightarrow> int \<Rightarrow> errno \<times> ntfs_rl_element list) \<Rightarrow> int \<Rightarrow> int \<Rightarrow>
   ntfs_rl_element list \<Rightarrow> int \<Rightarrow> bool \<Rightarrow> ((cb_type + errno) \<times> ntfs_rl_element list) option" where
  "cb_type_try map_runlist start_vcn end_vcn xs v is_retry = do {
     r \<leftarrow> (if xs = [] then Some (Inr (LCN_RL_NOT_MAPPED, v, is_retry))
          else cb_type_scan start_vcn end_vcn xs v is_retry);
     case r of
       Inl t \<Rightarrow> Some (Inl t, xs)
     | Inr (l, v, is_retry) \<Rightarrow>
         if \<not> is_retry \<and> l = LCN_RL_NOT_MAPPED then (
           case map_runlist xs v of (err, ys) \<Rightarrow>
             if err = EOK then cb_type_try map_runlist start_vcn end_vcn ys v True
             else Some (Inr err, ys))
         else Some (Inr EIO, xs) }"
  by pat_completeness auto
termination
  by (relation "measures [\<lambda>(m, s, e, xs, v, r). if v = e - 1 then 0 else 1,
      \<lambda>(m, s, e, xs, v, r). if r then 0 else 1]")
    (auto split: if_splits dest: cb_type_scan_moves)

declare cb_type_try.simps [simp del]

definition ntfs_get_cb_type ::
  "(ntfs_rl_element list \<Rightarrow> int \<Rightarrow> errno \<times> ntfs_rl_element list) \<Rightarrow> cb_inode \<Rightarrow> int \<Rightarrow>
   ((cb_type + errno) \<times> cb_inode) option" where
  "ntfs_get_cb_type map_runlist ni ofs = (
     let start_vcn = ofs div 2 ^ cb_cluster_size_shift ni;
         end_vcn = start_vcn + int (compression_block_clusters ni) in do {
     (ret, xs) \<leftarrow> cb_type_try map_runlist start_vcn end_vcn (cb_rl ni) start_vcn False;
     Some (ret, ni\<lparr>cb_rl := xs\<rparr>) })"

section \<open>Reading\<close>

text \<open>Zero the invalid ones of the \<open>n\<close> pages from \<open>pg\<close> on.\<close>

fun zero_pages :: "nat \<Rightarrow> (nat \<Rightarrow> bool) \<Rightarrow> nat \<Rightarrow> nat \<Rightarrow> u8 list \<Rightarrow> u8 list option" where
  "zero_pages page_size valid pg 0 mem = Some mem"
| "zero_pages page_size valid pg (Suc n) mem = do {
     mem \<leftarrow> (if valid pg then Some mem else bzero mem (pg * page_size) page_size);
     zero_pages page_size valid (pg + 1) n mem }"

text \<open>\<open>cluster_read\<close> of \<open>n\<close> bytes at \<open>ofs\<close> into the memory at \<open>d\<close>; a short read is an error.\<close>

type_synonym reader = "int \<Rightarrow> nat \<Rightarrow> errno \<times> u8 list"

definition read_into :: "reader \<Rightarrow> u8 list \<Rightarrow> nat \<Rightarrow> int \<Rightarrow> nat \<Rightarrow> (errno \<times> u8 list) option" where
  "read_into cluster_read mem d ofs n = (case cluster_read ofs n of (err, xs) \<Rightarrow> do {
     mem \<leftarrow> copy_els mem d xs 0 (length xs);
     Some (if err = EOK \<and> length xs \<noteq> n then EIO else err, mem) })"

text \<open>The number of invalid pages in a row from \<open>pg\<close> on, at most \<open>n\<close>.\<close>

fun invalid_run :: "(nat \<Rightarrow> bool) \<Rightarrow> nat \<Rightarrow> nat \<Rightarrow> nat" where
  "invalid_run valid pg 0 = 0"
| "invalid_run valid pg (Suc n) = (if valid pg then 0 else Suc (invalid_run valid (pg + 1) n))"

text \<open>Read every range of invalid pages from \<open>pg\<close> up to \<open>stop_pg\<close>.\<close>

function read_pages ::
  "nat \<Rightarrow> (nat \<Rightarrow> bool) \<Rightarrow> reader \<Rightarrow> int \<Rightarrow> nat \<Rightarrow> nat \<Rightarrow> u8 list \<Rightarrow> (errno \<times> u8 list) option" where
  "read_pages page_size valid cluster_read ofs_start stop_pg pg mem =
     (if stop_pg \<le> pg then Some (EOK, mem)
      else if valid pg then read_pages page_size valid cluster_read ofs_start stop_pg (pg + 1) mem
      else let n = 1 + invalid_run valid (pg + 1) (stop_pg - (pg + 1)) in do {
        (err, mem) \<leftarrow> read_into cluster_read mem (pg * page_size) (ofs_start + int (pg * page_size)) (n * page_size);
        if err \<noteq> EOK then Some (err, mem)
        else read_pages page_size valid cluster_read ofs_start stop_pg (pg + n) mem })"
  by pat_completeness auto
termination
  by (relation "measure (\<lambda>(ps, v, cr, os, stop, pg, mem). stop - pg)") auto

declare read_pages.simps [simp del]

text \<open>
  The variables of \<open>ntfs_read_compressed\<close> that change in its loop, and the memory. The two
  conditions \<open>have_uio\<close> and \<open>have_cb\<close> say whether allocating the uio and the temporary buffer
  succeeds; each is allocated once, when it is first needed.
\<close>

record rc_state =
  rc_ni :: cb_inode
  rc_mem :: "u8 list"
  rc_ofs :: int
  rc_dst :: nat
  rc_count :: int
  rc_dst_ofs_in_cb :: nat
  rc_cur_pg :: nat
  rc_cur_pg_ofs :: nat

text \<open>What does not change: the page list, the number of pages, and the environment.\<close>

record rc_env =
  page_size :: nat
  page_list :: "(nat \<Rightarrow> bool) option"
  last_pg :: nat
  pages_per_cb :: nat
  ofs_start :: int
  have_uio :: bool
  have_cb :: bool
  map_runlist :: "ntfs_rl_element list \<Rightarrow> int \<Rightarrow> errno \<times> ntfs_rl_element list"
  cluster_read :: reader

text \<open>From \<open>next_cb\<close> and from \<open>pl_next_cb\<close> on, up to the test whether the read is done.\<close>

definition next_cb :: "nat \<Rightarrow> rc_state \<Rightarrow> rc_state" where
  "next_cb io_count st = st\<lparr>rc_ofs := rc_ofs st + int io_count, rc_dst := rc_dst st + io_count,
     rc_count := rc_count st - int io_count, rc_dst_ofs_in_cb := 0\<rparr>"

definition pl_next_cb :: "rc_env \<Rightarrow> nat \<Rightarrow> rc_state \<Rightarrow> rc_state" where
  "pl_next_cb env io_count st = next_cb io_count (
     if page_list env = None then st
     else if pages_per_cb env \<noteq> 0 then st\<lparr>rc_cur_pg := rc_cur_pg st + pages_per_cb env\<rparr>
     else if page_size env \<le> rc_cur_pg_ofs st + io_count
     then st\<lparr>rc_cur_pg_ofs := 0, rc_cur_pg := rc_cur_pg st + 1\<rparr>
     else st\<lparr>rc_cur_pg_ofs := rc_cur_pg_ofs st + io_count\<rparr>)"

text \<open>
  The three kinds of compression block. With a page list and several pages in a block the
  pages of the block are done one by one, up to \<open>stop_pg\<close>.
\<close>

definition stop_pg :: "rc_env \<Rightarrow> rc_state \<Rightarrow> nat" where
  "stop_pg env st = min (rc_cur_pg st + pages_per_cb env) (last_pg env)"

definition rc_sparse :: "rc_env \<Rightarrow> nat \<Rightarrow> rc_state \<Rightarrow> (errno \<times> rc_state) option" where
  "rc_sparse env io_count st =
     (case page_list env of
        Some valid \<Rightarrow>
          if 1 < pages_per_cb env then do {
            mem \<leftarrow> zero_pages (page_size env) valid (rc_cur_pg st) (stop_pg env st - rc_cur_pg st) (rc_mem st);
            Some (EOK, next_cb io_count (st\<lparr>rc_mem := mem, rc_cur_pg := max (rc_cur_pg st) (stop_pg env st)\<rparr>)) }
          else do {
            mem \<leftarrow> bzero (rc_mem st) (rc_dst st) io_count;
            Some (EOK, pl_next_cb env io_count (st\<lparr>rc_mem := mem\<rparr>)) }
      | None \<Rightarrow> do {
          mem \<leftarrow> bzero (rc_mem st) (rc_dst st) io_count;
          Some (EOK, pl_next_cb env io_count (st\<lparr>rc_mem := mem\<rparr>)) })"

definition rc_uncompressed :: "rc_env \<Rightarrow> nat \<Rightarrow> rc_state \<Rightarrow> (errno \<times> rc_state) option" where
  "rc_uncompressed env io_count st =
     (case page_list env of
        Some valid \<Rightarrow>
          if 1 < pages_per_cb env then do {
            (err, mem) \<leftarrow> read_pages (page_size env) valid (cluster_read env) (ofs_start env) (stop_pg env st)
               (rc_cur_pg st) (rc_mem st);
            if err \<noteq> EOK then Some (err, st\<lparr>rc_mem := mem\<rparr>)
            else Some (EOK, next_cb io_count (st\<lparr>rc_mem := mem, rc_cur_pg := max (rc_cur_pg st) (stop_pg env st)\<rparr>)) }
          else do {
            (err, mem) \<leftarrow> read_into (cluster_read env) (rc_mem st) (rc_dst st) (rc_ofs st) io_count;
            if err \<noteq> EOK then Some (err, st\<lparr>rc_mem := mem\<rparr>)
            else Some (EOK, pl_next_cb env io_count (st\<lparr>rc_mem := mem\<rparr>)) }
      | None \<Rightarrow> do {
          (err, mem) \<leftarrow> read_into (cluster_read env) (rc_mem st) (rc_dst st) (rc_ofs st) io_count;
          if err \<noteq> EOK then Some (err, st\<lparr>rc_mem := mem\<rparr>)
          else Some (EOK, pl_next_cb env io_count (st\<lparr>rc_mem := mem\<rparr>)) })"

definition rc_compressed :: "rc_env \<Rightarrow> nat \<Rightarrow> rc_state \<Rightarrow> (errno \<times> rc_state) option" where
  "rc_compressed env io_count st = (
     let cb_size = compression_block_size (rc_ni st) in
     if \<not> have_cb env then Some (ENOMEM, st)
     else do {
       (err, cb) \<leftarrow> read_into (cluster_read env) (replicate cb_size 0) 0
          (rc_ofs st - int (rc_dst_ofs_in_cb st)) cb_size;
       if err \<noteq> EOK then Some (err, st)
       else do {
         (err, out) \<leftarrow> ntfs_decompress (page_size env) (drop (rc_dst st) (rc_mem st)) (rc_dst_ofs_in_cb st) io_count
            cb cb_size (page_list env) (rc_cur_pg st) (pages_per_cb env);
         let st = st\<lparr>rc_mem := take (rc_dst st) (rc_mem st) @ out\<rparr>;
         if err \<noteq> EOK then Some (err, st)
         else Some (EOK, pl_next_cb env io_count st) } })"

text \<open>From \<open>do_next_cb\<close> to the end of one round.\<close>

definition rc_step :: "rc_env \<Rightarrow> rc_state \<Rightarrow> (errno \<times> rc_state) option" where
  "rc_step env st = (
     let cb_size = compression_block_size (rc_ni st);
         io_count = nat (min (int cb_size - int (rc_dst_ofs_in_cb st)) (rc_count st)) in
     if pages_per_cb env \<le> 1 \<and> (case page_list env of Some valid \<Rightarrow> valid (rc_cur_pg st) | None \<Rightarrow> False) then
       Some (EOK, next_cb (page_size env - rc_cur_pg_ofs st)
         (st\<lparr>rc_cur_pg_ofs := 0, rc_cur_pg := rc_cur_pg st + 1\<rparr>))
     else do {
       (cb_type, ni) \<leftarrow> ntfs_get_cb_type (map_runlist env) (rc_ni st) (rc_ofs st - int (rc_dst_ofs_in_cb st));
       let st = st\<lparr>rc_ni := ni\<rparr>;
       case cb_type of
         Inr err \<Rightarrow> Some (err, st)
       | Inl NTFS_CB_SPARSE \<Rightarrow> rc_sparse env io_count st
       | Inl NTFS_CB_UNCOMPRESSED \<Rightarrow> if have_uio env then rc_uncompressed env io_count st else Some (ENOMEM, st)
       | Inl NTFS_CB_COMPRESSED \<Rightarrow> if have_uio env then rc_compressed env io_count st else Some (ENOMEM, st) })"

partial_function (option) rc_loop :: "rc_env \<Rightarrow> rc_state \<Rightarrow> (errno \<times> rc_state) option" where
  "rc_loop env st = do {
     (err, st) \<leftarrow> rc_step env st;
     if err \<noteq> EOK then Some (err, st)
     else if 0 < rc_count st then rc_loop env st
     else Some (EOK, st) }"

text \<open>
  The page size is a power of two, so that \<open>x & PAGE_MASK\<close> is \<open>x mod PAGE_SIZE\<close>. The inode has the
  initialized and the data size besides; \<open>right_type\<close> is the condition on the flags and the
  type of the raw inode at the start.
\<close>

definition ntfs_read_compressed ::
  "rc_env \<Rightarrow> bool \<Rightarrow> cb_inode \<Rightarrow> int \<Rightarrow> int \<Rightarrow> int \<Rightarrow> u8 list \<Rightarrow> (errno \<times> cb_inode \<times> u8 list) option" where
  "ntfs_read_compressed env right_type raw_ni init_size data_size count mem = (
     let ps = int (page_size env); pl = page_list env; ofs = ofs_start env; start_count = count;
         size = (init_size + (ps - 1)) div ps * ps in
     if \<not> right_type \<or> ofs mod ps \<noteq> 0 \<or> count mod ps \<noteq> 0 \<or> data_size < ofs then None
     else let
       env = env\<lparr>pages_per_cb := (if pl = None then 0xffff else compression_block_size raw_ni div page_size env),
                 last_pg := (if pl = None then 0 else nat (count div ps))\<rparr>;
       beyond = init_size < ofs + count;
       count = (if \<not> beyond then count else if init_size < ofs then 0 else size - ofs);
       zero_end_ofs = (if beyond \<and> init_size < size then init_size - ofs else 0) in do {
       mem \<leftarrow> (if \<not> beyond then Some mem
         else case pl of
           None \<Rightarrow> bzero mem (nat count) (nat (start_count - count))
         | Some valid \<Rightarrow> zero_pages (page_size env) valid (nat (count div ps)) (last_pg env - nat (count div ps)) mem);
       let env = (if beyond \<and> pl \<noteq> None then env\<lparr>last_pg := nat (count div ps)\<rparr> else env);
       if beyond \<and> count = 0 then Some (EOK, raw_ni, mem)
       else do {
         (err, st) \<leftarrow> rc_loop env
            \<lparr>rc_ni = raw_ni, rc_mem = mem, rc_ofs = ofs, rc_dst = 0, rc_count = count,
             rc_dst_ofs_in_cb = nat (and ofs (int (compression_block_size raw_ni) - 1)),
             rc_cur_pg = 0, rc_cur_pg_ofs = 0\<rparr>;
         if err \<noteq> EOK then Some (err, rc_ni st, rc_mem st)
         else if zero_end_ofs \<noteq> 0 \<and>
           (case pl of None \<Rightarrow> True | Some valid \<Rightarrow> \<not> valid (nat (zero_end_ofs div ps)))
         then do {
           mem \<leftarrow> bzero (rc_mem st) (nat zero_end_ofs) (nat (ps - zero_end_ofs mod ps));
           Some (EOK, rc_ni st, mem) }
         else Some (EOK, rc_ni st, rc_mem st) } })"

section \<open>Seeking in a runlist\<close>

lemma rl_skip_from:
  assumes "rl_from s es" "s \<le> v"
  shows "\<exists>n q. rl_skip es v = Some n \<and> rl_from q (drop n es) \<and> q \<le> v \<and>
    (\<forall>w \<ge> v. rl_lookup (drop n es) w = rl_lookup es w)"
  using assms
proof (induction es arbitrary: s)
  case (Cons e es)
  show ?case
  proof (cases "es \<noteq> [] \<and> s + rlen e \<le> v")
    case True
    then obtain e' fs where es: "es = e' # fs" by (cases es) auto
    have e: "rl_from (s + rlen e) es" "vcn e = s" "0 < rlen e" using Cons.prems(1) True by (auto simp: rl_from_Cons)
    obtain n q where "rl_skip es v = Some n" "rl_from q (drop n es)" "q \<le> v"
      "\<forall>w \<ge> v. rl_lookup (drop n es) w = rl_lookup es w" using Cons.IH [OF e(1)] True by blast
    moreover have "vcn e' \<le> v" using e(1) True by (simp add: es rl_from_Cons)
    moreover have "rl_lookup (e # es) w = rl_lookup es w" if "v \<le> w" for w
      using True e that by (simp add: rl_lookup_Cons)
    ultimately show ?thesis using e by (intro exI [of _ "Suc n"] exI [of _ q]) (simp add: es)
  next
    case False
    then have "rl_skip (e # es) v = Some 0"
      using Cons.prems(1) by (cases es) (auto simp: rl_from_Cons rl_term_def)
    then show ?thesis using Cons.prems by (intro exI [of _ 0] exI [of _ s]) simp
  qed
qed (simp add: rl_from_def)

lemma vcn_to_lcn_from:
  assumes "rl_from q es" "q \<le> v" "0 \<le> v"
  shows "\<exists>c. ntfs_rl_vcn_to_lcn es v = Some (rl_lookup es v, Some c) \<and>
    (\<forall>d. 0 \<le> d \<and> d < c \<longrightarrow> rl_lookup es (v + d) =
        (if 0 \<le> rl_lookup es v then rl_lookup es v + d else rl_lookup es v)) \<and>
    (0 \<le> rl_lookup es v \<longrightarrow> 0 < c)"
proof -
  obtain xs t where es: "es = xs @ [t]" and c: "rl_chain q xs (vcn t)" and t: "rl_term t"
    using assms(1) unfolding rl_from_def by (metis append_butlast_last_id)
  have "ntfs_rl_vcn_to_lcn es v = vcn_to_lcn_loop (xs @ t # []) v"
    using c assms(2,3) by (cases xs) (auto simp: ntfs_rl_vcn_to_lcn_def es)
  moreover have "0 \<le> rl_lookup es v \<Longrightarrow> v < vcn t"
    using rl_map_chain [OF c, of v] t assms(2) by (auto simp: es rl_lookup_snoc rl_term_def split: option.splits)
  ultimately show ?thesis using vcn_to_lcn_loop_eq [OF c t assms(2), of "[]"] by (auto simp: es)
qed

section \<open>The type of a compression block\<close>

lemma cb_type_scan_last:
  assumes "rl_from s es" "s \<le> v" "0 \<le> v" "v = end_vcn - 1"
  shows "cb_type_scan start_vcn end_vcn es v r = Some (
    let l = rl_lookup es v in
    if l = LCN_HOLE then Inl (if v = start_vcn then NTFS_CB_SPARSE else NTFS_CB_COMPRESSED)
    else if 0 \<le> l then Inl NTFS_CB_UNCOMPRESSED
    else Inr (l, v, r))"
proof -
  from rl_skip_from [OF assms(1,2)] obtain n q where n: "rl_skip es v = Some n" "rl_from q (drop n es)" "q \<le> v"
    "\<forall>w \<ge> v. rl_lookup (drop n es) w = rl_lookup es w" by blast
  from vcn_to_lcn_from [OF n(2,3) assms(3)] n(4) obtain c where
    "ntfs_rl_vcn_to_lcn (drop n es) v = Some (rl_lookup es v, Some c)" "0 \<le> rl_lookup es v \<longrightarrow> 0 < c" by auto
  then show ?thesis using n(1) assms(4) by (subst cb_type_scan.simps) (auto simp: Let_def)
qed

lemma cb_type_scan_first:
  assumes "rl_from 0 es" "0 \<le> v" "v < end_vcn"
  defines "f \<equiv> rl_lookup es v" and "l \<equiv> rl_lookup es (end_vcn - 1)"
  shows "cb_type_scan v end_vcn es v False = Some (
    if f = LCN_HOLE then Inl NTFS_CB_SPARSE
    else if f < 0 then Inr (f, v, False)
    else if l = LCN_HOLE then Inl NTFS_CB_COMPRESSED
    else if l < 0 then Inr (l, end_vcn - 1, False)
    else Inl NTFS_CB_UNCOMPRESSED)"
proof (cases "v = end_vcn - 1")
  case True
  then show ?thesis using cb_type_scan_last [OF assms(1,2,2) True, of v False]
    by (auto simp: f_def l_def Let_def)
next
  case False
  from rl_skip_from [OF assms(1,2)] obtain n q where n: "rl_skip es v = Some n" "rl_from q (drop n es)" "q \<le> v"
    "\<forall>w \<ge> v. rl_lookup (drop n es) w = rl_lookup es w" by blast
  from vcn_to_lcn_from [OF n(2,3) assms(2)] n(4) obtain c where
    c: "ntfs_rl_vcn_to_lcn (drop n es) v = Some (f, Some c)" "0 \<le> f \<longrightarrow> 0 < c"
      "\<forall>d. 0 \<le> d \<and> d < c \<longrightarrow> rl_lookup es (v + d) = (if 0 \<le> f then f + d else f)" by (auto simp: f_def)
  have l: "0 \<le> l" if "end_vcn \<le> v + c" "0 \<le> f"
    using c(3) [rule_format, of "end_vcn - 1 - v"] that assms(3) by (simp add: l_def)
  have "cb_type_scan v end_vcn (drop n es) (end_vcn - 1) False = Some (
    if l = LCN_HOLE then Inl NTFS_CB_COMPRESSED
    else if 0 \<le> l then Inl NTFS_CB_UNCOMPRESSED else Inr (l, end_vcn - 1, False))"
    using cb_type_scan_last [OF n(2), of "end_vcn - 1" end_vcn v False] n(3,4) assms(2,3) False
    by (auto simp: Let_def l_def)
  then show ?thesis using n(1) c(1) l False by (subst cb_type_scan.simps) auto
qed

lemma get_cb_type_eq:
  assumes "rl_wf (cb_rl ni)" and "0 \<le> start_vcn" and "0 < compression_block_clusters ni"
    and "start_vcn = ofs div 2 ^ cb_cluster_size_shift ni"
    and "end_vcn = start_vcn + int (compression_block_clusters ni)"
  defines "first_lcn \<equiv> rl_lookup (cb_rl ni) start_vcn" and "last_lcn \<equiv> rl_lookup (cb_rl ni) (end_vcn - 1)"
  assumes "first_lcn \<noteq> LCN_RL_NOT_MAPPED" and "0 \<le> first_lcn \<Longrightarrow> last_lcn \<noteq> LCN_RL_NOT_MAPPED"
  shows "ntfs_get_cb_type m ni ofs = Some (
    if first_lcn = LCN_HOLE then Inl NTFS_CB_SPARSE
    else if first_lcn < 0 then Inr EIO
    else if last_lcn = LCN_HOLE then Inl NTFS_CB_COMPRESSED
    else if last_lcn < 0 then Inr EIO
    else Inl NTFS_CB_UNCOMPRESSED, ni)"
proof -
  have lt: "start_vcn < end_vcn" using assms(3,5) by simp
  have "cb_rl ni \<noteq> []" using assms(1) by (auto simp: rl_wf_def)
  then show ?thesis
    using cb_type_scan_first [of "cb_rl ni" start_vcn end_vcn] lt assms
    unfolding ntfs_get_cb_type_def Let_def assms(4) [symmetric] assms(5) [symmetric] rl_wf_from
    by (subst cb_type_try.simps) auto
qed

text \<open>
  The type of a compression block in a well-formed runlist that maps its first and last
  cluster: sparse if the first cluster is, otherwise compressed if the last one is sparse and
  stored if both are real; a block beyond the end of the runlist is an error. The runlist is
  left alone.
\<close>

lemma ntfs_get_cb_type_correct:
  assumes "rl_wf (cb_rl ni)" and "0 \<le> ofs" and "0 < compression_block_clusters ni"
  defines "start_vcn \<equiv> ofs div 2 ^ cb_cluster_size_shift ni"
  defines "first_lcn \<equiv> rl_lookup (cb_rl ni) start_vcn"
    and "last_lcn \<equiv> rl_lookup (cb_rl ni) (start_vcn + int (compression_block_clusters ni) - 1)"
  assumes "first_lcn \<noteq> LCN_RL_NOT_MAPPED" and "last_lcn \<noteq> LCN_RL_NOT_MAPPED"
  shows "ntfs_get_cb_type m ni ofs = Some (
    if first_lcn = LCN_HOLE then Inl NTFS_CB_SPARSE
    else if first_lcn < 0 then Inr EIO
    else if last_lcn = LCN_HOLE then Inl NTFS_CB_COMPRESSED
    else if last_lcn < 0 then Inr EIO
    else Inl NTFS_CB_UNCOMPRESSED, ni)"
proof -
  have "0 \<le> start_vcn" using assms(2) by (simp add: start_vcn_def pos_imp_zdiv_nonneg_iff)
  then show ?thesis using get_cb_type_eq [OF assms(1) _ assms(3) start_vcn_def [THEN meta_eq_to_obj_eq] refl, of m] assms(7,8)
    by (simp add: first_lcn_def last_lcn_def)
qed

section \<open>Decompression into part of the destination\<close>

lemma sbs_write_all:
  assumes "\<forall>sb \<in> set sbs. sb_ok sb" "4096 dvd length R"
  shows "sbs_write (\<lambda>j. False) i sbs R = take (length R) (concat (map sb_data sbs) @ replicate (length R) 0)"
  using assms
proof (induction sbs arbitrary: i R)
  case (Cons sb sbs)
  show ?case
  proof (cases "R = []")
    case False
    then have R: "4096 \<le> length R" using Cons.prems(2) by (simp add: dvd_imp_le)
    have "take (length R - 4096) (concat (map sb_data sbs) @ replicate (length R - 4096) 0) =
      take (length R - 4096) (concat (map sb_data sbs) @ replicate (length R) 0)" by simp
    then show ?thesis using False R Cons length_sb_data [of sb] by (simp add: dvd_diff_nat)
  qed simp
qed simp

lemma drop_sb_data:
  assumes "\<forall>sb \<in> set sbs. sb_ok sb" "4096 * k + n \<le> z"
  shows "take n (drop (4096 * k) (concat (map sb_data sbs) @ replicate z 0)) =
    take n (concat (map sb_data (drop k sbs)) @ replicate n 0)"
  using assms
proof (induction sbs arbitrary: k z)
  case (Cons sb sbs)
  show ?case
  proof (cases k)
    case (Suc j)
    have "drop (4096 * k) (concat (map sb_data (sb # sbs)) @ replicate z 0) =
      drop (4096 * j) (concat (map sb_data sbs) @ replicate z 0)"
      using Suc Cons.prems(1) length_sb_data [of sb] by simp
    then show ?thesis using Cons.IH [of j z] Cons.prems Suc by simp
  qed (use Cons.prems in simp)
qed simp

lemma decompress_part:
  assumes "\<forall>sb \<in> set sbs. sb_ok sb" "cb_tail_ok sbs tail" "4096 dvd ps" "4096 dvd o'" "4096 dvd n"
    "0 < n" "n \<le> length mem" "o' + n \<le> z"
  defines "cbm \<equiv> concat (map sb_bytes sbs) @ tail"
  shows "ntfs_decompress ps mem o' n cbm (length cbm) None pg ppc =
    Some (EOK, take n (drop o' (concat (map sb_data sbs) @ replicate z 0)) @ drop n mem)"
proof -
  obtain k q where k: "o' = 4096 * k" "ps = 4096 * q" using assms(3,4) by (auto elim!: dvdE)
  have R: "take n mem \<noteq> []" "length (take n mem) = n" using assms(6,7) by auto
  have "ntfs_decompress ps mem o' n cbm (length cbm) None pg ppc =
    Some (EOK, sbs_write (\<lambda>j. False) 0 (drop k sbs) (take n mem) @ drop n mem)"
    using dc_sbs_skip_write [OF assms(1,2) R(1), of n 0 "[]" ps q "length cbm" None k pg "drop n mem"] R(2) k assms(5)
    by (simp add: ntfs_decompress_def cbm_def)
  moreover have "sbs_write (\<lambda>j. False) 0 (drop k sbs) (take n mem) =
      take n (concat (map sb_data (drop k sbs)) @ replicate n 0)"
    using sbs_write_all [of "drop k sbs" "take n mem" 0] assms(1,5) R(2) by (simp add: set_drop_subset [THEN subsetD])
  ultimately show ?thesis using drop_sb_data [OF assms(1), of k n z] assms(8) k by simp
qed

section \<open>One compression block\<close>

text \<open>
  What it takes for the attribute to hold \<open>xs\<close> in its compression block \<open>k\<close>: the runlist says
  of which kind the block is, and a stored block reads back as \<open>xs\<close> while a compressed one
  reads as sub-blocks that stand for \<open>xs\<close>.
\<close>

definition cb_holds :: "reader \<Rightarrow> cb_inode \<Rightarrow> nat \<Rightarrow> u8 list \<Rightarrow> bool" where
  "cb_holds rd_raw ni k xs \<longleftrightarrow> (
     let n = compression_block_size ni; v = int (k * compression_block_clusters ni);
         first_lcn = rl_lookup (cb_rl ni) v;
         last_lcn = rl_lookup (cb_rl ni) (v + int (compression_block_clusters ni) - 1) in
     length xs = n \<and>
     (first_lcn = LCN_HOLE \<and> xs = replicate n 0 \<or>
      0 \<le> first_lcn \<and> 0 \<le> last_lcn \<and>
        (\<forall>i m. i + m \<le> n \<longrightarrow> rd_raw (int (k * n + i)) m = (EOK, take m (drop i xs))) \<or>
      0 \<le> first_lcn \<and> last_lcn = LCN_HOLE \<and>
        (\<exists>sbs tail. (\<forall>sb \<in> set sbs. sb_ok sb) \<and> cb_tail_ok sbs tail \<and>
           length (concat (map sb_bytes sbs) @ tail) = n \<and>
           rd_raw (int (k * n)) n = (EOK, concat (map sb_bytes sbs) @ tail) \<and>
           xs = take n (concat (map sb_data sbs) @ replicate n 0))))"

text \<open>The sizes fit together: a block is a power of two, and both it and a page consist of
  sub-blocks.\<close>

definition cb_geometry :: "nat \<Rightarrow> cb_inode \<Rightarrow> bool" where
  "cb_geometry ps ni \<longleftrightarrow> rl_wf (cb_rl ni) \<and> 0 < compression_block_clusters ni \<and>
     compression_block_size ni = compression_block_clusters ni * 2 ^ cb_cluster_size_shift ni \<and>
     (\<exists>m. compression_block_size ni = 2 ^ m) \<and> 4096 dvd compression_block_size ni \<and> 4096 dvd ps"

lemma cb_holds_type:
  assumes "cb_geometry ps ni" "cb_holds rd_raw ni k xs"
  obtains (sparse) "ntfs_get_cb_type m ni (int (k * compression_block_size ni)) = Some (Inl NTFS_CB_SPARSE, ni)"
      "xs = replicate (compression_block_size ni) 0"
  | (stored) "ntfs_get_cb_type m ni (int (k * compression_block_size ni)) = Some (Inl NTFS_CB_UNCOMPRESSED, ni)"
      "\<And>i n. i + n \<le> compression_block_size ni \<Longrightarrow>
         rd_raw (int (k * compression_block_size ni + i)) n = (EOK, take n (drop i xs))"
  | (packed) sbs tail where
      "ntfs_get_cb_type m ni (int (k * compression_block_size ni)) = Some (Inl NTFS_CB_COMPRESSED, ni)"
      "\<forall>sb \<in> set sbs. sb_ok sb" "cb_tail_ok sbs tail"
      "length (concat (map sb_bytes sbs) @ tail) = compression_block_size ni"
      "rd_raw (int (k * compression_block_size ni)) (compression_block_size ni) =
         (EOK, concat (map sb_bytes sbs) @ tail)"
      "xs = take (compression_block_size ni) (concat (map sb_data sbs) @ replicate (compression_block_size ni) 0)"
proof -
  let ?v = "int (k * compression_block_clusters ni)"
  have v: "?v = int (k * compression_block_size ni) div 2 ^ cb_cluster_size_shift ni"
    using assms(1) by (simp add: cb_geometry_def)
  note eq = get_cb_type_eq [OF _ _ _ v refl, of m]
  have g: "rl_wf (cb_rl ni)" "0 < compression_block_clusters ni" using assms(1) by (auto simp: cb_geometry_def)
  from assms(2) show ?thesis
    unfolding cb_holds_def Let_def
    using eq [OF g(1) _ g(2)] sparse stored packed by auto
qed

text \<open>The byte at position \<open>p\<close> of an attribute whose compression blocks are \<open>content\<close>.\<close>

definition file_byte :: "nat \<Rightarrow> (nat \<Rightarrow> u8 list) \<Rightarrow> nat \<Rightarrow> u8" where
  "file_byte cb_size content p = content (p div cb_size) ! (p mod cb_size)"

lemma take_drop_file_bytes:
  assumes "length (content (p div n)) = n" "p mod n + m \<le> n" "0 < n"
  shows "take m (drop (p mod n) (content (p div n))) = map (file_byte n content) [p..<p + m]"
proof (rule nth_equalityI)
  fix j assume "j < length (take m (drop (p mod n) (content (p div n))))"
  then have j: "j < m" by simp
  have "(p + j) div n = p div n"
    using div_add1_eq [of p j n] j assms(2) by simp
  moreover have "(p + j) mod n = p mod n + j"
    using mod_add_left_eq [of p n j] j assms(2) by simp
  ultimately show "take m (drop (p mod n) (content (p div n))) ! j = map (file_byte n content) [p..<p + m] ! j"
    using j assms(1,2) by (simp add: file_byte_def)
qed (use assms in simp)

lemma read_into_fresh:
  "rd_raw ofs n = (EOK, xs) \<Longrightarrow> length xs = n \<Longrightarrow> read_into rd_raw (replicate n 0) 0 ofs n = Some (EOK, xs)"
  by (auto simp: read_into_def copy_els_def)

text \<open>Without a page list one round of the loop reads to the end of the compression block or
  of the request.\<close>

lemma rc_step_reads:
  assumes env: "page_list env = None" "pages_per_cb env = 0xffff" "have_uio env" "have_cb env"
    and ni: "cb_geometry (page_size env) ni" "cb_holds (cluster_read env) ni (p div cbs) (content (p div cbs))"
    and cbs: "cbs = compression_block_size ni" and d: "4096 dvd p" "4096 dvd c" "0 < c"
    and m: "m = min (cbs - p mod cbs) c" and R: "length R = c"
    and st: "st = \<lparr>rc_ni = ni, rc_mem = dn @ R @ S, rc_ofs = int p, rc_dst = length dn, rc_count = int c,
      rc_dst_ofs_in_cb = p mod cbs, rc_cur_pg = pg, rc_cur_pg_ofs = po\<rparr>"
  shows "rc_step env st = Some (EOK, \<lparr>rc_ni = ni, rc_mem = dn @ map (file_byte cbs content) [p..<p + m] @ drop m R @ S,
      rc_ofs = int (p + m), rc_dst = length dn + m, rc_count = int (c - m),
      rc_dst_ofs_in_cb = 0, rc_cur_pg = pg, rc_cur_pg_ofs = po\<rparr>)"
proof -
  let ?k = "p div cbs" and ?X = "map (file_byte cbs content) [p..<p + m]"
  have cb0: "0 < cbs" and dvd: "4096 dvd cbs" "4096 dvd page_size env" 
    using ni(1) by (auto simp: cb_geometry_def cbs)
  have m0: "0 < m" "m \<le> c" "p mod cbs + m \<le> cbs" using mod_less_divisor [OF cb0, of p] d(3) m by linarith+
  have dm: "4096 dvd p mod cbs" "4096 dvd m"
    using dvd d by (auto simp: m min_def dvd_mod dvd_diff_nat)
  have len: "length (content ?k) = cbs" using ni(2) by (simp add: cb_holds_def Let_def cbs)
  have X: "take m (drop (p mod cbs) (content ?k)) = ?X"
    using take_drop_file_bytes [where content = content and p = p and n = cbs and m = m] len m0 cb0 by blast
  have io: "nat (min (int cbs - int (p mod cbs)) (int c)) = m"
    using m m0 by (simp add: min_def of_nat_diff nat_eq_iff) linarith
  have start: "rc_ofs st - int (rc_dst_ofs_in_cb st) = int (?k * cbs)" by (simp add: st minus_mod_eq_div_mult flip: of_nat_diff)
  have fin: "pl_next_cb env m (st\<lparr>rc_mem := M\<rparr>) = \<lparr>rc_ni = ni, rc_mem = M, rc_ofs = int (p + m),
      rc_dst = length dn + m, rc_count = int (c - m), rc_dst_ofs_in_cb = 0, rc_cur_pg = pg, rc_cur_pg_ofs = po\<rparr>" for M
    using env(1) m0 by (simp add: pl_next_cb_def next_cb_def st of_nat_diff)
  have mem: "bzero (dn @ R @ S) (length dn) m = Some (dn @ replicate m 0 @ drop m R @ S)"
    using m0 R by (simp add: bzero_append)
  show ?thesis
  proof (cases rule: cb_holds_type [OF ni(1) ni(2), folded cbs, where m = "map_runlist env", case_names sparse stored packed])
    case sparse
    have "?X = replicate m 0" using X m0 sparse(2) by simp
    then show ?thesis
      using sparse(1) start fin io mem env by (simp add: rc_step_def rc_sparse_def Let_def st cbs)
  next
    case stored
    have "cluster_read env (int p) m = (EOK, ?X)"
      using stored(2) [of "p mod cbs" m] m0 X by (simp add: mult.commute)
    then have "read_into (cluster_read env) (dn @ R @ S) (length dn) (int p) m = Some (EOK, dn @ ?X @ drop m R @ S)"
      using m0 R by (simp add: read_into_def copy_els_def)
    then show ?thesis
      using stored(1) start fin io env by (simp add: rc_step_def rc_uncompressed_def Let_def st cbs)
  next
    case (packed sbs tail)
    let ?cbm = "concat (map sb_bytes sbs) @ tail"
    have rd: "read_into (cluster_read env) (replicate cbs 0) 0 (int (?k * cbs)) cbs = Some (EOK, ?cbm)"
      by (rule read_into_fresh) (rule packed)+
    have "min m (cbs - p mod cbs) = m" using m0 by simp
    then have Y: "take m (drop (p mod cbs) (concat (map sb_data sbs) @ replicate cbs 0)) = ?X"
      using X unfolding packed(6) drop_take take_take by (simp only:)
    have "ntfs_decompress (page_size env) (R @ S) (p mod cbs) m ?cbm (length ?cbm) None pg 0xffff =
        Some (EOK, ?X @ drop m (R @ S))"
      unfolding Y [symmetric] by (rule decompress_part [OF packed(2,3) dvd(2) dm]) (use m0 R in simp_all)
    then have "ntfs_decompress (page_size env) (R @ S) (p mod cbs) m ?cbm cbs None pg 0xffff =
        Some (EOK, ?X @ drop m R @ S)"
      unfolding packed(4) using m0 R by simp
    then show ?thesis
      using packed(1) start fin io rd env by (simp add: rc_step_def rc_compressed_def Let_def st cbs)
  qed
qed

section \<open>The whole read\<close>

lemma rc_loop_reads:
  assumes env: "page_list env = None" "pages_per_cb env = 0xffff" "have_uio env" "have_cb env"
    and ni: "cb_geometry (page_size env) ni" and cbs: "cbs = compression_block_size ni"
    and holds: "\<And>k. k * cbs < p + c \<Longrightarrow> cb_holds (cluster_read env) ni k (content k)"
    and d: "4096 dvd p" "4096 dvd c" "0 < c" and R: "length R = c"
  shows "\<exists>st'. rc_loop env \<lparr>rc_ni = ni, rc_mem = dn @ R @ S, rc_ofs = int p, rc_dst = length dn, rc_count = int c,
      rc_dst_ofs_in_cb = p mod cbs, rc_cur_pg = pg, rc_cur_pg_ofs = po\<rparr> = Some (EOK, st') \<and>
    rc_ni st' = ni \<and> rc_mem st' = dn @ map (file_byte cbs content) [p..<p + c] @ S"
  using holds d R
proof (induction c arbitrary: p dn R rule: less_induct)
  case (less c)
  define m where "m = min (cbs - p mod cbs) c"
  have cb0: "0 < cbs" and dcb: "4096 dvd cbs" using ni by (auto simp: cb_geometry_def cbs)
  have m: "0 < m" "m \<le> c" using mod_less_divisor [OF cb0, of p] less.prems(4) by (auto simp: m_def)
  have k: "p div cbs * cbs < p + c" using less.prems(4) div_times_less_eq_dividend [of p cbs] by linarith
  note step = rc_step_reads [where content = content, OF env ni less.prems(1) [OF k] cbs less.prems(2,3,4) m_def
      less.prems(5) refl, of dn S pg po]
  show ?case
  proof (cases "m = c")
    case True
    then show ?thesis using step less.prems(5) by (subst rc_loop.simps) simp
  next
    case False
    let ?X = "map (file_byte cbs content) [p..<p + m]"
    have full: "m = cbs - p mod cbs" using False by (simp add: m_def min_def split: if_splits)
    have z: "(p + m) mod cbs = 0"
      using full mod_less_divisor [OF cb0, of p] mod_add_left_eq [of p cbs m] by simp
    have dm: "4096 dvd m" using full dcb less.prems(2) by (simp add: dvd_mod dvd_diff_nat)
    have "\<exists>st'. rc_loop env \<lparr>rc_ni = ni, rc_mem = (dn @ ?X) @ drop m R @ S, rc_ofs = int (p + m),
        rc_dst = length (dn @ ?X), rc_count = int (c - m),
        rc_dst_ofs_in_cb = (p + m) mod cbs, rc_cur_pg = pg, rc_cur_pg_ofs = po\<rparr> = Some (EOK, st') \<and>
      rc_ni st' = ni \<and> rc_mem st' = (dn @ ?X) @ map (file_byte cbs content) [p + m..<p + m + (c - m)] @ S"
      by (rule less.IH) (use m False less.prems dm in \<open>auto simp: dvd_diff_nat\<close>)
    then obtain st' where st': "rc_loop env \<lparr>rc_ni = ni, rc_mem = dn @ ?X @ drop m R @ S, rc_ofs = int (p + m),
        rc_dst = length dn + m, rc_count = int (c - m),
        rc_dst_ofs_in_cb = (p + m) mod cbs, rc_cur_pg = pg, rc_cur_pg_ofs = po\<rparr> = Some (EOK, st')"
      "rc_ni st' = ni" "rc_mem st' = dn @ ?X @ map (file_byte cbs content) [p + m..<p + m + (c - m)] @ S" by auto
    have e: "p + m + (c - m) = p + c" using m by simp
    have "map (file_byte cbs content) [p..<p + c] = ?X @ map (file_byte cbs content) [p + m..<p + m + (c - m)]"
      unfolding e [symmetric] upt_add_eq_append [OF le_add1] map_append ..
    then show ?thesis using step st' z m False by (subst rc_loop.simps) simp
  qed
qed

lemma round_up:
  fixes i ps :: nat
  assumes "0 < ps"
  obtains s where "(int i + (int ps - 1)) div int ps * int ps = int s" "ps dvd s" "i \<le> s" "s < i + ps"
proof -
  let ?s = "(i + (ps - 1)) div ps * ps"
  have "int i + (int ps - 1) = int (i + (ps - 1))" using assms by simp
  then have "(int i + (int ps - 1)) div int ps * int ps = int ?s" by (simp only: zdiv_int of_nat_mult)
  moreover have s: "i + (ps - 1) < ?s + ps" using dividend_less_div_times [OF assms, of "i + (ps - 1)"] by linarith
  moreover have "?s \<le> i + (ps - 1)" by (rule div_times_less_eq_dividend)
  moreover have "i \<le> ?s" using s assms by linarith
  ultimately show ?thesis using that [of ?s] assms dvd_triv_right by (metis add_diff_assoc2 le_less_trans less_imp_le
        diff_less add_strict_left_mono zero_less_one nat_add_left_cancel_less)
qed

lemma dvd_gap: "n dvd a \<Longrightarrow> n dvd b \<Longrightarrow> a < b \<Longrightarrow> a + n \<le> b" for n a b :: nat
  using dvd_imp_le [of n "b - a"] by (simp add: dvd_diff_nat)

lemma rest_of_page:
  fixes i s p ps :: nat
  assumes "ps dvd s" "ps dvd p" "p \<le> i" "i < s" "s < i + ps"
  shows "int ps - int (i - p) mod int ps = int (s - i)"
proof -
  obtain a b where ab: "s = ps * a" "p = ps * b" using assms(1,2) by (auto elim!: dvdE)
  have "b < a" using assms ab by (metis mult_less_cancel1 order.strict_trans1)
  then obtain k where "a = Suc (b + k)" using less_imp_Suc_add by blast
  then have s: "s = p + ps * k + ps" using ab by (simp add: algebra_simps)
  define r where "r = i - p - ps * k"
  have "r < ps" "i - p = r + ps * k" "s - i = ps - r" using assms s by (auto simp: r_def)
  moreover from this have "(i - p) mod ps = r" by simp
  ultimately show ?thesis by (simp add: of_nat_diff flip: zmod_int)
qed

lemma and_pow2: "n = 2 ^ m \<Longrightarrow> nat (and (int p) (int n - 1)) = p mod n"
proof -
  assume "n = 2 ^ m"
  moreover have "and (int p) (2 ^ m - 1) = int (p mod 2 ^ m)"
    using take_bit_eq_mask [of m "int p"] by (simp add: mask_eq_exp_minus_1 take_bit_eq_mod zmod_int)
  ultimately show ?thesis by simp
qed

lemma map_upto_zero:
  "p \<le> i \<Longrightarrow> i \<le> p + c \<Longrightarrow>
   map (\<lambda>q. if q < i then f q else (0 :: u8)) [p..<p + c] = map f [p..<i] @ replicate (p + c - i) 0"
  by (rule nth_equalityI) (auto simp: nth_append)

text \<open>The loop as \<open>ntfs_read_compressed\<close> starts it.\<close>

lemma rc_loop_start:
  assumes "page_list env = None" "have_uio env" "have_cb env" "cb_geometry (page_size env) ni"
    and "\<And>k. k * compression_block_size ni < p + c \<Longrightarrow> cb_holds (cluster_read env) ni k (content k)"
    and "page_size env dvd p" "page_size env dvd c" "0 < c" "c \<le> length mem"
  obtains st' where "rc_loop (env\<lparr>pages_per_cb := 0xffff, last_pg := 0\<rparr>)
     \<lparr>rc_ni = ni, rc_mem = mem, rc_ofs = int p, rc_dst = 0, rc_count = int c,
      rc_dst_ofs_in_cb = nat (and (int p) (int (compression_block_size ni) - 1)),
      rc_cur_pg = 0, rc_cur_pg_ofs = 0\<rparr> = Some (EOK, st')"
    "rc_ni st' = ni" "rc_mem st' = map (file_byte (compression_block_size ni) content) [p..<p + c] @ drop c mem"
proof -
  obtain m where "compression_block_size ni = 2 ^ m" using assms(4) unfolding cb_geometry_def by blast
  then have "nat (and (int p) (int (compression_block_size ni) - 1)) = p mod compression_block_size ni"
    by (rule and_pow2)
  moreover have "4096 dvd page_size env" using assms(4) by (simp add: cb_geometry_def)
  then have "4096 dvd p" "4096 dvd c" using assms(6,7) dvd_trans by blast+
  ultimately show ?thesis
    using rc_loop_reads [where env = "env\<lparr>pages_per_cb := 0xffff, last_pg := 0\<rparr>" and ni = ni and p = p and c = c and
        content = content and R = "take c mem" and dn = "[]" and S = "drop c mem" and pg = 0 and po = 0, OF _ _ _ _ _ refl]
      assms that by auto
qed

text \<open>
  C20. Reading a compressed attribute into memory that is not a list of pages: if its
  compression blocks hold the file's data, \<open>ntfs_read_compressed\<close> succeeds and fills exactly
  the requested part of the destination with the file's bytes up to the initialized size and
  with zeroes from there on. This is the path of the page-in code.
\<close>

theorem ntfs_read_compressed_correct:
  assumes "page_list env = None" "have_uio env" "have_cb env" "cb_geometry (page_size env) ni"
    and "\<And>k. k * compression_block_size ni < p + c \<Longrightarrow> cb_holds (cluster_read env) ni k (content k)"
    and "ofs_start env = int p" "page_size env dvd p" "page_size env dvd c" "0 < page_size env" "0 < c"
    and "c \<le> length mem" "int p \<le> data_size"
  shows "ntfs_read_compressed env True ni (int i) data_size (int c) mem =
    Some (EOK, ni, map (\<lambda>q. if q < i then file_byte (compression_block_size ni) content q else 0) [p..<p + c] @
      drop c mem)"
proof -
  let ?fb = "file_byte (compression_block_size ni) content" and ?ps = "page_size env"
  let ?ok = "\<lambda>xs. Some (EOK, ni, xs @ drop c mem)"
  obtain s where s: "(int i + (int ?ps - 1)) div int ?ps * int ?ps = int s" "?ps dvd s" "i \<le> s" "s < i + ?ps"
    using round_up [OF assms(9)] .
  have align: "int p mod int ?ps = 0" "int c mod int ?ps = 0" using assms(7,8) by auto
  note unf = ntfs_read_compressed_def Let_def s(1) assms(1,6) align
  consider "p + c \<le> i" | "i < p" | "p \<le> i" "i < p + c" by linarith
  then show ?thesis
  proof cases
    case 1
    obtain st' where st': "rc_loop (env\<lparr>pages_per_cb := 0xffff, last_pg := 0\<rparr>)
         \<lparr>rc_ni = ni, rc_mem = mem, rc_ofs = int p, rc_dst = 0, rc_count = int c,
          rc_dst_ofs_in_cb = nat (and (int p) (int (compression_block_size ni) - 1)),
          rc_cur_pg = 0, rc_cur_pg_ofs = 0\<rparr> = Some (EOK, st')"
        "rc_ni st' = ni" "rc_mem st' = map ?fb [p..<p + c] @ drop c mem"
      by (rule rc_loop_start [OF assms(1-5,7,8,10,11)])
    moreover have "map (\<lambda>q. if q < i then ?fb q else 0) [p..<p + c] = map ?fb [p..<p + c]" using 1 by simp
    ultimately show ?thesis unfolding unf using 1 assms(12) by simp
  next
    case 2
    have "map (\<lambda>q. if q < i then ?fb q else 0) [p..<p + c] = replicate c 0"
      using 2 by (intro nth_equalityI) auto
    then show ?thesis unfolding unf using 2 assms(11,12) bzero_append [of 0 "[]" c mem] by simp
  next
    case 3
    have sc: "s \<le> p + c"
      using dvd_gap [of ?ps "p + c" s] s(2,4) 3 assms(7,8) by fastforce
    define c' where "c' = s - p"
    define M where "M = take c' mem @ replicate (c - c') 0 @ drop c mem"
    have c': "int s - int p = int c'" "c' \<le> c" "p + c' = s" "?ps dvd c'" using 3 s sc assms(7) by (auto simp: c'_def dvd_diff_nat)
    have M: "bzero mem c' (c - c') = Some M" "length M = length mem"
      using bzero_append [of c' "take c' mem" "c - c'" "drop c' mem"] c'(2) assms(11) by (simp_all add: M_def)
    have goal: "map (\<lambda>q. if q < i then ?fb q else 0) [p..<p + c] = map ?fb [p..<i] @ replicate (s - i) 0 @ replicate (c - c') 0"
      using map_upto_zero [of p i c ?fb] 3 s(3) sc c'(3) by (simp flip: replicate_add)
    show ?thesis
    proof (cases "c' = 0")
      case True
      then show ?thesis unfolding unf c'(1) using 3 s(3) M c'(2,3) goal assms(12) by (simp add: M_def)
    next
      case False
      obtain st' where st': "rc_loop (env\<lparr>pages_per_cb := 0xffff, last_pg := 0\<rparr>)
           \<lparr>rc_ni = ni, rc_mem = M, rc_ofs = int p, rc_dst = 0, rc_count = int c',
            rc_dst_ofs_in_cb = nat (and (int p) (int (compression_block_size ni) - 1)),
            rc_cur_pg = 0, rc_cur_pg_ofs = 0\<rparr> = Some (EOK, st')"
          "rc_ni st' = ni" "rc_mem st' = map ?fb [p..<p + c'] @ drop c' M"
        by (rule rc_loop_start [OF assms(1-4) _ assms(7) c'(4)]) (use False assms c' M in auto)
      have mem': "rc_mem st' = map ?fb [p..<i] @ map ?fb [i..<s] @ replicate (c - c') 0 @ drop c mem"
        using st'(3) c' 3 s(3) assms(11) upt_add_eq_append [of p i "s - i"] by (simp add: M_def)
      have "bzero (rc_mem st') (i - p) (s - i) =
          Some (map ?fb [p..<i] @ replicate (s - i) 0 @ replicate (c - c') 0 @ drop c mem)"
        unfolding mem' using 3 bzero_append [of "i - p" "map ?fb [p..<i]" "s - i"] by simp
      moreover have "i < s \<Longrightarrow> int ?ps - int (i - p) mod int ?ps = int (s - i)"
        using rest_of_page [OF s(2) assms(7) 3(1) _ s(4)] by simp
      moreover have "i < s \<Longrightarrow> i \<noteq> p"
        using dvd_gap [OF assms(7) s(2)] s(4) by auto
      moreover have "int i - int p = int (i - p)" "nat (int c - int c') = c - c'" using 3 c'(2) by simp_all
      ultimately show ?thesis unfolding unf c'(1) goal using 3 s(3) M(1) st'(1,2) mem' c'(2) False assms(12)
        by (cases "i < s") (simp_all del: of_nat_diff)
    qed
  qed
qed

theorem ntfs_read_compressed_correct_witness:
  "let ni = \<lparr>cb_cluster_size_shift = 9, compression_block_clusters = 16, compression_block_size = 8192,
        cb_rl = [\<lparr>vcn = 0, lcn = 100, rlen = 1\<rparr>, \<lparr>vcn = 1, lcn = -1, rlen = 15\<rparr>, \<lparr>vcn = 16, lcn = -3, rlen = 0\<rparr>]\<rparr>;
      env = \<lparr>page_size = 4096, page_list = None, last_pg = 0, pages_per_cb = 0, ofs_start = 0, have_uio = True,
        have_cb = True, map_runlist = (\<lambda>xs v. (EIO, xs)),
        cluster_read = (\<lambda>ofs n. (EOK, take n ([0x03, 0xb0, 0x02, 0x41, 0xfc, 0x0f] @ replicate 8186 0)))\<rparr>
   in ntfs_read_compressed env True ni 100 100 4096 (replicate 4096 0x77) =
     Some (EOK, ni, replicate 100 0x41 @ replicate 3996 0)"
proof -
  define ni where "ni = \<lparr>cb_cluster_size_shift = 9, compression_block_clusters = 16, compression_block_size = 8192,
      cb_rl = [\<lparr>vcn = 0, lcn = 100, rlen = 1\<rparr>, \<lparr>vcn = 1, lcn = -1, rlen = 15\<rparr>, \<lparr>vcn = 16, lcn = -3, rlen = 0\<rparr>]\<rparr>"
  define env where "env = \<lparr>page_size = 4096, page_list = None, last_pg = 0, pages_per_cb = 0, ofs_start = 0,
      have_uio = True, have_cb = True, map_runlist = (\<lambda>xs v. (EIO, xs)),
      cluster_read = (\<lambda>ofs n. (EOK, take n ([0x03, 0xb0, 0x02, 0x41, 0xfc, 0x0f] @ replicate 8186 (0 :: u8))))\<rparr>"
  define content :: "nat \<Rightarrow> u8 list" where "content = (\<lambda>k. replicate 4096 0x41 @ replicate 4096 0)"
  obtain sb where sb: "sb_ok sb" "sb_bytes sb = [0x03, 0xb0, 0x02, 0x41, 0xfc, 0x0f]" "sb_data sb = replicate 4096 0x41"
    by (rule sb_all_A)
  have geo: "cb_geometry 4096 ni"
    by (auto simp: cb_geometry_def ni_def rl_wf_def rl_term_def intro!: exI [of _ 13])
  have tail: "cb_tail_ok [sb] (replicate 8186 0)"
    using replicate_add [of 2 8184 "0 :: u8"] by (simp add: cb_tail_ok_def numeral_2_eq_2)
  have "cb_holds (cluster_read env) ni 0 (content 0)"
    unfolding cb_holds_def Let_def
    by (rule conjI, simp add: content_def ni_def, rule disjI2, rule disjI2, intro conjI exI [of _ "[sb]"]
        exI [of _ "replicate 8186 0"])
      (use sb tail in \<open>simp_all add: ni_def env_def content_def rl_lookup_def run_lcn_def\<close>)
  then have "ntfs_read_compressed env True ni (int 100) 100 (int 4096) (replicate 4096 0x77) =
    Some (EOK, ni, map (\<lambda>q. if q < 100 then file_byte 8192 content q else 0) [0..<0 + 4096] @ [])"
    using ntfs_read_compressed_correct [where env = env and ni = ni and p = 0 and c = 4096 and content = content and
        i = 100 and data_size = 100 and mem = "replicate 4096 0x77"] geo
    by (simp add: env_def ni_def)
  moreover have "map (\<lambda>q. if q < 100 then file_byte 8192 content q else 0) [0..<0 + 4096] =
      replicate 100 0x41 @ replicate 3996 0"
    by (rule nth_equalityI) (auto simp: file_byte_def content_def nth_append)
  ultimately show ?thesis unfolding Let_def env_def [symmetric] ni_def [symmetric] by simp
qed

end
