(* ===== verification/NTFS_Logfile.thy ===== *)
theory NTFS_Logfile
  imports NTFS_Mst
begin

unbundle bit_operations_syntax

text \<open>
  The journal, \<open>kext/ntfs_logfile.c\<close>: the consistency checks of its restart pages, loading a
  restart page, finding the current one, and whether the volume was shut down cleanly.

  A restart page is a byte buffer and its structures are offsets in it. The restart page
  header has the magic at 0, \<open>usa_ofs\<close> at 4, \<open>usa_count\<close> at 6, \<open>chkdsk_lsn\<close> at 8,
  \<open>system_page_size\<close> at 16, \<open>log_page_size\<close> at 20, \<open>restart_area_offset\<close> at 24, \<open>minor_ver\<close> at 26 and
  \<open>major_ver\<close> at 28, 30 bytes in all; the fields of the restart area are named where they are
  read. Reading outside the buffer is \<open>None\<close>.

  \<open>page_map\<close> is \<open>ntfs_page_map\<close> on the inode of the journal: an error, or the bytes of the page at
  an offset. Locks and references are not modelled.
\<close>

section \<open>Restart pages\<close>

definition magic_RSTR :: nat where "magic_RSTR = 0x52545352"

definition magic_RCRD :: nat where "magic_RCRD = 0x44524352"

definition magic_CHKD :: nat where "magic_CHKD = 0x444b4843"

definition magic_empty :: nat where "magic_empty = 0xffffffff"

definition LOGFILE_NO_CLIENT :: nat where "LOGFILE_NO_CLIENT = 0xffff"

text \<open>
  The checks of the update sequence array: \<open>None\<close> when they fail, otherwise where the restart
  area may begin. The variables \<open>usa_count\<close> and \<open>usa_end\<close> have 16 bits.
\<close>

definition restart_usa_check :: "u8 list \<Rightarrow> nat \<Rightarrow> nat option option" where
  "restart_usa_check rp system_page_size = do {
     magic \<leftarrow> rd32 rp 0;
     cnt \<leftarrow> rd16 rp 6;
     if magic = magic_CHKD \<and> cnt = 0 then Some (Some 30)
     else let usa_count = (1 + system_page_size div 512) mod 65536 in
     if usa_count \<noteq> cnt then Some None
     else do {
       usa_ofs \<leftarrow> rd16 rp 4;
       let usa_end = (usa_ofs + usa_count * 2) mod 65536;
       Some (if usa_ofs < 30 \<or> 510 < usa_end then None else Some usa_end) } }"

definition ntfs_restart_page_header_is_valid :: "u8 list \<Rightarrow> int \<Rightarrow> bool option" where
  "ntfs_restart_page_header_is_valid rp pos = do {
     system_page_size \<leftarrow> rd32 rp 16;
     log_page_size \<leftarrow> rd32 rp 20;
     if system_page_size < 512 \<or> log_page_size < 512 \<or>
       system_page_size AND (system_page_size - 1) \<noteq> 0 \<or> log_page_size AND (log_page_size - 1) \<noteq> 0
     then Some False
     else if pos \<noteq> 0 \<and> pos \<noteq> int system_page_size then Some False
     else do {
       major_ver \<leftarrow> rd16 rp 28;
       minor_ver \<leftarrow> rd16 rp 26;
       if major_ver \<noteq> 1 \<or> minor_ver \<noteq> 1 then Some False
       else do {
         r \<leftarrow> restart_usa_check rp system_page_size;
         case r of
           None \<Rightarrow> Some False
         | Some ra_min \<Rightarrow> do {
             ra_ofs \<leftarrow> rd16 rp 24;
             if ra_ofs mod 8 \<noteq> 0 \<or> ra_ofs < ra_min \<or> system_page_size < ra_ofs then Some False
             else do {
               magic \<leftarrow> rd32 rp 0;
               lsn \<leftarrow> rd64 rp 8;
               Some (magic = magic_CHKD \<or> lsn = 0) } } } } }"

text \<open>The loop that counts the bits of the file size.\<close>

fun fs_bits :: "nat \<Rightarrow> nat" where
  "fs_bits file_size = (if file_size = 0 then 0 else Suc (fs_bits (file_size div 2)))"

declare fs_bits.simps [simp del]

text \<open>\<open>(x + 7) & ~7\<close>\<close>

abbreviation align8 :: "nat \<Rightarrow> nat" where
  "align8 x \<equiv> (x + 7) div 8 * 8"

text \<open>
  The restart area at \<open>ra\<close> has \<open>current_lsn\<close> at 0, \<open>log_clients\<close> at 8, \<open>client_free_list\<close> at 10,
  \<open>client_in_use_list\<close> at 12, \<open>flags\<close> at 14, \<open>seq_number_bits\<close> at 16, \<open>restart_area_length\<close> at 20,
  \<open>client_array_offset\<close> at 22, \<open>file_size\<close> at 24, \<open>log_record_header_length\<close> at 36 and
  \<open>log_page_data_offset\<close> at 38. A log client record has 160 bytes, \<open>prev_client\<close> at 16 and
  \<open>next_client\<close> at 18. The variable \<open>ra_len\<close> has 16 bits.
\<close>

definition ntfs_restart_area_is_valid :: "u8 list \<Rightarrow> bool option" where
  "ntfs_restart_area_is_valid rp = do {
     ra \<leftarrow> rd16 rp 24;
     if 510 < ra + 24 then Some False
     else do {
       ca_ofs \<leftarrow> rd16 rp (ra + 22);
       if align8 ca_ofs \<noteq> ca_ofs \<or> 510 < ra + ca_ofs then Some False
       else do {
         log_clients \<leftarrow> rd16 rp (ra + 8);
         system_page_size \<leftarrow> rd32 rp 16;
         restart_area_length \<leftarrow> rd16 rp (ra + 20);
         let ra_len = (ca_ofs + log_clients * 160) mod 65536;
         if system_page_size < ra + ra_len \<or> system_page_size < ra + restart_area_length \<or>
           restart_area_length < ra_len then Some False
         else do {
           free_list \<leftarrow> rd16 rp (ra + 10);
           in_use_list \<leftarrow> rd16 rp (ra + 12);
           if free_list \<noteq> LOGFILE_NO_CLIENT \<and> log_clients \<le> free_list \<or>
             in_use_list \<noteq> LOGFILE_NO_CLIENT \<and> log_clients \<le> in_use_list then Some False
           else do {
             file_size \<leftarrow> rd64 rp (ra + 24);
             seq_number_bits \<leftarrow> rd32 rp (ra + 16);
             if seq_number_bits \<noteq> 67 - fs_bits (nat (file_size mod 2 ^ 64)) then Some False
             else do {
               hdr_len \<leftarrow> rd16 rp (ra + 36);
               data_ofs \<leftarrow> rd16 rp (ra + 38);
               Some (align8 hdr_len = hdr_len \<and> align8 data_ofs = data_ofs) } } } } } }"

text \<open>
  From \<open>check_list\<close> on, for one list: the number of records that may still be visited
  afterwards, or \<open>None\<close> for the error.
\<close>

fun check_list :: "u8 list \<Rightarrow> nat \<Rightarrow> nat \<Rightarrow> nat \<Rightarrow> nat \<Rightarrow> bool \<Rightarrow> nat option option" where
  "check_list rp ca log_clients nr_clients idx idx_is_first =
     (if idx = LOGFILE_NO_CLIENT then Some (Some nr_clients)
      else if nr_clients = 0 \<or> log_clients \<le> idx then Some None
      else do {
        prev_client \<leftarrow> (if idx_is_first then rd16 rp (ca + idx * 160 + 16) else Some LOGFILE_NO_CLIENT);
        if prev_client \<noteq> LOGFILE_NO_CLIENT then Some None
        else do {
          next_client \<leftarrow> rd16 rp (ca + idx * 160 + 18);
          check_list rp ca log_clients (nr_clients - 1) next_client False } })"

declare check_list.simps [simp del]

definition ntfs_log_client_array_is_consistent :: "u8 list \<Rightarrow> bool option" where
  "ntfs_log_client_array_is_consistent rp = do {
     ra \<leftarrow> rd16 rp 24;
     ca_ofs \<leftarrow> rd16 rp (ra + 22);
     log_clients \<leftarrow> rd16 rp (ra + 8);
     free_list \<leftarrow> rd16 rp (ra + 10);
     r \<leftarrow> check_list rp (ra + ca_ofs) log_clients log_clients free_list True;
     case r of
       None \<Rightarrow> Some False
     | Some nr_clients \<Rightarrow> do {
         in_use_list \<leftarrow> rd16 rp (ra + 12);
         r \<leftarrow> check_list rp (ra + ca_ofs) log_clients nr_clients in_use_list True;
         Some (r \<noteq> None) } }"

section \<open>Loading a restart page\<close>

text \<open>A buffer as the 16-bit units \<open>ntfs_mst_fixup_post_read\<close> works on, and back.\<close>

fun to_units :: "u8 list \<Rightarrow> u16 list" where
  "to_units (a # b # xs) = of_nat (unat a + 256 * unat b) # to_units xs"
| "to_units xs = []"

definition of_units :: "u16 list \<Rightarrow> u8 list" where
  "of_units us = concat (map (\<lambda>u. [of_nat (unat u), of_nat (unat u div 256)]) us)"

text \<open>
  The loop that copies the rest of the restart page one page at a time. \<open>PAGE_SIZE\<close> is not 0.
\<close>

function read_rest ::
  "nat \<Rightarrow> (int \<Rightarrow> errno + u8 list) \<Rightarrow> u8 list \<Rightarrow> int \<Rightarrow> nat \<Rightarrow> nat \<Rightarrow> nat \<Rightarrow> (errno + u8 list) option" where
  "read_rest page_size page_map trp pos sz have_read to_read = (
     let pos = pos + int sz in
     if pos mod int page_size \<noteq> 0 then None
     else case page_map pos of
       Inl err \<Rightarrow> Some (Inl (if err \<noteq> EIO \<and> err \<noteq> ENOMEM then EIO else err))
     | Inr kaddr \<Rightarrow> let sz = min page_size to_read in do {
         trp \<leftarrow> copy_els trp have_read kaddr 0 sz;
         if to_read - sz = 0 \<or> sz = 0 then Some (Inr trp)
         else read_rest page_size page_map trp pos sz (have_read + sz) (to_read - sz) })"
  by pat_completeness auto
termination
  by (relation "measure (\<lambda>(ps, pm, trp, pos, sz, have_read, to_read). to_read)") auto

declare read_rest.simps [simp del]

text \<open>
  The multi sector transfer deprotection: an error only matters when the restart area leaves
  the first sector.
\<close>

definition restart_deprotect :: "u8 list \<Rightarrow> u8 list \<Rightarrow> nat \<Rightarrow> (errno \<times> u8 list) option" where
  "restart_deprotect rp trp system_page_size = do {
     magic \<leftarrow> rd32 trp 0;
     cnt \<leftarrow> rd16 trp 6;
     if magic = magic_CHKD \<and> cnt = 0 then Some (EOK, trp)
     else do {
       (err, us) \<leftarrow> ntfs_mst_fixup_post_read (to_units trp) system_page_size;
       let trp = of_units us;
       if err = EOK then Some (EOK, trp)
       else do {
         ra \<leftarrow> rd16 rp 24;
         len \<leftarrow> rd16 rp (ra + 20);
         Some (if 510 < ra + len then EINVAL else EOK, trp) } } }"

text \<open>
  The result is the error, or the restart page and its lsn. \<open>alloc\<close> says whether there is
  memory for the copy. The code passes both out parameters.
\<close>

definition ntfs_restart_page_load ::
  "nat \<Rightarrow> (int \<Rightarrow> errno + u8 list) \<Rightarrow> bool \<Rightarrow> u8 list \<Rightarrow> int \<Rightarrow> (errno + u8 list \<times> int) option" where
  "ntfs_restart_page_load page_size page_map alloc rp pos = do {
     header_ok \<leftarrow> ntfs_restart_page_header_is_valid rp pos;
     if \<not> header_ok then Some (Inl EINVAL)
     else do {
       area_ok \<leftarrow> ntfs_restart_area_is_valid rp;
       if \<not> area_ok then Some (Inl EINVAL)
       else do {
         ra \<leftarrow> rd16 rp 24;
         system_page_size \<leftarrow> rd32 rp 16;
         if \<not> alloc then Some (Inl ENOMEM)
         else do {
           let sz = page_size - nat (pos mod int page_size);
           let trp = replicate system_page_size 0;
           r \<leftarrow> (if system_page_size \<le> sz then do {
                   trp \<leftarrow> copy_els trp 0 rp 0 system_page_size;
                   Some (Inr trp) }
                 else do {
                   trp \<leftarrow> copy_els trp 0 rp 0 sz;
                   read_rest page_size page_map trp pos sz sz (system_page_size - sz) });
           case r of
             Inl err \<Rightarrow> Some (Inl err)
           | Inr trp \<Rightarrow> do {
               (err, trp) \<leftarrow> restart_deprotect rp trp system_page_size;
               if err \<noteq> EOK then Some (Inl err)
               else do {
                 magic \<leftarrow> rd32 rp 0;
                 in_use_list \<leftarrow> rd16 rp (ra + 12);
                 consistent \<leftarrow> (if magic = magic_RSTR \<and> in_use_list \<noteq> LOGFILE_NO_CLIENT
                   then ntfs_log_client_array_is_consistent trp else Some True);
                 if \<not> consistent then Some (Inl EINVAL)
                 else do {
                   lsn \<leftarrow> (if magic = magic_RSTR then rd64 rp ra else rd64 rp 8);
                   Some (Inr (trp, lsn)) } } } } } } }"

section \<open>Checking the journal\<close>

text \<open>The page that contains the position: the one that is mapped already, or a new one.\<close>

definition map_scan_page ::
  "nat \<Rightarrow> (int \<Rightarrow> errno + u8 list) \<Rightarrow> int \<Rightarrow> (int \<times> u8 list) option \<Rightarrow> errno + int \<times> u8 list" where
  "map_scan_page page_size page_map pos upl =
     (case upl of
        Some (ppos, paddr) \<Rightarrow>
          if pos div int page_size * int page_size = ppos then Inr (ppos, paddr)
          else map_sum id (\<lambda>p. (pos, p)) (page_map pos)
      | None \<Rightarrow> map_sum id (\<lambda>p. (pos, p)) (page_map pos))"

text \<open>
  The loop that looks for restart pages. Its variables are the position, the page that is
  mapped with its offset, whether every record so far was empty, and the restart pages found
  so far with their lsn: one at position 0 and one behind it at most. The result is an error,
  or whether the journal is empty and what was found. \<open>alloc pos\<close> says whether the memory for
  the page at \<open>pos\<close> is allocated.
\<close>

type_synonym restart_pages = "(u8 list \<times> int) list"

function scan_restart_pages ::
  "nat \<Rightarrow> (int \<Rightarrow> errno + u8 list) \<Rightarrow> (int \<Rightarrow> bool) \<Rightarrow> int \<Rightarrow> int \<Rightarrow> (int \<times> u8 list) option \<Rightarrow> bool \<Rightarrow> restart_pages \<Rightarrow>
   (errno + bool \<times> restart_pages) option" where
  "scan_restart_pages page_size page_map alloc fsize pos upl logfile_is_empty found =
     (if pos < 0 \<or> fsize \<le> pos then Some (Inr (logfile_is_empty, found))
      else let
        next_pos = (if pos = 0 then 512 else 2 * pos) in
      case map_scan_page page_size page_map pos upl of
        Inl err \<Rightarrow> Some (Inl (if err \<noteq> EIO \<and> err \<noteq> ENOMEM then EIO else err))
      | Inr (ppos, paddr) \<Rightarrow> do {
          let kaddr = drop (nat (pos mod int page_size)) paddr;
          magic \<leftarrow> rd32 kaddr 0;
          if magic = magic_empty then
            if logfile_is_empty
            then scan_restart_pages page_size page_map alloc fsize next_pos (Some (ppos, paddr)) True found
            else Some (Inr (False, found))
          else if magic = magic_RCRD then Some (Inr (False, found))
          else if magic \<noteq> magic_RSTR \<and> magic \<noteq> magic_CHKD
          then scan_restart_pages page_size page_map alloc fsize next_pos (Some (ppos, paddr)) False found
          else do {
            r \<leftarrow> ntfs_restart_page_load page_size page_map (alloc pos) kaddr pos;
            case r of
              Inr rstr \<Rightarrow>
                if pos = 0
                then scan_restart_pages page_size page_map alloc fsize next_pos (Some (ppos, paddr)) False (found @ [rstr])
                else Some (Inr (False, found @ [rstr]))
            | Inl err \<Rightarrow>
                if err \<noteq> EINVAL then Some (Inl err)
                else scan_restart_pages page_size page_map alloc fsize next_pos (Some (ppos, paddr)) False found } })"
  by pat_completeness auto
termination
  by (relation "measure (\<lambda>(ps, pm, al, fsize, pos, upl, e, found). nat (fsize - pos))") auto

declare scan_restart_pages.simps [simp del]

text \<open>
  \<open>NtfsMaxLogFileSize\<close> is \<open>0x100000000\<close>, \<open>NtfsDefaultLogPageSize\<close> 4096 and \<open>NtfsMinLogRecordPages\<close> 48. The
  page size is a power of two. The result has the error, the flag \<open>NVolLogFileEmpty\<close> of the
  volume and the current restart page, if one is returned; \<open>vnode_err\<close> is the result of
  \<open>vnode_get\<close>.
\<close>

definition log_page_size :: "nat \<Rightarrow> int" where
  "log_page_size page_size = (if 4096 \<le> page_size \<and> page_size \<le> 4096 * 2 then 4096 else int page_size)"

definition usable_log_size :: "nat \<Rightarrow> int \<Rightarrow> int" where
  "usable_log_size page_size data_size =
     min data_size 0x100000000 div log_page_size page_size * log_page_size page_size"

definition pick_restart_page :: "restart_pages \<Rightarrow> u8 list option" where
  "pick_restart_page found =
     (case found of
        [] \<Rightarrow> None
      | [(rstr1, lsn1)] \<Rightarrow> Some rstr1
      | (rstr1, lsn1) # (rstr2, lsn2) # _ \<Rightarrow> Some (if lsn1 < lsn2 then rstr2 else rstr1))"

definition ntfs_logfile_check ::
  "nat \<Rightarrow> (int \<Rightarrow> errno + u8 list) \<Rightarrow> (int \<Rightarrow> bool) \<Rightarrow> bool \<Rightarrow> errno \<Rightarrow> int \<Rightarrow> (errno \<times> bool \<times> u8 list option) option" where
  "ntfs_logfile_check page_size page_map alloc log_file_empty vnode_err data_size =
     (if log_file_empty then Some (EOK, True, None)
      else if vnode_err \<noteq> EOK then Some (if vnode_err = EINVAL then EIO else vnode_err, False, None)
      else let fsize = usable_log_size page_size data_size; lps = log_page_size page_size in
      if fsize < lps * 2 \<or> (fsize - lps * 2) div lps < 48 then Some (EINVAL, False, None)
      else do {
        r \<leftarrow> scan_restart_pages page_size page_map alloc fsize 0 None True [];
        case r of
          Inl err \<Rightarrow> Some (err, False, None)
        | Inr (logfile_is_empty, found) \<Rightarrow>
            if logfile_is_empty then Some (EOK, True, None)
            else case pick_restart_page found of
              None \<Rightarrow> Some (EINVAL, False, None)
            | Some rp \<Rightarrow> Some (EOK, False, Some rp) })"

text \<open>\<open>RESTART_VOLUME_IS_CLEAN\<close> is bit 1 of the flags.\<close>

definition ntfs_logfile_is_clean :: "bool \<Rightarrow> u8 list option \<Rightarrow> bool option" where
  "ntfs_logfile_is_clean log_file_empty page =
     (if log_file_empty then Some True
      else case page of
        None \<Rightarrow> None
      | Some rp \<Rightarrow> do {
          magic \<leftarrow> rd32 rp 0;
          if magic \<noteq> magic_RSTR \<and> magic \<noteq> magic_CHKD then Some False
          else do {
            ra \<leftarrow> rd16 rp 24;
            in_use_list \<leftarrow> rd16 rp (ra + 12);
            flags \<leftarrow> rd16 rp (ra + 14);
            Some (\<not> (in_use_list \<noteq> LOGFILE_NO_CLIENT \<and> flags div 2 mod 2 = 0)) } })"

text \<open>
  \<open>attr_set\<close> is \<open>ntfs_attr_set\<close>: it fills a range of the attribute with a byte and returns an
  error and the new contents of the journal. The result has the error, the flag and the
  contents.
\<close>

definition ntfs_logfile_empty ::
  "('f \<Rightarrow> int \<Rightarrow> int \<Rightarrow> u8 \<Rightarrow> errno \<times> 'f) \<Rightarrow> bool \<Rightarrow> errno \<Rightarrow> int \<Rightarrow> 'f \<Rightarrow> errno \<times> bool \<times> 'f" where
  "ntfs_logfile_empty attr_set log_file_empty vnode_err data_size f =
     (if log_file_empty then (EOK, True, f)
      else if vnode_err \<noteq> EOK then (vnode_err, False, f)
      else case attr_set f 0 data_size 0xff of (err, f) \<Rightarrow>
        if err \<noteq> EOK then (err, False, f) else (EOK, True, f))"

section \<open>The log client array\<close>

lemma rd16_in_bounds: "i + 1 < length xs \<Longrightarrow> rd16 xs i \<noteq> None"
  by (simp add: rd16_def mem_simps)

lemma rd16_out_of_bounds: "length xs \<le> i + 1 \<Longrightarrow> rd16 xs i = None"
  by (cases "i < length xs") (simp_all add: rd16_def mem_simps)

text \<open>When the whole array lies inside the page the walk along a list stays in it.\<close>

lemma check_list_in_bounds:
  "ca + n * 160 \<le> length rp \<Longrightarrow> check_list rp ca n nr idx first \<noteq> None"
proof (induction nr arbitrary: idx first)
  case 0
  then show ?case by (subst check_list.simps) simp
next
  case (Suc nr)
  show ?case
  proof (cases "idx < n")
    case True
    then have "(idx + 1) * 160 \<le> n * 160" by simp
    then have "ca + idx * 160 + 19 < length rp" using Suc.prems by simp
    then have "rd16 rp (ca + idx * 160 + 16) \<noteq> None" "rd16 rp (ca + idx * 160 + 18) \<noteq> None"
      by (intro rd16_in_bounds; simp)+
    then show ?thesis using Suc.IH [OF Suc.prems] by (subst check_list.simps) auto
  qed (subst check_list.simps, simp)
qed

text \<open>What the two checks of a restart page establish about the client array.\<close>

lemma restart_area_facts:
  assumes "ntfs_restart_area_is_valid rp = Some True"
  obtains ra ca n sps len fl ul where
    "rd16 rp 24 = Some ra" "rd16 rp (ra + 22) = Some ca" "rd16 rp (ra + 8) = Some n" "rd32 rp 16 = Some sps"
    "rd16 rp (ra + 20) = Some len" "rd16 rp (ra + 10) = Some fl" "rd16 rp (ra + 12) = Some ul"
    "ra + ca \<le> 510" "ra + (ca + n * 160) mod 65536 \<le> sps" "ra + len \<le> sps"
    "fl = LOGFILE_NO_CLIENT \<or> fl < n" "ul = LOGFILE_NO_CLIENT \<or> ul < n"
  using assms unfolding ntfs_restart_area_is_valid_def Let_def
  by (auto split: bind_splits if_splits simp: not_le not_less)

text \<open>
  C30. The bound of the client array: a restart page that passes the check of its restart
  area, and whose client array does not reach 64 kB, can be checked for the
  consistency of its log clients without leaving the page.
\<close>

theorem log_client_array_in_bounds:
  assumes "ntfs_restart_area_is_valid rp = Some True"
    and "rd32 rp 16 = Some (length rp)"
    and "\<forall>ra ca n. rd16 rp 24 = Some ra \<longrightarrow> rd16 rp (ra + 22) = Some ca \<longrightarrow> rd16 rp (ra + 8) = Some n \<longrightarrow>
           ca + n * 160 < 65536"
  shows "\<exists>b. ntfs_log_client_array_is_consistent rp = Some b"
proof -
  from restart_area_facts [OF assms(1)] obtain ra ca n fl ul where f:
    "rd16 rp 24 = Some ra" "rd16 rp (ra + 22) = Some ca" "rd16 rp (ra + 8) = Some n"
    "rd16 rp (ra + 10) = Some fl" "rd16 rp (ra + 12) = Some ul" "ra + (ca + n * 160) mod 65536 \<le> length rp"
    using assms(2) by (metis option.inject)
  moreover have "ca + n * 160 < 65536" using assms(3) f by blast
  ultimately have "ra + ca + n * 160 \<le> length rp" by simp
  note walk = check_list_in_bounds [OF this]
  obtain r where r: "check_list rp (ra + ca) n n fl True = Some r" using walk by blast
  show ?thesis
  proof (cases r)
    case (Some nr)
    obtain r' where "check_list rp (ra + ca) n nr ul True = Some r'" using walk by blast
    then show ?thesis using f r Some by (simp add: ntfs_log_client_array_is_consistent_def)
  qed (use f r in \<open>auto simp: ntfs_log_client_array_is_consistent_def\<close>)
qed

text \<open>
  A restart page of 4096 bytes: 96 bytes of header, update sequence array and restart area
  with the given number of log clients and head of the list of clients in use, then zeroes.
\<close>

definition sample_restart_page :: "nat \<Rightarrow> nat \<Rightarrow> u8 list" where
  "sample_restart_page log_clients in_use_list =
     [0x52, 0x53, 0x54, 0x52, 30, 0, 9, 0, 0, 0, 0, 0, 0, 0, 0, 0,
      0, 0x10, 0, 0, 0, 0x10, 0, 0, 48, 0, 1, 0, 1, 0, 0, 0,
      0, 0, 0, 0, 0, 0, 0, 0, 0, 0, 0, 0, 0, 0, 0, 0,
      0, 0, 0, 0, 0, 0, 0, 0, of_nat log_clients, of_nat (log_clients div 256), 0xff, 0xff,
      of_nat in_use_list, of_nat (in_use_list div 256), 0, 0,
      44, 0, 0, 0, 0xd0, 0, 48, 0, 0, 0, 0x40, 0, 0, 0, 0, 0,
      0, 0, 0, 0, 48, 0, 64, 0, 0, 0, 0, 0, 0, 0, 0, 0] @ replicate 4000 0"

lemma fs_bits_4M: "fs_bits 4194304 = 23"
  by (simp add: fs_bits.simps)

lemma sample_restart_page_ok:
  "ntfs_restart_page_header_is_valid (sample_restart_page 410 409) 0 = Some True"
  "ntfs_restart_area_is_valid (sample_restart_page 410 409) = Some True"
  "ntfs_restart_area_is_valid (sample_restart_page 1 0) = Some True"
  by (simp_all add: ntfs_restart_page_header_is_valid_def restart_usa_check_def ntfs_restart_area_is_valid_def
      sample_restart_page_def rd16_def rd32_def rd64_def rd_def nth_append Let_def fs_bits_4M LOGFILE_NO_CLIENT_def)


theorem log_client_array_in_bounds_witness:
  "\<exists>b. ntfs_log_client_array_is_consistent (sample_restart_page 1 0) = Some b"
proof -
  have "rd32 (sample_restart_page 1 0) 16 = Some (length (sample_restart_page 1 0))"
    "rd16 (sample_restart_page 1 0) 24 = Some 48" "rd16 (sample_restart_page 1 0) 70 = Some 48"
    "rd16 (sample_restart_page 1 0) 56 = Some 1"
    by (simp_all add: sample_restart_page_def rd32_def rd16_def rd_def nth_append)
  then show ?thesis using log_client_array_in_bounds [OF sample_restart_page_ok(3)] by simp
qed

text \<open>
  C40. The check of the restart area computes the length of the client array in 16 bits, so a
  client list can leave the page: if a restart page passes that check, its list of free
  clients is empty and the record of the first client in use begins behind the page, then
  the length of the client array has wrapped around, and the check of the client array reads
  outside the page.
\<close>

theorem log_client_array_leaves_page:
  assumes "ntfs_restart_area_is_valid rp = Some True" "rd32 rp 16 = Some (length rp)"
    and "rd16 rp 24 = Some ra" "rd16 rp (ra + 22) = Some ca" "rd16 rp (ra + 8) = Some n"
    and "rd16 rp (ra + 10) = Some LOGFILE_NO_CLIENT" "rd16 rp (ra + 12) = Some c" "c \<noteq> LOGFILE_NO_CLIENT"
    and "length rp \<le> ra + ca + c * 160"
  shows "ntfs_log_client_array_is_consistent rp = None \<and> 65536 \<le> ca + n * 160"
proof -
  have "ra + (ca + n * 160) mod 65536 \<le> length rp" and c: "c < n"
    using restart_area_facts [OF assms(1)] assms(2-8) by (metis option.inject)+
  moreover have "length rp < ra + (ca + n * 160)" using assms(9) c by simp
  ultimately have wrap: "65536 \<le> ca + n * 160" by (cases "ca + n * 160 < 65536") simp_all
  have "check_list rp (ra + ca) n n LOGFILE_NO_CLIENT True = Some (Some n)" by (subst check_list.simps) simp
  moreover have "rd16 rp (ra + ca + c * 160 + 16) = None" using assms(9) by (simp add: rd16_out_of_bounds)
  then have "check_list rp (ra + ca) n n c True = None" using c assms(8) by (subst check_list.simps) simp
  ultimately show ?thesis using assms wrap by (simp add: ntfs_log_client_array_is_consistent_def)
qed

text \<open>
  Such a page: 4096 bytes with 410 clients. It passes the check of its header too, and its
  first client in use would be 65536 bytes behind its start.
\<close>

theorem log_client_array_leaves_page_witness:
  "length (sample_restart_page 410 409) = 4096 \<and>
   ntfs_restart_page_header_is_valid (sample_restart_page 410 409) 0 = Some True \<and>
   ntfs_restart_area_is_valid (sample_restart_page 410 409) = Some True \<and>
   ntfs_log_client_array_is_consistent (sample_restart_page 410 409) = None"
proof -
  have "rd16 (sample_restart_page 410 409) 24 = Some 48" "rd16 (sample_restart_page 410 409) 70 = Some 48"
    "rd16 (sample_restart_page 410 409) 56 = Some 410" "rd16 (sample_restart_page 410 409) 58 = Some LOGFILE_NO_CLIENT"
    "rd16 (sample_restart_page 410 409) 60 = Some 409" "rd32 (sample_restart_page 410 409) 16 = Some 4096"
    and len: "length (sample_restart_page 410 409) = 4096"
    by (simp_all add: sample_restart_page_def rd32_def rd16_def rd_def nth_append LOGFILE_NO_CLIENT_def)
  then show ?thesis
    using log_client_array_leaves_page [OF sample_restart_page_ok(2), of 48 48 410 409] sample_restart_page_ok(1,2)
    by (simp add: LOGFILE_NO_CLIENT_def)
qed

section \<open>Looking for restart pages\<close>

lemma rd32_replicate: "i + 4 \<le> n \<Longrightarrow> rd32 (drop i (replicate n 0xff)) 0 = Some magic_empty"
  by (simp add: rd32_def rd16_def rd_def magic_empty_def)

lemma block_in_page:
  fixes pos :: int
  assumes "512 dvd pos" "512 dvd page_size" "0 < page_size"
  shows "nat (pos mod int page_size) + 4 \<le> page_size"
proof -
  obtain q where q: "page_size = 512 * q" using assms(2) by (auto elim!: dvdE)
  have "512 dvd pos mod int page_size" using assms(1) by (simp add: q dvd_mod)
  then obtain r where r: "pos mod int page_size = 512 * r" by (auto elim!: dvdE)
  moreover have "pos mod int page_size < int page_size" using assms(3) by simp
  ultimately have "r < int q" by (simp add: q)
  then have "pos mod int page_size + 4 \<le> int page_size" using r q by linarith
  moreover have "0 \<le> pos mod int page_size" using assms(3) by simp
  ultimately show ?thesis by linarith
qed

text \<open>The positions the loop visits: 0, 512, 1024 and so on.\<close>

definition scan_pos :: "int \<Rightarrow> bool" where
  "scan_pos pos \<longleftrightarrow> pos = 0 \<or> (\<exists>j. pos = 512 * 2 ^ j)"

lemma scan_pos_next: "scan_pos pos \<Longrightarrow> scan_pos (if pos = 0 then 512 else 2 * pos)"
  unfolding scan_pos_def by (auto intro: exI [of _ 0]) (metis mult.left_commute power_Suc)

lemma scan_pos_facts: "scan_pos pos \<Longrightarrow> 0 \<le> pos" "scan_pos pos \<Longrightarrow> 512 dvd pos"
  by (auto simp: scan_pos_def)

lemma scan_pos_aligned: "scan_pos pos \<Longrightarrow> 512 * 2 ^ k \<le> pos \<Longrightarrow> (512 * 2 ^ k) dvd pos"
proof -
  assume a: "scan_pos pos" "512 * 2 ^ k \<le> pos"
  then obtain j where j: "pos = 512 * 2 ^ j" by (auto simp: scan_pos_def)
  then have "(2 :: int) ^ k \<le> 2 ^ j" using a(2) by simp
  then have "k \<le> j" by simp
  then show ?thesis by (simp add: j le_imp_power_dvd)
qed

lemma scan_empty:
  assumes "page_size = 512 * 2 ^ k" "fsize \<le> data_size"
    and pages: "\<And>pos. 0 \<le> pos \<Longrightarrow> pos < data_size \<Longrightarrow> int page_size dvd pos \<Longrightarrow>
      page_map pos = Inr (replicate page_size 0xff)"
    and "scan_pos pos"
    and "(upl = None \<and> pos = 0) \<or> (\<exists>q. upl = Some (q, replicate page_size 0xff) \<and> (pos < int page_size \<longrightarrow> q = 0))"
  shows "scan_restart_pages page_size page_map alloc fsize pos upl True [] = Some (Inr (True, []))"
  using assms(4,5)
proof (induction "nat (fsize - pos)" arbitrary: pos upl rule: less_induct)
  case less
  let ?pg = "replicate page_size 0xff" and ?next = "if pos = 0 then 512 else 2 * pos"
  have ps: "0 < page_size" "512 dvd page_size" by (simp_all add: assms(1))
  have magic: "rd32 (drop (nat (pos mod int page_size)) ?pg) 0 = Some magic_empty"
    using rd32_replicate [OF block_in_page [OF scan_pos_facts(2) [OF less.prems(1)] ps(2,1)]] .
  show ?case
  proof (cases "fsize \<le> pos")
    case True
    then show ?thesis by (subst scan_restart_pages.simps) simp
  next
    case False
    have pos: "0 \<le> pos" using scan_pos_facts less.prems by simp
    have map: "page_map pos = Inr ?pg" if "pos = 0 \<or> int page_size \<le> pos"
      using that pages [of pos] scan_pos_aligned [OF less.prems(1), of k] False assms(1,2) pos by auto
    have low: "pos div int page_size * int page_size = 0" if "pos < int page_size" using that pos by simp
    obtain q where q: "map_scan_page page_size page_map pos upl = Inr (q, ?pg)" "pos < int page_size \<longrightarrow> q = 0"
      using less.prems(2) map low unfolding map_scan_page_def
      by (cases "pos < int page_size"; cases "pos div int page_size * int page_size = fst (the upl)") auto
    have "nat (fsize - ?next) < nat (fsize - pos)" using False pos by auto
    moreover have "?next < int page_size \<Longrightarrow> pos < int page_size" using pos by (auto split: if_splits)
    ultimately have "scan_restart_pages page_size page_map alloc fsize ?next (Some (q, ?pg)) True [] = Some (Inr (True, []))"
      using less.hyps [of ?next "Some (q, ?pg)"] scan_pos_next [OF less.prems(1)] q(2) by auto
    then show ?thesis using False pos magic unfolding scan_restart_pages.simps [of _ _ _ _ pos] Let_def q(1) by simp
  qed
qed

text \<open>
  C26. Emptying the journal: if filling the journal with \<open>0xff\<close> succeeds, \<open>ntfs_logfile_empty\<close>
  reports success and marks it empty, and on the next mount \<open>ntfs_logfile_check\<close> finds the
  journal empty again, returns success without a restart page, and the volume counts as
  cleanly shut down.
\<close>

theorem logfile_emptied_is_clean:
  assumes "page_size = 512 * 2 ^ k" and "log_page_size page_size * 50 \<le> usable_log_size page_size data_size"
    and "attr_set f 0 data_size 0xff = (EOK, f')"
    and "\<And>pos. 0 \<le> pos \<Longrightarrow> pos < data_size \<Longrightarrow> int page_size dvd pos \<Longrightarrow>
      page_map f' pos = Inr (replicate page_size 0xff)"
  shows "ntfs_logfile_empty attr_set False EOK data_size f = (EOK, True, f') \<and>
    ntfs_logfile_check page_size (page_map f') alloc False EOK data_size = Some (EOK, True, None) \<and>
    ntfs_logfile_is_clean True None = Some True"
proof -
  have lps: "0 < log_page_size page_size" by (simp add: log_page_size_def assms(1))
  have "usable_log_size page_size data_size \<le> min data_size 0x100000000"
    unfolding usable_log_size_def minus_mod_eq_div_mult [symmetric]
    using pos_mod_sign [OF lps, of "min data_size 0x100000000"] by linarith
  then have "scan_restart_pages page_size (page_map f') alloc (usable_log_size page_size data_size) 0 None True [] =
      Some (Inr (True, []))"
    by (intro scan_empty [OF assms(1) _ assms(4)]) (auto simp: scan_pos_def)
  moreover have "48 \<le> (usable_log_size page_size data_size - log_page_size page_size * 2) div log_page_size page_size"
    using assms(2) lps zdiv_mono1 [of "48 * log_page_size page_size" "usable_log_size page_size data_size -
        log_page_size page_size * 2" "log_page_size page_size"] by simp
  ultimately show ?thesis using assms(2,3) lps
    by (simp add: ntfs_logfile_empty_def ntfs_logfile_check_def ntfs_logfile_is_clean_def Let_def)
qed

theorem logfile_emptied_is_clean_witness:
  "ntfs_logfile_empty (\<lambda>f a b v. (EOK, v)) False EOK 0x400000 (0 :: u8) = (EOK, True, 0xff) \<and>
   ntfs_logfile_check 4096 (\<lambda>pos. Inr (replicate 4096 0xff)) (\<lambda>_. True) False EOK 0x400000 = Some (EOK, True, None) \<and>
   ntfs_logfile_is_clean True None = Some True"
  using logfile_emptied_is_clean [where page_size = 4096 and k = 3 and data_size = "0x400000" and
      attr_set = "\<lambda>f a b v. (EOK, v)" and f = 0 and f' = "0xff" and
      page_map = "\<lambda>f pos. Inr (replicate 4096 f)" and alloc = "\<lambda>_. True"]
  by (simp add: log_page_size_def usable_log_size_def)

text \<open>
  What the journal holds, without the loop: the record at a position, whether it is a
  restart page that can be loaded, and whether the search has to look at a position. A
  position is one of 0, 512, 1024 and so on. The search ends at a log record page, at an
  empty record behind a non-empty one, and at a restart page behind position 0.
\<close>

definition journal_record :: "nat \<Rightarrow> (int \<Rightarrow> errno + u8 list) \<Rightarrow> int \<Rightarrow> u8 list option" where
  "journal_record page_size page_map pos =
     (case page_map (pos div int page_size * int page_size) of
        Inl err \<Rightarrow> None
      | Inr p \<Rightarrow> Some (drop (nat (pos mod int page_size)) p))"

definition journal_magic :: "nat \<Rightarrow> (int \<Rightarrow> errno + u8 list) \<Rightarrow> int \<Rightarrow> nat option" where
  "journal_magic page_size page_map pos = Option.bind (journal_record page_size page_map pos) (\<lambda>r. rd32 r 0)"

definition restart_at ::
  "nat \<Rightarrow> (int \<Rightarrow> errno + u8 list) \<Rightarrow> (int \<Rightarrow> bool) \<Rightarrow> int \<Rightarrow> u8 list \<times> int \<Rightarrow> bool" where
  "restart_at page_size page_map alloc pos rstr \<longleftrightarrow>
     journal_magic page_size page_map pos \<in> {Some magic_RSTR, Some magic_CHKD} \<and>
     (\<exists>rp. journal_record page_size page_map pos = Some rp \<and>
       ntfs_restart_page_load page_size page_map (alloc pos) rp pos = Some (Inr rstr))"

definition search_ends ::
  "nat \<Rightarrow> (int \<Rightarrow> errno + u8 list) \<Rightarrow> (int \<Rightarrow> bool) \<Rightarrow> int \<Rightarrow> bool" where
  "search_ends page_size page_map alloc pos \<longleftrightarrow>
     journal_magic page_size page_map pos = Some magic_RCRD \<or>
     (journal_magic page_size page_map pos = Some magic_empty \<and>
       (\<exists>p < pos. scan_pos p \<and> journal_magic page_size page_map p \<noteq> Some magic_empty)) \<or>
     (0 < pos \<and> (\<exists>rstr. restart_at page_size page_map alloc pos rstr))"

definition searched ::
  "nat \<Rightarrow> (int \<Rightarrow> errno + u8 list) \<Rightarrow> (int \<Rightarrow> bool) \<Rightarrow> int \<Rightarrow> bool" where
  "searched page_size page_map alloc pos \<longleftrightarrow>
     scan_pos pos \<and> (\<forall>p < pos. scan_pos p \<longrightarrow> \<not> search_ends page_size page_map alloc p)"

definition restart_pages_before ::
  "nat \<Rightarrow> (int \<Rightarrow> errno + u8 list) \<Rightarrow> (int \<Rightarrow> bool) \<Rightarrow> int \<Rightarrow> (int \<times> u8 list \<times> int) set" where
  "restart_pages_before page_size page_map alloc b =
     {(pos, rstr). pos < b \<and> searched page_size page_map alloc pos \<and> restart_at page_size page_map alloc pos rstr}"

text \<open>Between a position and the next one there is none.\<close>

lemma scan_pos_less_next:
  assumes "scan_pos p" "scan_pos q" "q < (if p = 0 then 512 else 2 * p)"
  shows "q \<le> p"
proof (cases "p = 0 \<or> q = 0")
  case True
  have "\<not> (2 :: int) ^ j < 1" for j by (simp add: not_less)
  then show ?thesis using True assms by (auto simp: scan_pos_def)
next
  case False
  then obtain i j where ij: "p = 512 * 2 ^ i" "q = 512 * 2 ^ j" using assms(1,2) by (auto simp: scan_pos_def)
  then have "(2 :: int) ^ j < 2 ^ Suc i" using assms(3) False by simp
  then have "j \<le> i" by (simp only: power_strict_increasing_iff)
  then show ?thesis by (simp add: ij)
qed

text \<open>The page that is mapped at a position is the page of the journal that holds it.\<close>

definition upl_ok :: "nat \<Rightarrow> (int \<Rightarrow> errno + u8 list) \<Rightarrow> int \<Rightarrow> (int \<times> u8 list) option \<Rightarrow> bool" where
  "upl_ok page_size page_map pos upl \<longleftrightarrow>
     (case upl of None \<Rightarrow> pos = 0 | Some (q, p) \<Rightarrow> page_map q = Inr p \<and> (pos < int page_size \<longrightarrow> q = 0))"

lemma map_scan_page_ok:
  assumes "page_size = 512 * 2 ^ k" "scan_pos pos" "upl_ok page_size page_map pos upl"
    and m: "map_scan_page page_size page_map pos upl = Inr (ppos, paddr)"
  shows "journal_record page_size page_map pos = Some (drop (nat (pos mod int page_size)) paddr)"
    and "upl_ok page_size page_map (if pos = 0 then 512 else 2 * pos) (Some (ppos, paddr))"
proof -
  have ps: "0 < int page_size" by (simp add: assms(1))
  have pos: "0 \<le> pos" using scan_pos_facts(1) [OF assms(2)] .
  have "pos div int page_size * int page_size = (if pos < int page_size then 0 else pos)"
    using scan_pos_aligned [OF assms(2), of k] pos assms(1) by (auto simp: not_less)
  then have *: "page_map (pos div int page_size * int page_size) = Inr paddr \<and> ppos = pos div int page_size * int page_size"
    using m assms(3) pos ps unfolding map_scan_page_def upl_ok_def
    by (cases "page_map pos") (auto split: option.splits if_splits)
  then show "journal_record page_size page_map pos = Some (drop (nat (pos mod int page_size)) paddr)"
    by (simp add: journal_record_def)
  show "upl_ok page_size page_map (if pos = 0 then 512 else 2 * pos) (Some (ppos, paddr))"
    using * pos by (auto simp: upl_ok_def split: if_splits)
qed

lemma load_valid:
  assumes "ntfs_restart_page_load page_size page_map alloc rp pos = Some (Inr rstr)"
  shows "ntfs_restart_page_header_is_valid rp pos = Some True \<and> ntfs_restart_area_is_valid rp = Some True"
  using assms unfolding ntfs_restart_page_load_def by (auto split: bind_splits if_splits)

text \<open>A list of restart pages that names those before a position, in order.\<close>

definition lists_restart_pages ::
  "nat \<Rightarrow> (int \<Rightarrow> errno + u8 list) \<Rightarrow> (int \<Rightarrow> bool) \<Rightarrow> int \<Rightarrow> restart_pages \<Rightarrow> bool" where
  "lists_restart_pages page_size page_map alloc b found \<longleftrightarrow>
     (\<exists>qs. found = map snd qs \<and> sorted_wrt (\<lambda>x y. fst x < fst y) qs \<and>
       set qs = restart_pages_before page_size page_map alloc b)"

lemma restart_at_unique:
  "restart_at page_size page_map alloc pos r \<Longrightarrow> restart_at page_size page_map alloc pos r' \<Longrightarrow> r = r'"
  by (auto simp: restart_at_def)

lemma restart_pages_next:
  assumes "searched page_size page_map alloc pos"
  shows "restart_pages_before page_size page_map alloc (if pos = 0 then 512 else 2 * pos) =
    restart_pages_before page_size page_map alloc pos \<union> {(pos, r) | r. restart_at page_size page_map alloc pos r}"
    (is "?L = ?R")
proof -
  have pos: "scan_pos pos" "0 \<le> pos" using assms scan_pos_facts(1) by (auto simp: searched_def)
  have "q < (if pos = 0 then 512 else 2 * pos) \<longleftrightarrow> q < pos \<or> q = pos" if "searched page_size page_map alloc q" for q
    using scan_pos_less_next [OF pos(1), of q] that pos(2) by (auto simp: searched_def)
  then show ?thesis using assms unfolding restart_pages_before_def by blast
qed

lemma lists_skip:
  assumes "searched page_size page_map alloc pos" "lists_restart_pages page_size page_map alloc pos found"
    and "\<And>r. \<not> restart_at page_size page_map alloc pos r"
  shows "lists_restart_pages page_size page_map alloc (if pos = 0 then 512 else 2 * pos) found"
  using assms unfolding lists_restart_pages_def restart_pages_next [OF assms(1)] by simp

lemma lists_add:
  assumes "searched page_size page_map alloc pos" "lists_restart_pages page_size page_map alloc pos found"
    and "restart_at page_size page_map alloc pos r"
  shows "lists_restart_pages page_size page_map alloc (if pos = 0 then 512 else 2 * pos) (found @ [r])"
proof -
  from assms(2) obtain qs where qs: "found = map snd qs" "sorted_wrt (\<lambda>x y. fst x < fst y) qs"
    "set qs = restart_pages_before page_size page_map alloc pos" by (auto simp: lists_restart_pages_def)
  have "{(pos, r) | r. restart_at page_size page_map alloc pos r} = {(pos, r)}"
    using restart_at_unique assms(3) by blast
  moreover have "\<forall>x \<in> set qs. fst x < pos" unfolding qs(3) by (auto simp: restart_pages_before_def)
  ultimately show ?thesis using qs unfolding lists_restart_pages_def restart_pages_next [OF assms(1)]
    by (intro exI [of _ "qs @ [(pos, r)]"]) (auto simp: sorted_wrt_append)
qed

lemma lists_search_ends:
  assumes "searched page_size page_map alloc pos" "search_ends page_size page_map alloc pos" "pos < fsize"
    and "lists_restart_pages page_size page_map alloc (if pos = 0 then 512 else 2 * pos) found"
  shows "lists_restart_pages page_size page_map alloc fsize found"
proof -
  have pos: "scan_pos pos" "0 \<le> pos" using assms(1) scan_pos_facts(1) by (auto simp: searched_def)
  have "q \<le> pos" if "searched page_size page_map alloc q" for q
    using that assms(2) pos(1) by (auto simp: searched_def not_less [symmetric])
  then have "q < fsize \<longleftrightarrow> q < (if pos = 0 then 512 else 2 * pos)" if "searched page_size page_map alloc q" for q
    using that assms(3) pos(2) by (smt (verit))
  then have "restart_pages_before page_size page_map alloc fsize =
      restart_pages_before page_size page_map alloc (if pos = 0 then 512 else 2 * pos)"
    unfolding restart_pages_before_def by blast
  then show ?thesis using assms(4) by (simp only: lists_restart_pages_def)
qed

lemma lists_file_ends:
  assumes "searched page_size page_map alloc pos" "0 < fsize" "fsize \<le> pos"
    and "lists_restart_pages page_size page_map alloc pos found"
  shows "lists_restart_pages page_size page_map alloc fsize found"
proof -
  have "q \<le> 0" if "q < pos" "searched page_size page_map alloc q" "restart_at page_size page_map alloc q r" for q r
  proof -
    have "\<not> search_ends page_size page_map alloc q" using that(1,2) assms(1) by (simp add: searched_def)
    then show ?thesis using that(3) unfolding search_ends_def by (meson not_less)
  qed
  then have "restart_pages_before page_size page_map alloc fsize = restart_pages_before page_size page_map alloc pos"
    using assms(2,3) unfolding restart_pages_before_def by fastforce
  then show ?thesis using assms(4) by (simp only: lists_restart_pages_def)
qed

lemma searched_next:
  assumes "searched page_size page_map alloc pos" "\<not> search_ends page_size page_map alloc pos"
  shows "searched page_size page_map alloc (if pos = 0 then 512 else 2 * pos)"
proof -
  have pos: "scan_pos pos" using assms(1) by (simp add: searched_def)
  have "\<not> search_ends page_size page_map alloc p"
    if "scan_pos p" "p < (if pos = 0 then 512 else 2 * pos)" for p
    using scan_pos_less_next [OF pos that] assms that(1) by (cases "p = pos") (auto simp: searched_def)
  then show ?thesis using scan_pos_next [OF pos] unfolding searched_def by blast
qed

text \<open>The loop finds the restart pages of the journal that it has to find, in order.\<close>

definition scan_inv ::
  "nat \<Rightarrow> (int \<Rightarrow> errno + u8 list) \<Rightarrow> (int \<Rightarrow> bool) \<Rightarrow> int \<Rightarrow> (int \<times> u8 list) option \<Rightarrow> bool \<Rightarrow> restart_pages \<Rightarrow> bool" where
  "scan_inv page_size page_map alloc pos upl e found \<longleftrightarrow>
     upl_ok page_size page_map pos upl \<and> searched page_size page_map alloc pos \<and>
     e = (\<forall>p < pos. scan_pos p \<longrightarrow> journal_magic page_size page_map p = Some magic_empty) \<and>
     lists_restart_pages page_size page_map alloc pos found"

lemma scan_inv_next:
  assumes "scan_inv page_size page_map alloc pos upl e found" "\<not> search_ends page_size page_map alloc pos"
    and "upl_ok page_size page_map (if pos = 0 then 512 else 2 * pos) upl'"
    and "lists_restart_pages page_size page_map alloc (if pos = 0 then 512 else 2 * pos) found'"
    and "e' \<longleftrightarrow> e \<and> journal_magic page_size page_map pos = Some magic_empty"
  shows "scan_inv page_size page_map alloc (if pos = 0 then 512 else 2 * pos) upl' e' found'"
proof -
  have pos: "scan_pos pos" "0 \<le> pos" using assms(1) scan_pos_facts(1) by (auto simp: scan_inv_def searched_def)
  have "p < (if pos = 0 then 512 else 2 * pos) \<longleftrightarrow> p < pos \<or> p = pos" if "scan_pos p" for p
    using scan_pos_less_next [OF pos(1) that] pos(2) by auto
  then have "e' = (\<forall>p < (if pos = 0 then 512 else 2 * pos). scan_pos p \<longrightarrow>
      journal_magic page_size page_map p = Some magic_empty)"
    using assms(1,5) pos(1) unfolding scan_inv_def by blast
  then show ?thesis using assms(1,3,4) searched_next assms(2) by (simp add: scan_inv_def)
qed

lemmas magics = magic_empty_def magic_RCRD_def magic_RSTR_def magic_CHKD_def

lemma scan_step:
  assumes ps: "page_size = 512 * 2 ^ k" and "pos < fsize"
    and run0: "scan_restart_pages page_size page_map alloc fsize pos upl e found = Some (Inr (e', found'))"
    and scan_inv: "scan_inv page_size page_map alloc pos upl e found"
  defines "nx \<equiv> (if pos = 0 then 512 else 2 * pos)"
  obtains (stop) "search_ends page_size page_map alloc pos" "lists_restart_pages page_size page_map alloc nx found'"
  | (continue) u b fs where "scan_restart_pages page_size page_map alloc fsize nx u b fs = Some (Inr (e', found'))"
      "scan_inv page_size page_map alloc nx u b fs"
proof -
  have inv: "upl_ok page_size page_map pos upl" "searched page_size page_map alloc pos"
    "lists_restart_pages page_size page_map alloc pos found"
    "e = (\<forall>p < pos. scan_pos p \<longrightarrow> journal_magic page_size page_map p = Some magic_empty)"
    using scan_inv by (simp_all add: scan_inv_def)
  have pos: "scan_pos pos" "\<not> (pos < 0 \<or> fsize \<le> pos)"
    using inv(2) scan_pos_facts(1) assms(2) by (force simp: searched_def)+
  note run = run0 [unfolded scan_restart_pages.simps [of _ _ _ _ pos] Let_def]
  from run pos(2) obtain ppos paddr magic where m:
    "map_scan_page page_size page_map pos upl = Inr (ppos, paddr)"
    "rd32 (drop (nat (pos mod int page_size)) paddr) 0 = Some magic"
    by (auto split: sum.splits bind_splits)
  note run = run [unfolded m if_not_P [OF pos(2)] sum.case prod.case bind.bind_lunit, folded nx_def]
  note rec = map_scan_page_ok [OF ps pos(1) inv(1) m(1), folded nx_def]
  have magic: "journal_magic page_size page_map pos = Some magic" by (simp add: journal_magic_def rec(1) m(2))
  note next_inv = scan_inv_next [OF scan_inv, folded nx_def, OF _ rec(2)]
  note skip = lists_skip [OF inv(2,3), folded nx_def] and add = lists_add [OF inv(2,3), folded nx_def]
  let ?load = "ntfs_restart_page_load page_size page_map (alloc pos) (drop (nat (pos mod int page_size)) paddr) pos"
  have at: "restart_at page_size page_map alloc pos r \<longleftrightarrow> (magic = magic_RSTR \<or> magic = magic_CHKD) \<and> ?load = Some (Inr r)"
    for r by (auto simp: restart_at_def magic rec(1))
  consider (restart) r where "restart_at page_size page_map alloc pos r"
    | (none) "\<And>r. \<not> restart_at page_size page_map alloc pos r" by blast
  then show ?thesis
  proof cases
    case restart
    then have r: "magic = magic_RSTR \<or> magic = magic_CHKD" "magic \<noteq> magic_empty" "magic \<noteq> magic_RCRD" "?load = Some (Inr r)"
      by (auto simp: at magics)
    show ?thesis
    proof (cases "pos = 0")
      case True
      then have "\<not> search_ends page_size page_map alloc pos" using r magic by (simp add: search_ends_def)
      from next_inv [OF this add [OF restart]] show ?thesis using run r True magic by (auto intro: continue)
    next
      case False
      then have "0 < pos" using pos(2) by simp
      then have "search_ends page_size page_map alloc pos" using restart unfolding search_ends_def by blast
      then show ?thesis using run r False add [OF restart] by (auto intro: stop)
    qed
  next
    case none
    note skip = skip [OF none]
    show ?thesis
    proof (cases "search_ends page_size page_map alloc pos")
      case True
      then have "magic = magic_RCRD \<or> magic = magic_empty \<and> \<not> e"
        using none inv(4) magic unfolding search_ends_def by auto
      then show ?thesis using run True skip by (auto intro: stop simp: magics)
    next
      case False
      have "magic \<noteq> magic_RCRD" "magic = magic_empty \<Longrightarrow> e" "magic \<noteq> magic_RSTR \<and> magic \<noteq> magic_CHKD \<or> (\<forall>r. ?load \<noteq> Some (Inr r))"
        using False inv(4) none magic by (auto simp: search_ends_def at)
      then show ?thesis using run next_inv [OF False skip] magic
        by (auto intro: continue simp: magics split: if_splits bind_splits sum.splits)
    qed
  qed
qed

lemma scan_restart_pages_correct:
  assumes ps: "page_size = 512 * 2 ^ k" and "0 < fsize"
    and "scan_restart_pages page_size page_map alloc fsize pos upl e found = Some (Inr (e', found'))"
    and "scan_inv page_size page_map alloc pos upl e found"
  shows "lists_restart_pages page_size page_map alloc fsize found'"
  using assms(3,4)
proof (induction "nat (fsize - pos)" arbitrary: pos upl e found rule: less_induct)
  case less
  have inv: "searched page_size page_map alloc pos" "lists_restart_pages page_size page_map alloc pos found" "0 \<le> pos"
    using less.prems(2) scan_pos_facts(1) by (auto simp: scan_inv_def searched_def)
  show ?case
  proof (cases "fsize \<le> pos")
    case True
    then show ?thesis using less.prems(1) lists_file_ends [OF inv(1) assms(2) True inv(2)]
      by (subst (asm) scan_restart_pages.simps) simp
  next
    case False
    then have "pos < fsize" by simp
    from ps this less.prems show ?thesis
    proof (cases rule: scan_step)
      case stop
      then show ?thesis using lists_search_ends [OF inv(1)] \<open>pos < fsize\<close> by blast
    next
      case (continue u b fs)
      show ?thesis by (rule less.hyps [OF _ continue]) (use \<open>pos < fsize\<close> inv(3) in auto)
    qed
  qed
qed

lemma pick_restart_page_current:
  fixes qs :: "(int \<times> u8 list \<times> int) list"
  assumes "pick_restart_page (map snd qs) = Some page" "sorted_wrt (\<lambda>x y. fst x < fst y) qs" "length qs \<le> 2"
  shows "\<exists>pos lsn. (pos, page, lsn) \<in> set qs \<and>
    (\<forall>(pos', page', lsn') \<in> set qs. lsn' < lsn \<or> lsn' = lsn \<and> pos \<le> pos')"
proof -
  from assms(3) consider "qs = []" | x where "qs = [x]" | x y where "qs = [x, y]"
    by (cases qs; cases "tl qs"; cases "tl (tl qs)") auto
  then show ?thesis
  proof cases
    case (3 x y)
    obtain p1 g1 l1 p2 g2 l2 where "x = (p1, g1, l1)" "y = (p2, g2, l2)" by (cases x, cases y) auto
    then show ?thesis using 3 assms(1,2) 
      by (intro exI [of _ "if l1 < l2 then p2 else p1"] exI [of _ "max l1 l2"]) (auto simp: pick_restart_page_def max_def)
  qed (use assms(1) in \<open>auto simp: pick_restart_page_def split: prod.splits\<close>)
qed

text \<open>A search finds two restart pages at most: the one at position 0 and the one that ends it.\<close>

lemma restart_pages_two:
  assumes "sorted_wrt (\<lambda>x y. fst x < fst y) qs" "set qs = restart_pages_before page_size page_map alloc fsize"
  shows "length qs \<le> 2"
proof (rule ccontr)
  assume "\<not> length qs \<le> 2"
  then obtain x y z zs where qs: "qs = x # y # z # zs"
    by (cases qs; cases "tl qs"; cases "tl (tl qs)") auto
  obtain p1 r1 p2 r2 p3 r3 where xyz: "x = (p1, r1)" "y = (p2, r2)" "z = (p3, r3)" by (cases x, cases y, cases z)
  have in_set: "x \<in> set qs" "y \<in> set qs" "z \<in> set qs" by (simp_all add: qs)
  then have s: "searched page_size page_map alloc p1" "restart_at page_size page_map alloc p2 r2"
      "searched page_size page_map alloc p2" "searched page_size page_map alloc p3"
    unfolding assms(2) xyz restart_pages_before_def by auto
  have less: "p1 < p2" "p2 < p3" using assms(1) by (simp_all add: qs xyz)
  then have "0 < p2" "scan_pos p2" using s(1,3) scan_pos_facts(1) [of p1] by (auto simp: searched_def)
  then have "search_ends page_size page_map alloc p2" using s(2) unfolding search_ends_def by blast
  then show False using s(4) less(2) \<open>scan_pos p2\<close> by (auto simp: searched_def)
qed

text \<open>
  C25. The restart page \<open>ntfs_logfile_check\<close> returns is the current one of the journal. It is
  the page that is loaded from the record of the journal at a position the search has to
  look at, its header and its restart area have passed their checks there, and of all the restart pages that
  can be loaded from such positions it has the highest log sequence number, and the lowest
  position among those with that number. The positions are 0, 512, 1024 and so on up to the
  usable size of the journal; the search ends at a log record page, at an empty record behind a
  non-empty one, and at a restart page behind position 0.
\<close>

theorem logfile_check_returns_current:
  assumes "page_size = 512 * 2 ^ k"
    and "ntfs_logfile_check page_size page_map alloc False EOK data_size = Some (EOK, e, Some page)"
  shows "\<exists>pos lsn rp.
    pos < usable_log_size page_size data_size \<and> searched page_size page_map alloc pos \<and>
    restart_at page_size page_map alloc pos (page, lsn) \<and> journal_record page_size page_map pos = Some rp \<and>
    ntfs_restart_page_header_is_valid rp pos = Some True \<and> ntfs_restart_area_is_valid rp = Some True \<and>
    (\<forall>pos' page' lsn'. pos' < usable_log_size page_size data_size \<longrightarrow> searched page_size page_map alloc pos' \<longrightarrow>
      restart_at page_size page_map alloc pos' (page', lsn') \<longrightarrow> lsn' < lsn \<or> lsn' = lsn \<and> pos \<le> pos')"
proof -
  let ?fsize = "usable_log_size page_size data_size"
  have lps: "0 < log_page_size page_size" by (simp add: log_page_size_def assms(1))
  from assms(2) obtain found where scan:
    "scan_restart_pages page_size page_map alloc ?fsize 0 None True [] = Some (Inr (False, found))"
    and pick: "pick_restart_page found = Some page" and size: "log_page_size page_size * 2 \<le> ?fsize"
    by (auto simp: ntfs_logfile_check_def Let_def split: if_splits bind_splits sum.splits prod.splits option.splits)
  have "searched page_size page_map alloc 0" by (auto simp: searched_def scan_pos_def dest: scan_pos_facts(1))
  moreover have "restart_pages_before page_size page_map alloc 0 = {}"
    by (auto simp: restart_pages_before_def searched_def dest: scan_pos_facts(1))
  ultimately have "scan_inv page_size page_map alloc 0 None True []"
    by (auto simp: scan_inv_def upl_ok_def lists_restart_pages_def dest: scan_pos_facts(1))
  from scan_restart_pages_correct [OF assms(1) _ scan this] size lps
  have "lists_restart_pages page_size page_map alloc ?fsize found" by linarith
  then obtain qs where qs: "found = map snd qs" "sorted_wrt (\<lambda>x y. fst x < fst y) qs"
    "set qs = restart_pages_before page_size page_map alloc ?fsize" by (auto simp: lists_restart_pages_def)
  obtain pos lsn where pl: "(pos, page, lsn) \<in> set qs"
    "\<forall>(pos', page', lsn') \<in> set qs. lsn' < lsn \<or> lsn' = lsn \<and> pos \<le> pos'"
    using pick_restart_page_current [OF pick [unfolded qs(1)] qs(2) restart_pages_two [OF qs(2,3)]] by blast
  then have at: "pos < ?fsize" "searched page_size page_map alloc pos" "restart_at page_size page_map alloc pos (page, lsn)"
    unfolding qs(3) by (auto simp: restart_pages_before_def)
  then obtain rp where "journal_record page_size page_map pos = Some rp"
    "ntfs_restart_page_load page_size page_map (alloc pos) rp pos = Some (Inr (page, lsn))" by (auto simp: restart_at_def)
  moreover have "\<forall>pos' page' lsn'. pos' < ?fsize \<longrightarrow> searched page_size page_map alloc pos' \<longrightarrow>
      restart_at page_size page_map alloc pos' (page', lsn') \<longrightarrow> lsn' < lsn \<or> lsn' = lsn \<and> pos \<le> pos'"
    using pl(2) unfolding qs(3) by (auto simp: restart_pages_before_def)
  ultimately show ?thesis using at load_valid by blast
qed

text \<open>A journal with one restart page, modified by chkdsk, and nothing behind it.\<close>

definition sample_chkd_page :: "u8 list" where
  "sample_chkd_page = [0x43, 0x48, 0x4b, 0x44, 30, 0, 0, 0] @ drop 8 (sample_restart_page 1 0)"

definition sample_journal :: "int \<Rightarrow> errno + u8 list" where
  "sample_journal pos = Inr (if pos = 0 then sample_chkd_page else replicate 4096 0xff)"

lemma sample_chkd_load:
  "ntfs_restart_page_load 4096 sample_journal True sample_chkd_page 0 = Some (Inr (sample_chkd_page, 0))"
proof -
  let ?rp = sample_chkd_page
  have len: "length ?rp = 4096" by (simp add: sample_chkd_page_def sample_restart_page_def)
  have rd: "rd16 ?rp 24 = Some 48" "rd32 ?rp 16 = Some 4096" "rd32 ?rp 0 = Some magic_CHKD" "rd16 ?rp 6 = Some 0"
    "rd16 ?rp 60 = Some 0" "rd64 ?rp 8 = Some 0"
    by (simp_all add: sample_chkd_page_def sample_restart_page_def rd64_def rd32_def rd16_def rd_def nth_append magic_CHKD_def s64_id)
  have "ntfs_restart_page_header_is_valid ?rp 0 = Some True" "ntfs_restart_area_is_valid ?rp = Some True"
    by (simp_all add: ntfs_restart_page_header_is_valid_def restart_usa_check_def ntfs_restart_area_is_valid_def
        sample_chkd_page_def sample_restart_page_def rd16_def rd32_def rd64_def rd_def nth_append Let_def fs_bits_4M
        LOGFILE_NO_CLIENT_def magic_CHKD_def)
  moreover have "copy_els (replicate 4096 0) 0 ?rp 0 4096 = Some ?rp" by (simp add: copy_els_def len)
  ultimately show ?thesis using rd
    by (simp add: ntfs_restart_page_load_def restart_deprotect_def Let_def magic_CHKD_def magic_RSTR_def)
qed

lemma sample_journal_scan:
  "scan_restart_pages 4096 sample_journal (\<lambda>_. True) 0x400000 0 None True [] = Some (Inr (False, [(sample_chkd_page, 0)]))"
proof -
  have magic: "rd32 (drop 0 sample_chkd_page) 0 = Some magic_CHKD" "rd32 (drop 512 sample_chkd_page) 0 = Some 0"
    "rd32 (drop 1024 sample_chkd_page) 0 = Some 0" "rd32 (drop 2048 sample_chkd_page) 0 = Some 0"
    "rd32 (replicate 4096 0xff) 0 = Some magic_empty"
    by (simp_all add: sample_chkd_page_def sample_restart_page_def rd32_def rd16_def rd_def nth_append
        magic_CHKD_def magic_empty_def)
  have zero: "(0 :: nat) \<noteq> magic_empty" "(0 :: nat) \<noteq> magic_RCRD" "(0 :: nat) \<noteq> magic_RSTR" "(0 :: nat) \<noteq> magic_CHKD"
    "magic_CHKD \<noteq> magic_empty" "magic_CHKD \<noteq> magic_RCRD"
    by (simp_all add: magic_empty_def magic_RCRD_def magic_RSTR_def magic_CHKD_def)
  let ?scan = "\<lambda>pos. scan_restart_pages 4096 sample_journal (\<lambda>_. True) 0x400000 pos (Some (0, sample_chkd_page)) False
      [(sample_chkd_page, 0)]"
  have "?scan 4096 = Some (Inr (False, [(sample_chkd_page, 0)]))"
    using magic(5) by (subst scan_restart_pages.simps) (simp add: map_scan_page_def sample_journal_def)
  then have "?scan 2048 = Some (Inr (False, [(sample_chkd_page, 0)]))"
    using magic(4) zero by (subst scan_restart_pages.simps) (simp add: map_scan_page_def)
  then have "?scan 1024 = Some (Inr (False, [(sample_chkd_page, 0)]))"
    using magic(3) zero by (subst scan_restart_pages.simps) (simp add: map_scan_page_def)
  then have "?scan 512 = Some (Inr (False, [(sample_chkd_page, 0)]))"
    using magic(2) zero by (subst scan_restart_pages.simps) (simp add: map_scan_page_def)
  then show ?thesis using magic(1) zero sample_chkd_load
    by (subst scan_restart_pages.simps) (simp add: map_scan_page_def sample_journal_def [of 0])
qed

theorem logfile_check_returns_current_witness:
  "ntfs_logfile_check 4096 sample_journal (\<lambda>_. True) False EOK 0x400000 = Some (EOK, False, Some sample_chkd_page) \<and>
   (\<exists>pos lsn. pos < 0x400000 \<and> searched 4096 sample_journal (\<lambda>_. True) pos \<and>
     restart_at 4096 sample_journal (\<lambda>_. True) pos (sample_chkd_page, lsn))"
proof -
  have run: "ntfs_logfile_check 4096 sample_journal (\<lambda>_. True) False EOK 0x400000 = Some (EOK, False, Some sample_chkd_page)"
    using sample_journal_scan by (simp add: ntfs_logfile_check_def log_page_size_def usable_log_size_def pick_restart_page_def)
  moreover have "usable_log_size 4096 0x400000 = 0x400000" by (simp add: usable_log_size_def log_page_size_def)
  ultimately show ?thesis using logfile_check_returns_current [where k = 3, OF _ run] by auto
qed

end
