(* ===== verification/NTFS_Bitmap.thy ===== *)
theory NTFS_Bitmap
  imports NTFS_Prelude
begin

unbundle bit_operations_syntax

text \<open>
  Setting and clearing runs of bits in a bitmap, \<open>__ntfs_bitmap_set_bits_in_run\<close> of
  \<open>kext/ntfs_bitmap.c\<close>, the operation on the cluster and mft bitmaps below the allocators.

  The contents of the bitmap attribute is a function from the offset of a page to its bytes,
  changed in place. Mapping a page is a parameter: the error it returns, which may differ
  between the first call and the nested call that undoes it. The page size is a power of two.
\<close>

section \<open>The code\<close>

definition put_bit :: "bool \<Rightarrow> nat \<Rightarrow> u8 \<Rightarrow> u8" where
  "put_bit value k b = (if value then b OR push_bit k 1 else b AND NOT (push_bit k 1))"

text \<open>The bits of a partial first byte: the byte and the number of bits left to do.\<close>

fun first_byte :: "bool \<Rightarrow> u8 \<Rightarrow> nat \<Rightarrow> nat \<Rightarrow> u8 \<times> nat" where
  "first_byte value b k 0 = (b, 0)"
| "first_byte value b k (Suc cnt) =
     (if k mod 8 = 0 then (b, Suc cnt) else first_byte value (put_bit value k b) (k + 1) cnt)"

text \<open>The bits of a partial last byte, from the highest down.\<close>

fun last_byte :: "bool \<Rightarrow> u8 \<Rightarrow> nat \<Rightarrow> u8" where
  "last_byte value b 0 = b"
| "last_byte value b (Suc k) = last_byte value (put_bit value k b) k"

type_synonym bitmap = "nat \<Rightarrow> u8 list"

definition memset_page :: "bool \<Rightarrow> bitmap \<Rightarrow> nat \<Rightarrow> nat \<Rightarrow> nat \<Rightarrow> bitmap option" where
  "memset_page value bm ofs pos len = do {
     p \<leftarrow> copy_els (bm ofs) pos (replicate len (if value then 0xff else 0)) 0 len;
     Some (bm(ofs := p)) }"

text \<open>
  The loop over the subsequent pages. The result is the error with the number of bits not
  done, or the offset of the last page and the two counters.
\<close>

function bm_pages ::
  "nat \<Rightarrow> (nat \<Rightarrow> errno) \<Rightarrow> bool \<Rightarrow> nat \<Rightarrow> bitmap \<Rightarrow> nat \<Rightarrow> nat \<Rightarrow> nat \<Rightarrow>
   ((errno \<times> bitmap \<times> nat) + bitmap \<times> nat \<times> nat \<times> nat) option" where
  "bm_pages page_size map_err value end_ofs bm ofs cnt len =
     (if end_ofs \<le> ofs \<or> page_size = 0 then Some (Inr (bm, ofs, cnt, len))
      else if cnt = 0 then None
      else let ofs = ofs + page_size in
      if map_err ofs \<noteq> EOK then Some (Inl (map_err ofs, bm, cnt))
      else let len = min page_size (cnt div 8) in do {
        bm \<leftarrow> memset_page value bm ofs 0 len;
        bm_pages page_size map_err value end_ofs bm ofs (cnt - len * 8) len })"
  by pat_completeness auto
termination
  by (relation "measure (\<lambda>(ps, me, v, end_ofs, bm, ofs, cnt, len). end_ofs - ofs)") auto

declare bm_pages.simps [simp del]

text \<open>
  From the first whole byte on: \<open>pos\<close> is its position in the first page and \<open>cnt\<close> the number of
  bits left. The result has the error, the bitmap and, when a later page cannot be mapped,
  the number of bits that are not done.
\<close>

definition bm_rest ::
  "nat \<Rightarrow> (nat \<Rightarrow> errno) \<Rightarrow> bool \<Rightarrow> nat \<Rightarrow> bitmap \<Rightarrow> nat \<Rightarrow> nat \<Rightarrow> nat \<Rightarrow> (errno \<times> bitmap \<times> nat) option" where
  "bm_rest page_size map_err value end_ofs bm ofs cnt pos = do {
     let len = min (page_size - pos) (cnt div 8);
     bm \<leftarrow> memset_page value bm ofs pos len;
     let cnt = cnt - len * 8;
     let len = (if cnt < 8 then len + pos else len);
     r \<leftarrow> bm_pages page_size map_err value end_ofs bm ofs cnt len;
     case r of
       Inl (err, bm, cnt) \<Rightarrow> Some (err, bm, cnt)
     | Inr (bm, ofs, cnt, len) \<Rightarrow>
         if cnt = 0 then Some (EOK, bm, 0)
         else if 7 < cnt then None
         else do {
           b \<leftarrow> rd (bm ofs) len;
           p \<leftarrow> wr (bm ofs) len (last_byte value b cnt);
           Some (EOK, bm(ofs := p), 0) } }"

text \<open>
  The call without the rollback. \<open>end_ofs\<close> is unsigned, so that with no bits at bit 0 it is the
  last page of the address space.
\<close>

definition bm_set_run ::
  "nat \<Rightarrow> (nat \<Rightarrow> errno) \<Rightarrow> bitmap \<Rightarrow> int \<Rightarrow> int \<Rightarrow> bool \<Rightarrow> (errno \<times> bitmap \<times> nat) option" where
  "bm_set_run page_size map_err bm start_bit count value =
     (if start_bit < 0 \<or> count < 0 then None
      else let
        start = nat start_bit; cnt = nat count;
        ofs = start div 8 div page_size * page_size;
        end_ofs = nat ((s64 (start_bit + count - 1) div 8 div int page_size * int page_size) mod 2 ^ 64);
        pos = start div 8 mod page_size;
        k = start mod 8 in
      if map_err ofs \<noteq> EOK then Some (map_err ofs, bm, cnt)
      else if k = 0 then bm_rest page_size map_err value end_ofs bm ofs cnt pos
      else do {
        b \<leftarrow> rd (bm ofs) pos;
        let (b, cnt) = first_byte value b k cnt;
        p \<leftarrow> wr (bm ofs) pos b;
        if cnt = 0 then Some (EOK, bm(ofs := p), 0)
        else bm_rest page_size map_err value end_ofs (bm(ofs := p)) ofs cnt (pos + 1) })"

text \<open>
  With the rollback: when a later page cannot be mapped the bits done so far are set to the
  inverse value by a nested call. Its own error does not change the result but marks the volume
  as having errors, the last component.
\<close>

definition ntfs_bitmap_set_bits_in_run ::
  "nat \<Rightarrow> (bool \<Rightarrow> nat \<Rightarrow> errno) \<Rightarrow> bitmap \<Rightarrow> int \<Rightarrow> int \<Rightarrow> bool \<Rightarrow> (errno \<times> bitmap \<times> bool) option" where
  "ntfs_bitmap_set_bits_in_run page_size map_err bm start_bit count value = do {
     (err, bm, cnt) \<leftarrow> bm_set_run page_size (map_err False) bm start_bit count value;
     if err = EOK \<or> int cnt = count then Some (err, bm, False)
     else do {
       (err2, bm, cnt2) \<leftarrow> bm_set_run page_size (map_err True) bm start_bit (count - int cnt) (\<not> value);
       Some (err, bm, err2 \<noteq> EOK) } }"

definition ntfs_bitmap_set_run where
  "ntfs_bitmap_set_run page_size map_err bm start_bit count = ntfs_bitmap_set_bits_in_run page_size map_err bm start_bit count True"

definition ntfs_bitmap_clear_run where
  "ntfs_bitmap_clear_run page_size map_err bm start_bit count = ntfs_bitmap_set_bits_in_run page_size map_err bm start_bit count False"

definition ntfs_bitmap_set_bit where
  "ntfs_bitmap_set_bit page_size map_err bm b = ntfs_bitmap_set_run page_size map_err bm b 1"

definition ntfs_bitmap_clear_bit where
  "ntfs_bitmap_clear_bit page_size map_err bm b = ntfs_bitmap_clear_run page_size map_err bm b 1"

section \<open>Bits and bytes of a bitmap\<close>

definition bm_byte :: "nat \<Rightarrow> bitmap \<Rightarrow> nat \<Rightarrow> u8" where
  "bm_byte page_size bm j = bm (j div page_size * page_size) ! (j mod page_size)"

definition bm_bit :: "nat \<Rightarrow> bitmap \<Rightarrow> nat \<Rightarrow> bool" where
  "bm_bit page_size bm i = bit (bm_byte page_size bm (i div 8)) (i mod 8)"

definition full_pages :: "nat \<Rightarrow> bitmap \<Rightarrow> bool" where
  "full_pages page_size bm \<longleftrightarrow> 0 < page_size \<and> (\<forall>q. length (bm (q * page_size)) = page_size)"

text \<open>\<open>bm'\<close> is \<open>bm\<close> with the bits from \<open>a\<close> up to \<open>b\<close> set to the value.\<close>

definition range_set :: "nat \<Rightarrow> bitmap \<Rightarrow> bitmap \<Rightarrow> nat \<Rightarrow> nat \<Rightarrow> bool \<Rightarrow> bool" where
  "range_set page_size bm bm' a b value \<longleftrightarrow> full_pages page_size bm' \<and>
     (\<forall>i. bm_bit page_size bm' i = (if a \<le> i \<and> i < b then value else bm_bit page_size bm i))"

lemma range_set_refl: "full_pages ps bm \<Longrightarrow> range_set ps bm bm a a v"
  by (auto simp: range_set_def)

lemma range_set_trans:
  "range_set ps bm bm' a b v \<Longrightarrow> range_set ps bm' bm'' b c v \<Longrightarrow> a \<le> b \<Longrightarrow> b \<le> c \<Longrightarrow> range_set ps bm bm'' a c v"
  unfolding range_set_def by auto

lemma range_set_full: "range_set ps bm bm' a b v \<Longrightarrow> full_pages ps bm'"
  by (simp add: range_set_def)

lemma bm_byte_upd:
  assumes "0 < ps"
  shows "bm_byte ps (bm(q * ps := p)) j = (if j div ps = q then p ! (j mod ps) else bm_byte ps bm j)"
  using assms by (auto simp: bm_byte_def)

lemma full_pages_upd: "full_pages ps bm \<Longrightarrow> length p = ps \<Longrightarrow> full_pages ps (bm(q * ps := p))"
  by (auto simp: full_pages_def)

lemma put_bit_bit: "k < 8 \<Longrightarrow> m < 8 \<Longrightarrow> bit (put_bit v k b) m = (if m = k then v else bit b m)"
  by (auto simp: put_bit_def bit_simps)

lemma first_byte_spec:
  assumes "k \<le> 8" "0 < k"
  shows "\<exists>b'. first_byte v b k cnt = (b', cnt - min cnt (8 - k)) \<and>
    (\<forall>m < 8. bit b' m = (if k \<le> m \<and> m < k + min cnt (8 - k) then v else bit b m))"
  using assms
proof (induction cnt arbitrary: b k)
  case (Suc cnt)
  show ?case
  proof (cases "k = 8")
    case False
    then have k: "k < 8" "k mod 8 \<noteq> 0" using Suc.prems by auto
    obtain b' where b': "first_byte v (put_bit v k b) (k + 1) cnt = (b', cnt - min cnt (8 - (k + 1)))"
      "\<forall>m < 8. bit b' m = (if k + 1 \<le> m \<and> m < k + 1 + min cnt (8 - (k + 1)) then v else bit (put_bit v k b) m)"
      using Suc.IH [of "k + 1" "put_bit v k b"] k by auto
    have "bit b' m = (if k \<le> m \<and> m < k + min (Suc cnt) (8 - k) then v else bit b m)" if "m < 8" for m
      using b'(2) that k put_bit_bit [OF k(1) that, of v b] by (auto simp: min_def)
    then show ?thesis using b'(1) k by (intro exI [of _ b']) (auto simp: min_def)
  qed auto
qed auto

lemma last_byte_bit:
  "cnt \<le> 8 \<Longrightarrow> m < 8 \<Longrightarrow> bit (last_byte v b cnt) m = (if m < cnt then v else bit b m)"
  by (induction cnt arbitrary: b) (auto simp: put_bit_bit)

lemma set_byte_bits:
  assumes "full_pages ps bm" "pos < ps" "lo \<le> hi" "hi \<le> 8"
    "\<And>m. m < 8 \<Longrightarrow> bit b m = (if lo \<le> m \<and> m < hi then v else bit (bm (q * ps) ! pos) m)"
  shows "range_set ps bm (bm(q * ps := (bm (q * ps))[pos := b])) (8 * (q * ps + pos) + lo) (8 * (q * ps + pos) + hi) v"
proof -
  let ?bm = "bm(q * ps := (bm (q * ps))[pos := b])"
  have ps: "0 < ps" and len: "length (bm (q * ps)) = ps" using assms(1) by (auto simp: full_pages_def)
  have byte: "bm_byte ps ?bm j = (if j = q * ps + pos then b else bm_byte ps bm j)" for j
  proof -
    have "j = q * ps + pos \<longleftrightarrow> j div ps = q \<and> j mod ps = pos" using assms(2) by auto
    then show ?thesis using len assms(2) unfolding bm_byte_upd [OF ps] by (auto simp: bm_byte_def)
  qed
  have old: "bm_byte ps bm (q * ps + pos) = bm (q * ps) ! pos" using assms(2) by (simp add: bm_byte_def)
  have "bm_bit ps ?bm i = (if 8 * (q * ps + pos) + lo \<le> i \<and> i < 8 * (q * ps + pos) + hi then v else bm_bit ps bm i)" for i
  proof (cases "i div 8 = q * ps + pos")
    case True
    then have i: "i = 8 * (q * ps + pos) + i mod 8" by (metis mult_div_mod_eq)
    have "i mod 8 < 8" by simp
    moreover have "8 * (q * ps + pos) + lo \<le> i \<and> i < 8 * (q * ps + pos) + hi \<longleftrightarrow> lo \<le> i mod 8 \<and> i mod 8 < hi"
      using i by linarith
    ultimately show ?thesis using True old assms(5) [of "i mod 8"] by (simp add: bm_bit_def byte)
  next
    case False
    then have "\<not> (8 * (q * ps + pos) \<le> i \<and> i < 8 * (q * ps + pos) + 8)" by auto
    then have "\<not> (8 * (q * ps + pos) + lo \<le> i \<and> i < 8 * (q * ps + pos) + hi)" using assms(3,4) by linarith
    then show ?thesis using False by (auto simp: bm_bit_def byte)
  qed
  then show ?thesis using full_pages_upd [OF assms(1)] len by (simp add: range_set_def)
qed

lemma memset_page_bits:
  assumes "full_pages ps bm" "pos + n \<le> ps"
  shows "\<exists>bm'. memset_page v bm (q * ps) pos n = Some bm' \<and>
    range_set ps bm bm' (8 * (q * ps + pos)) (8 * (q * ps + pos + n)) v"
proof (cases "n = 0")
  case True
  then show ?thesis using assms(1) by (auto simp: memset_page_def copy_els_def range_set_refl)
next
  case False
  let ?p = "take pos (bm (q * ps)) @ replicate n (if v then 0xff else 0) @ drop (pos + n) (bm (q * ps))"
  have ps: "0 < ps" and len: "length (bm (q * ps)) = ps" using assms(1) by (auto simp: full_pages_def)
  have nth: "?p ! j = (if pos \<le> j \<and> j < pos + n then if v then 0xff else 0 else bm (q * ps) ! j)" if "j < ps" for j
    using that assms(2) len by (auto simp: nth_append min_def)
  have byte: "bm_byte ps (bm(q * ps := ?p)) j =
      (if q * ps + pos \<le> j \<and> j < q * ps + pos + n then if v then 0xff else 0 else bm_byte ps bm j)" for j
  proof (cases "j div ps = q")
    case True
    then have j: "j = q * ps + j mod ps" by (metis div_mult_mod_eq)
    then have "q * ps + pos \<le> j \<and> j < q * ps + pos + n \<longleftrightarrow> pos \<le> j mod ps \<and> j mod ps < pos + n" by linarith
    then show ?thesis using True ps nth [of "j mod ps"] unfolding bm_byte_upd [OF ps] by (simp add: bm_byte_def)
  next
    case False
    have "\<not> (q * ps + pos \<le> j \<and> j < q * ps + pos + n)"
    proof
      assume "q * ps + pos \<le> j \<and> j < q * ps + pos + n"
      then have "q * ps \<le> j" "j < q * ps + ps" using assms(2) by auto
      then have "j div ps = q" using ps by (intro div_nat_eqI) (auto simp: mult.commute)
      then show False using False by simp
    qed
    then show ?thesis using False unfolding bm_byte_upd [OF ps] by auto
  qed
  have fill: "bit (if v then 0xff else 0 :: u8) m = v" if "m < 8" for m
  proof -
    have "(0xff :: u8) = mask 8" by (simp add: mask_eq_exp_minus_1)
    then show ?thesis using that by (cases v) (simp_all only: if_True if_False bit_mask_iff, simp_all)
  qed
  have "bm_bit ps (bm(q * ps := ?p)) i =
      (if 8 * (q * ps + pos) \<le> i \<and> i < 8 * (q * ps + pos + n) then v else bm_bit ps bm i)" for i
  proof -
    have "8 * (q * ps + pos) \<le> i \<and> i < 8 * (q * ps + pos + n) \<longleftrightarrow> q * ps + pos \<le> i div 8 \<and> i div 8 < q * ps + pos + n"
      by (simp add: less_eq_div_iff_mult_less_eq div_less_iff_less_mult mult.commute)
    then show ?thesis using fill [of "i mod 8"] unfolding bm_bit_def byte by auto
  qed
  moreover have "memset_page v bm (q * ps) pos n = Some (bm(q * ps := ?p))"
    using False assms(2) len by (simp add: memset_page_def copy_els_def)
  ultimately show ?thesis using full_pages_upd [OF assms(1), of ?p q] assms(2) len by (simp add: range_set_def)
qed

section \<open>The pages\<close>

text \<open>
  After the first page, while there are pages left, the next bit to do is the first one of
  the next page: \<open>a\<close>. \<open>e\<close> is the bit behind the last.
\<close>

lemma bm_pages_spec:
  assumes "full_pages ps bm" "ofs = q * ps" "ofs < end_ofs" "end_ofs = (e - 1) div 8 div ps * ps"
    "a = 8 * (ofs + ps)" "e = a + cnt" "0 < cnt"
  shows "(\<exists>err bm' cnt'. bm_pages ps map_err v end_ofs bm ofs cnt n = Some (Inl (err, bm', cnt')) \<and>
       err \<noteq> EOK \<and> 0 < cnt' \<and> cnt' \<le> cnt \<and> range_set ps bm bm' a (e - cnt') v) \<or>
    (\<exists>bm' q' cnt' n'. bm_pages ps map_err v end_ofs bm ofs cnt n = Some (Inr (bm', q' * ps, cnt', n')) \<and>
       cnt' < 8 \<and> cnt' \<le> cnt \<and> range_set ps bm bm' a (e - cnt') v \<and> a \<le> e - cnt' \<and> e - cnt' = 8 * (q' * ps + n') \<and>
       (cnt' \<noteq> 0 \<longrightarrow> n' < ps))"
  using assms(1-3,5-7)
proof (induction "end_ofs - ofs" arbitrary: bm ofs q a cnt n rule: less_induct)
  case less
  have ps: "0 < ps" using less.prems(1) by (simp add: full_pages_def)
  let ?ofs = "ofs + ps" and ?len = "min ps (cnt div 8)"
  have ofs: "?ofs = (q + 1) * ps" using less.prems(2) by simp
  have le: "?ofs \<le> end_ofs" 
  proof -
    have "q < (e - 1) div 8 div ps" using less.prems(2,3) assms(4) by simp
    then have "(q + 1) * ps \<le> (e - 1) div 8 div ps * ps" by (intro mult_le_mono1) simp
    then show ?thesis using ofs assms(4) by simp
  qed
  have last: "end_ofs \<le> (e - 1) div 8" "(e - 1) div 8 < end_ofs + ps"
    using ps dividend_less_div_times [OF ps, of "(e - 1) div 8"] unfolding assms(4) by (simp_all add: add.commute)
  show ?case
  proof (cases "map_err ?ofs = EOK")
    case False
    have "range_set ps bm bm a (e - cnt) v" using less.prems(1,5) range_set_refl by simp
    then show ?thesis using False less.prems ps
      by (subst (1 2) bm_pages.simps) (auto simp: Let_def)
  next
    case True
    obtain bm' where bm': "memset_page v bm ?ofs 0 ?len = Some bm'" "range_set ps bm bm' a (8 * (?ofs + ?len)) v"
      using memset_page_bits [OF less.prems(1), of 0 ?len v "q + 1"] ofs less.prems(4) by auto
    have step: "bm_pages ps map_err v end_ofs bm ofs cnt n =
        bm_pages ps map_err v end_ofs bm' ?ofs (cnt - ?len * 8) ?len"
      using True less.prems ps bm'(1) by (subst bm_pages.simps) (simp add: Let_def)
    note full = range_set_full [OF bm'(2)]
    show ?thesis
    proof (cases "?ofs < end_ofs")
      case True
      then have "(q + 1) * ps < (e - 1) div 8 div ps * ps" unfolding ofs assms(4) .
      then have "q + 1 < (e - 1) div 8 div ps" using mult_less_cancel2 by blast
      then have "(q + 1 + 1) * ps \<le> (e - 1) div 8 div ps * ps" by (intro mult_le_mono1) simp
      also have "\<dots> \<le> (e - 1) div 8" by (rule div_times_less_eq_dividend)
      also have "(q + 1 + 1) * ps = ?ofs + ps" unfolding ofs by simp
      finally have "?ofs + ps \<le> (e - 1) div 8" .
      then have "8 * ps < cnt" using less.prems(4,5,6) by (simp add: less_eq_div_iff_mult_less_eq)
      then have len: "?len = ps" by (simp add: less_eq_div_iff_mult_less_eq min_def)
      let ?a = "8 * (?ofs + ps)" and ?cnt = "cnt - ps * 8"
      have IH: "(\<exists>err bm'' cnt'. bm_pages ps map_err v end_ofs bm' ?ofs ?cnt ps = Some (Inl (err, bm'', cnt')) \<and>
           err \<noteq> EOK \<and> 0 < cnt' \<and> cnt' \<le> ?cnt \<and> range_set ps bm' bm'' ?a (e - cnt') v) \<or>
        (\<exists>bm'' q' cnt' n'. bm_pages ps map_err v end_ofs bm' ?ofs ?cnt ps = Some (Inr (bm'', q' * ps, cnt', n')) \<and>
           cnt' < 8 \<and> cnt' \<le> ?cnt \<and> range_set ps bm' bm'' ?a (e - cnt') v \<and> ?a \<le> e - cnt' \<and> e - cnt' = 8 * (q' * ps + n') \<and>
           (cnt' \<noteq> 0 \<longrightarrow> n' < ps))"
        by (rule less.hyps [OF _ full ofs True]) (use \<open>8 * ps < cnt\<close> less.prems True ps in auto)
      have a: "a \<le> ?a" using less.prems(4) by simp
      have trans: "range_set ps bm bm'' a (e - cnt') v" if "range_set ps bm' bm'' ?a (e - cnt') v" "?a \<le> e - cnt'" for bm'' cnt'
        using range_set_trans [OF bm'(2) [unfolded len] that(1) a that(2)] .
      from IH show ?thesis
      proof (elim disjE exE conjE, goal_cases)
        case (1 err bm'' cnt')
        have "?a \<le> e - cnt'" using 1 \<open>8 * ps < cnt\<close> less.prems(4,5) by simp
        then show ?case using 1 step len trans by (intro disjI1 exI [of _ err] exI [of _ bm''] exI [of _ cnt']) auto
      next
        case (2 bm'' q' cnt' n')
        then have "bm_pages ps map_err v end_ofs bm ofs cnt n = Some (Inr (bm'', q' * ps, cnt', n'))"
          using step len by simp
        moreover have "range_set ps bm bm'' a (e - cnt') v" by (rule trans [OF 2(4,5)])
        moreover have "a \<le> e - cnt'" using a 2(5) by (rule order_trans)
        moreover have "cnt' \<le> cnt" using 2(3) by simp
        ultimately show ?case using 2 by blast
      qed
    next
      case False
      then have eo: "end_ofs = ?ofs" using le by simp
      then have "(e - 1) div 8 < ?ofs + ps" using last(2) by simp
      then have c: "cnt \<le> 8 * ps" using less.prems(4,5,6) by (simp add: div_less_iff_less_mult)
      then have len: "?len = cnt div 8" "cnt - cnt div 8 * 8 = cnt mod 8" by (auto simp: minus_div_mult_eq_mod)
      have "bm_pages ps map_err v end_ofs bm ofs cnt n = Some (Inr (bm', (q + 1) * ps, cnt mod 8, cnt div 8))"
        using step len eo ofs by (simp add: bm_pages.simps [of _ _ _ _ bm'])
      moreover have "e - cnt mod 8 = 8 * (?ofs + cnt div 8)"
        using less.prems(4,5) by (simp add: minus_mod_eq_mult_div [symmetric] )
      moreover have "cnt mod 8 \<noteq> 0 \<longrightarrow> cnt div 8 < ps" using c by (auto simp: div_less_iff_less_mult le_less)
      moreover have "range_set ps bm bm' a (e - cnt mod 8) v" "a \<le> e - cnt mod 8"
        using bm'(2) len(1) calculation less.prems(4) by simp_all
      moreover have "cnt mod 8 < 8" "cnt mod 8 \<le> cnt" by simp_all
      ultimately show ?thesis unfolding ofs by blast
    qed
  qed
qed


lemma div8_le:
  fixes cnt m :: nat
  assumes "cnt \<le> 8 * m"
  shows "cnt div 8 \<le> m" "cnt mod 8 \<noteq> 0 \<Longrightarrow> cnt div 8 < m"
  using assms div_mult_mod_eq [of cnt 8] by linarith+

text \<open>The call from the first whole byte on: its bits are those from \<open>a\<close> up to \<open>e\<close>.\<close>

lemma bm_rest_spec:
  assumes "full_pages ps bm" "pos \<le> ps" "a = 8 * (q * ps + pos)" "e = a + cnt" "0 < cnt"
    "end_ofs = (e - 1) div 8 div ps * ps" "q * ps \<le> end_ofs"
  obtains bm' where "bm_rest ps map_err v end_ofs bm (q * ps) cnt pos = Some (EOK, bm', 0)" "range_set ps bm bm' a e v"
  | err bm' cnt' where "bm_rest ps map_err v end_ofs bm (q * ps) cnt pos = Some (err, bm', cnt')"
      "err \<noteq> EOK" "0 < cnt'" "cnt' \<le> cnt" "range_set ps bm bm' a (e - cnt') v"
proof -
  let ?len = "min (ps - pos) (cnt div 8)"
  let ?cnt = "cnt - ?len * 8" and ?a = "8 * (q * ps + pos + ?len)"
  define n where "n = (if ?cnt < 8 then ?len + pos else ?len)"
  have ps: "0 < ps" using assms(1) by (simp add: full_pages_def)
  have "pos + ?len \<le> ps" using assms(2) by linarith
  then obtain bm1 where bm1: "memset_page v bm (q * ps) pos ?len = Some bm1" "range_set ps bm bm1 a ?a v"
    using memset_page_bits [OF assms(1), of pos ?len v q] assms(3) by auto
  note full1 = range_set_full [OF bm1(2)]
  let ?fin = "\<lambda>bm2 q' cnt' n'. if cnt' = 0 then Some (EOK, bm2, 0 :: nat)
         else if 7 < cnt' then None
         else do {
           b \<leftarrow> rd (bm2 (q' * ps)) n';
           p \<leftarrow> wr (bm2 (q' * ps)) n' (last_byte v b cnt');
           Some (EOK, bm2(q' * ps := p), 0) }"
  have fin: "\<exists>bm'. ?fin bm2 q' cnt' n' = Some (EOK, bm', 0) \<and> range_set ps bm bm' a e v"
    if "cnt' < 8" "cnt' \<le> cnt" "range_set ps bm bm2 a (e - cnt') v" "a \<le> e - cnt'" "e - cnt' = 8 * (q' * ps + n')"
      "cnt' \<noteq> 0 \<longrightarrow> n' < ps" for bm2 q' cnt' n'
  proof (cases "cnt' = 0")
    case False
    then have n': "n' < ps" "length (bm2 (q' * ps)) = ps"
      using that(6) range_set_full [OF that(3)] by (simp_all add: full_pages_def)
    have e: "e = 8 * (q' * ps + n') + cnt'" using that(2,4,5) assms(4) False by simp
    have "range_set ps bm2 (bm2(q' * ps := (bm2 (q' * ps))[n' := last_byte v (bm2 (q' * ps) ! n') cnt'])) (e - cnt') e v"
      using set_byte_bits [OF range_set_full [OF that(3)] n'(1), of 0 cnt' "last_byte v (bm2 (q' * ps) ! n') cnt'" v q']
        last_byte_bit [of cnt'] that(1) e by simp
    then have "range_set ps bm (bm2(q' * ps := (bm2 (q' * ps))[n' := last_byte v (bm2 (q' * ps) ! n') cnt'])) a e v"
      using range_set_trans [OF that(3) _ that(4)] by simp
    then show ?thesis using False that(1) n' by (simp add: mem_simps)
  qed (use that in simp)
  have run: "bm_rest ps map_err v end_ofs bm (q * ps) cnt pos = do {
      r \<leftarrow> bm_pages ps map_err v end_ofs bm1 (q * ps) ?cnt n;
      case r of Inl (err, bm, cnt) \<Rightarrow> Some (err, bm, cnt) | Inr (bm, ofs, cnt, len) \<Rightarrow>
         if cnt = 0 then Some (EOK, bm, 0)
         else if 7 < cnt then None
         else do {
           b \<leftarrow> rd (bm ofs) len;
           p \<leftarrow> wr (bm ofs) len (last_byte v b cnt);
           Some (EOK, bm(ofs := p), 0) } }"
    unfolding bm_rest_def Let_def bm1(1) n_def bind.bind_lunit by (rule refl)
  have aa: "a \<le> ?a" using assms(3) by simp
  show ?thesis
  proof (cases "q * ps < end_ofs")
    case True
    then have "q < (e - 1) div 8 div ps" unfolding assms(6) using mult_less_cancel2 by blast
    then have "(q + 1) * ps \<le> (e - 1) div 8 div ps * ps" by (intro mult_le_mono1) simp
    also have "\<dots> \<le> (e - 1) div 8" by (rule div_times_less_eq_dividend)
    finally have big: "8 * (ps - pos) < cnt" using assms(2-5) by (simp add: less_eq_div_iff_mult_less_eq)
    then have len: "?len = ps - pos" by (simp add: less_eq_div_iff_mult_less_eq min_def)
    then have a': "?a = 8 * (q * ps + ps)" "e = 8 * (q * ps + ps) + ?cnt" "0 < ?cnt" using assms(2-4) big by auto
    note pages = bm_pages_spec [OF full1 refl True assms(6) refl a'(2,3), of map_err v n, folded a'(1)]
    show ?thesis using pages
    proof (elim disjE exE conjE, goal_cases)
      case (1 err bm2 cnt')
      have c: "cnt' \<le> cnt" using 1(4) by simp
      have "?a \<le> e - cnt'" unfolding a'(1) using a'(2) 1(4) by linarith
      then have r: "range_set ps bm bm2 a (e - cnt') v" by (rule range_set_trans [OF bm1(2) 1(5) aa])
      show ?thesis by (rule that(2) [OF _ 1(2,3) c r]) (simp add: run 1(1))
    next
      case (2 bm2 q' cnt' n')
      have r: "range_set ps bm bm2 a (e - cnt') v" by (rule range_set_trans [OF bm1(2) 2(4) aa 2(5)])
      have "a \<le> e - cnt'" "cnt' \<le> cnt" using order_trans [OF aa 2(5)] 2(3) by simp_all
      then obtain bm' where b: "?fin bm2 q' cnt' n' = Some (EOK, bm', 0)" "range_set ps bm bm' a e v"
        using fin [OF 2(2) _ r _ 2(6,7)] by blast
      show ?thesis by (rule that(1) [OF _ b(2)]) (unfold run 2(1) bind.bind_lunit sum.case prod.case, rule b(1))
    qed
  next
    case False
    then have eo: "end_ofs = q * ps" using assms(7) by simp
    have "(e - 1) div 8 < end_ofs + ps"
      using dividend_less_div_times [OF ps, of "(e - 1) div 8"] unfolding assms(6) by (simp add: add.commute)
    then have "cnt \<le> 8 * (ps - pos)" using assms(2-5) eo by (simp add: div_less_iff_less_mult)
    then have c: "cnt div 8 \<le> ps - pos" "cnt mod 8 \<noteq> 0 \<Longrightarrow> cnt div 8 < ps - pos" using div8_le by blast+
    then have len: "?len = cnt div 8" "?cnt = cnt mod 8" "n = cnt div 8 + pos"
      by (simp_all add: n_def minus_div_mult_eq_mod)
    have pages: "bm_pages ps map_err v end_ofs bm1 (q * ps) ?cnt n = Some (Inr (bm1, q * ps, cnt mod 8, cnt div 8 + pos))"
      unfolding len(2,3) using eo by (subst bm_pages.simps) simp
    have n: "cnt mod 8 \<noteq> 0 \<Longrightarrow> cnt div 8 + pos < ps" using c(2) by simp
    have ea: "e - cnt mod 8 = ?a" using assms(3,4) len(1) by (simp add: minus_mod_eq_mult_div [symmetric])
    obtain bm' where b: "?fin bm1 q (cnt mod 8) (cnt div 8 + pos) = Some (EOK, bm', 0)" "range_set ps bm bm' a e v"
      using fin [of "cnt mod 8" bm1 q "cnt div 8 + pos", OF _ _ bm1(2) [folded ea] aa [folded ea]] n ea len(1)
      by (auto simp: add.commute add.left_commute)
    show ?thesis by (rule that(1) [OF _ b(2)]) (unfold run pages bind.bind_lunit sum.case prod.case, rule b(1))
  qed
qed

section \<open>The whole call\<close>

lemma bm_pages_no_error: "bm_pages ps (\<lambda>ofs. EOK) v end_ofs bm ofs cnt n \<noteq> Some (Inl r)"
proof (induction "end_ofs - ofs" arbitrary: bm ofs cnt n rule: less_induct)
  case less
  show ?case
    by (subst bm_pages.simps) (auto simp: Let_def less split: Option.bind_splits)
qed

lemma bm_rest_no_error: "bm_rest ps (\<lambda>ofs. EOK) v end_ofs bm ofs cnt pos = Some (err, bm', cnt') \<Longrightarrow> err = EOK"
  by (auto simp: bm_rest_def Let_def bm_pages_no_error split: Option.bind_splits sum.splits if_splits)

lemma bm_set_run_no_error: "bm_set_run ps (\<lambda>ofs. EOK) bm start count v = Some (err, bm', cnt') \<Longrightarrow> err = EOK"
  by (auto simp: bm_set_run_def Let_def split: Option.bind_splits if_splits prod.splits dest: bm_rest_no_error)

lemma last_page_offset:
  assumes "0 < count" "start + count < 2 ^ 63"
  shows "nat ((s64 (int start + int count - 1) div 8 div int ps * int ps) mod 2 ^ 64) = (start + count - 1) div 8 div ps * ps"
proof -
  define e where "e = start + count - 1"
  have e: "int start + int count - 1 = int e" "e < 2 ^ 63" using assms by (simp_all add: e_def)
  define d where "d = e div 8 div ps * ps"
  have "d \<le> e" unfolding d_def by (rule order_trans [OF div_times_less_eq_dividend div_le_dividend])
  then have "int d mod 2 ^ 64 = int d" using e(2) by (intro mod_pos_pos_trivial) simp_all
  moreover have "s64 (int e) = int e" using e(2) by (intro s64_id) simp
  moreover have "int e div 8 div int ps * int ps = int d" by (simp add: zdiv_int d_def)
  ultimately have "nat ((s64 (int e) div 8 div int ps * int ps) mod 2 ^ 64) = d" by simp
  then show ?thesis unfolding e(1) d_def e_def .
qed

lemma bm_set_run_spec:
  assumes "full_pages ps bm" "0 < count" "start + count < 2 ^ 63"
  obtains bm' where "bm_set_run ps map_err bm (int start) (int count) v = Some (EOK, bm', 0)"
      "range_set ps bm bm' start (start + count) v"
  | err bm' cnt where "bm_set_run ps map_err bm (int start) (int count) v = Some (err, bm', cnt)"
      "err \<noteq> EOK" "0 < cnt" "cnt \<le> count" "range_set ps bm bm' start (start + count - cnt) v"
proof -
  define q where "q = start div 8 div ps"
  define pos where "pos = start div 8 mod ps"
  define k where "k = start mod 8"
  define end_ofs where "end_ofs = (start + count - 1) div 8 div ps * ps"
  have ps: "0 < ps" using assms(1) by (simp add: full_pages_def)
  then have pos: "pos < ps" by (simp add: pos_def)
  have start: "start = 8 * (q * ps + pos) + k" unfolding q_def pos_def k_def by simp
  have q: "q * ps \<le> end_ofs" unfolding q_def end_ofs_def using assms(2)
    by (intro mult_le_mono1 div_le_mono) simp
  have run: "bm_set_run ps map_err bm (int start) (int count) v =
      (if map_err (q * ps) \<noteq> EOK then Some (map_err (q * ps), bm, count)
       else if k = 0 then bm_rest ps map_err v end_ofs bm (q * ps) count pos
       else do {
         b \<leftarrow> rd (bm (q * ps)) pos;
         let (b, cnt) = first_byte v b k count;
         p \<leftarrow> wr (bm (q * ps)) pos b;
         if cnt = 0 then Some (EOK, bm(q * ps := p), 0)
         else bm_rest ps map_err v end_ofs (bm(q * ps := p)) (q * ps) cnt (pos + 1) })"
    unfolding bm_set_run_def Let_def last_page_offset [OF assms(2,3)] nat_int
      q_def [symmetric] pos_def [symmetric] k_def [symmetric] end_ofs_def [symmetric] by simp
  consider "map_err (q * ps) \<noteq> EOK" | "map_err (q * ps) = EOK" "k = 0" | "map_err (q * ps) = EOK" "k \<noteq> 0" by blast
  then show ?thesis
  proof cases
    case 1
    show ?thesis by (rule that(2) [of "map_err (q * ps)" bm count]) (use 1 run assms range_set_refl in auto)
  next
    case 2
    then have "bm_set_run ps map_err bm (int start) (int count) v = bm_rest ps map_err v end_ofs bm (q * ps) count pos"
      using run by simp
    moreover have "start = 8 * (q * ps + pos)" using start 2 by simp
    ultimately show ?thesis
      using bm_rest_spec [OF assms(1) less_imp_le [OF pos] _ refl assms(2) _ q, of start map_err v] that
      unfolding end_ofs_def by metis
  next
    case 3
    have k: "k \<le> 8" "0 < k" "k < 8" using 3 by (simp_all add: k_def less_imp_le)
    let ?b = "bm (q * ps) ! pos" and ?m = "min count (8 - k)"
    obtain b' where b': "first_byte v ?b k count = (b', count - ?m)"
      "\<forall>m < 8. bit b' m = (if k \<le> m \<and> m < k + ?m then v else bit ?b m)"
      using first_byte_spec [OF k(1,2)] by blast
    let ?bm = "bm(q * ps := (bm (q * ps))[pos := b'])"
    have "length (bm (q * ps)) = ps" using assms(1) by (simp add: full_pages_def)
    then have run3: "bm_set_run ps map_err bm (int start) (int count) v =
        (if count - ?m = 0 then Some (EOK, ?bm, 0)
         else bm_rest ps map_err v end_ofs ?bm (q * ps) (count - ?m) (pos + 1))"
      using run 3 b'(1) pos by (simp add: mem_simps)
    have r: "range_set ps bm ?bm start (start + ?m) v"
      using set_byte_bits [OF assms(1) pos, of k "k + ?m" b' v q] b'(2) k start by (auto simp: add.assoc)
    show ?thesis
    proof (cases "count - ?m = 0")
      case True
      then have "?m = count" by simp
      then show ?thesis using that(1) [of ?bm] run3 r by simp
    next
      case False
      then have m: "?m = 8 - k" "8 - k < count" by auto
      then have a: "start + ?m = 8 * (q * ps + (pos + 1))" using start k by simp
      have e: "start + count = start + ?m + (count - ?m)" by simp
      have eo: "end_ofs = (start + count - 1) div 8 div ps * ps" by (simp add: end_ofs_def)
      have c: "0 < count - ?m" using False by simp
      show ?thesis
      proof (rule bm_rest_spec [OF range_set_full [OF r] _ a e c eo q, of map_err v], goal_cases)
        case 1
        then show ?case using pos by simp
      next
        case (2 bm')
        then show ?case using that(1) [of bm'] run3 False range_set_trans [OF r 2(2)] by simp
      next
        case (3 err bm' cnt)
        have "range_set ps bm bm' start (start + count - cnt) v"
          by (rule range_set_trans [OF r 3(5)]) (use 3(4) m in auto)
        then show ?case using that(2) [of err bm' cnt] run3 False 3 by simp
      qed
    qed
  qed
qed


lemma set_bits_in_run_spec:
  assumes "full_pages ps bm" "0 < count" "start + count < 2 ^ 63"
  shows "\<exists>err bm' bad. ntfs_bitmap_set_bits_in_run ps map_err bm (int start) (int count) v = Some (err, bm', bad) \<and>
    full_pages ps bm' \<and>
    (\<forall>i. \<not> (start \<le> i \<and> i < start + count) \<longrightarrow> bm_bit ps bm' i = bm_bit ps bm i) \<and>
    (err = EOK \<longrightarrow> \<not> bad \<and> (\<forall>i. start \<le> i \<and> i < start + count \<longrightarrow> bm_bit ps bm' i = v)) \<and>
    (err \<noteq> EOK \<and> \<not> bad \<and> (\<forall>i. start \<le> i \<and> i < start + count \<longrightarrow> bm_bit ps bm i = (\<not> v)) \<longrightarrow>
       (\<forall>i. bm_bit ps bm' i = bm_bit ps bm i)) \<and>
    (map_err False = (\<lambda>ofs. EOK) \<longrightarrow> err = EOK)"
proof (rule bm_set_run_spec [OF assms, of "map_err False" v], goal_cases)
  case (1 bm')
  then show ?case by (auto simp: ntfs_bitmap_set_bits_in_run_def range_set_def)
next
  case (2 err bm' cnt)
  have ne: "map_err False \<noteq> (\<lambda>ofs. EOK)" using bm_set_run_no_error 2(1,2) by metis
  show ?case
  proof (cases "cnt = count")
    case True
    then show ?thesis using 2 ne by (auto simp: ntfs_bitmap_set_bits_in_run_def range_set_def)
  next
    case False
    note err = 2(2) and part = 2(5)
    have full: "full_pages ps bm'" by (rule range_set_full [OF 2(5)])
    have c: "0 < count - cnt" "start + (count - cnt) < 2 ^ 63"
      using False 2(4) le_less_trans [OF _ assms(3), of "start + (count - cnt)"] by simp_all
    have d: "int count - int cnt = int (count - cnt)" "start + count - cnt = start + (count - cnt)"
      by (rule of_nat_diff [OF 2(4), symmetric]) (rule Nat.diff_add_assoc [OF 2(4)])
    have run: "ntfs_bitmap_set_bits_in_run ps map_err bm (int start) (int count) v = do {
        (err2, bm, cnt2) \<leftarrow> bm_set_run ps (map_err True) bm' (int start) (int (count - cnt)) (\<not> v);
        Some (err, bm, err2 \<noteq> EOK) }"
      unfolding ntfs_bitmap_set_bits_in_run_def 2(1) bind.bind_lunit prod.case d(1) using 2(2) False by simp
    show ?thesis
    proof (rule bm_set_run_spec [OF full c(1,2), of "map_err True" "\<not> v"], goal_cases)
      case (1 bm'')
      have res: "ntfs_bitmap_set_bits_in_run ps map_err bm (int start) (int count) v = Some (err, bm'', False)"
        using run 1(1) by simp
      have "bm_bit ps bm'' i = (if start \<le> i \<and> i < start + (count - cnt) then \<not> v else bm_bit ps bm i)" for i
        using 1(2) part unfolding range_set_def d(2) by simp
      then show ?case unfolding res using range_set_full [OF 1(2)] err ne by auto
    next
      case (2 err2 bm'' cnt2)
      have res: "ntfs_bitmap_set_bits_in_run ps map_err bm (int start) (int count) v = Some (err, bm'', True)"
        using run 2(1,2) by simp
      have "bm_bit ps bm'' i = bm_bit ps bm i" if "\<not> (start \<le> i \<and> i < start + count)" for i
        using that 2(5) part unfolding range_set_def d(2) by auto
      then show ?case unfolding res using range_set_full [OF 2(5)] err ne by auto
    qed
  qed
qed

text \<open>
  C18. Setting a run of bits of a bitmap always returns and never changes a bit outside the run.
  When it returns 0 every bit of the run has the new value; it does return 0 when the pages can
  be mapped. When it fails and its rollback does not, and the bits of the run had the other
  value before, which is how the allocators call it, the bitmap is as it was.
\<close>

theorem bitmap_set_bits_correct:
  assumes "full_pages ps bm" "0 < count" "start + count < 2 ^ 63"
  shows "\<exists>err bm' bad. ntfs_bitmap_set_bits_in_run ps map_err bm (int start) (int count) v = Some (err, bm', bad) \<and>
    full_pages ps bm' \<and>
    (\<forall>i. \<not> (start \<le> i \<and> i < start + count) \<longrightarrow> bm_bit ps bm' i = bm_bit ps bm i) \<and>
    (err = EOK \<longrightarrow> \<not> bad \<and> (\<forall>i. start \<le> i \<and> i < start + count \<longrightarrow> bm_bit ps bm' i = v)) \<and>
    (err \<noteq> EOK \<and> \<not> bad \<and> (\<forall>i. start \<le> i \<and> i < start + count \<longrightarrow> bm_bit ps bm i = (\<not> v)) \<longrightarrow>
       (\<forall>i. bm_bit ps bm' i = bm_bit ps bm i)) \<and>
    (map_err False = (\<lambda>ofs. EOK) \<longrightarrow> err = EOK)"
  by (rule set_bits_in_run_spec [OF assms])

text \<open>Two pages of four bytes, the second of which cannot be mapped: the rollback restores the first.\<close>

theorem bitmap_set_bits_correct_witness:
  "\<exists>err bm' bad. ntfs_bitmap_set_bits_in_run 4 (\<lambda>rollback ofs. if ofs = 4 then EIO else EOK) (\<lambda>ofs. [0, 0, 0, 0])
       (int 13) (int 30) True = Some (err, bm', bad) \<and>
     err = EIO \<and> \<not> bad \<and> (\<forall>i. bm_bit 4 bm' i = bm_bit 4 (\<lambda>ofs. [0, 0, 0, 0]) i)"
proof -
  let ?me = "\<lambda>(rollback :: bool) ofs. if ofs = 4 then EIO else EOK" and ?bm = "\<lambda>(ofs :: nat). [0, 0, 0, 0 :: u8]"
  have full: "full_pages 4 ?bm" by (simp add: full_pages_def)
  have zero: "\<not> bm_bit 4 ?bm i" for i
  proof -
    have "i div 8 mod 4 \<in> {0, 1, 2, 3}" by auto
    then show ?thesis by (auto simp: bm_bit_def bm_byte_def)
  qed
  have "map_option (\<lambda>(err, bm', bad). (err, bad)) (ntfs_bitmap_set_bits_in_run 4 ?me ?bm (int 13) (int 30) True) = Some (EIO, False)"
    by code_simp
  then show ?thesis
    using bitmap_set_bits_correct [OF full, of 30 13 ?me True] zero by auto
qed

text \<open>
  Called with no bits at bit 0 the function panics, as the offset of the page of the last bit,
  that of bit -1, is the last page of the unsigned offsets.
\<close>

lemma bitmap_set_no_bits_panics:
  assumes "full_pages ps bm" "ps < 2 ^ 64" "map_err False 0 = EOK"
  shows "ntfs_bitmap_set_bits_in_run ps map_err bm 0 0 v = None"
proof -
  have ps: "0 < ps" "length (bm 0) = ps" using assms(1) by (auto simp: full_pages_def dest: spec [of _ 0])
  have "(- 1 :: int) div 8 div int ps * int ps = - int ps" using ps(1) by (simp add: div_eq_minus1)
  moreover have "(- int ps) mod 2 ^ 64 = 2 ^ 64 - int ps"
    using ps(1) assms(2) by (simp add: zmod_zminus1_eq_if)
  ultimately have "nat ((s64 (0 + 0 - 1) div 8 div int ps * int ps) mod 2 ^ 64) > 0"
    using assms(2) by simp
  then show ?thesis using ps assms(3)
    by (simp add: ntfs_bitmap_set_bits_in_run_def bm_set_run_def bm_rest_def memset_page_def bm_pages.simps mem_simps Let_def)
qed

end
