(* ===== verification/NTFS_Lcnalloc.thy ===== *)
theory NTFS_Lcnalloc
  imports NTFS_Runlist NTFS_Bitmap
begin

unbundle bit_operations_syntax

text \<open>
  The cluster allocator, \<open>kext/ntfs_lcnalloc.c\<close>, and the set-up of its zones at mount time,
  \<open>ntfs_setup_allocators\<close> of \<open>kext/ntfs_vfsops.c\<close>.

  The allocator searches the cluster bitmap \<open>$Bitmap\<close> for clear bits, sets them and gathers the
  clusters in a runlist. It keeps a part of the volume, the mft zone, for the growth of the mft.
  Data goes to the zone behind it, then to the zone in front of it, and when both are full the
  mft zone is halved. A failing allocation gives back what it has taken.

  The bitmap is that of \<open>NTFS_Bitmap\<close>. Mapping one of its pages is a parameter: the error of
  the call, which may depend on the whole state of the search, so that every sequence of
  outcomes is possible. Memory comes from \<open>io\<close> as in \<open>NTFS_Runlist\<close>. Locking, the reference to
  the vnode of the bitmap and the invalidation of buffers of the new clusters leave this state
  alone and are left out, except for the error of \<open>vnode_get\<close>.
\<close>

section \<open>The volume\<close>

record lcn_volume =
  nr_clusters :: int
  nr_free_clusters :: int
  mft_lcn :: int
  mft_zone_start :: int
  mft_zone_end :: int
  mft_zone_pos :: int
  data1_zone_pos :: int
  data2_zone_pos :: int
  mft_data_pos :: int
  vol_errors :: bool

text \<open>The loop that halves the mft zone until it lies inside the volume.\<close>

partial_function (option) cap_zone :: "int \<Rightarrow> int \<Rightarrow> int \<Rightarrow> int option" where
  "cap_zone nr mlcn zsize = (if nr \<le> mlcn + zsize then cap_zone nr mlcn (zsize div 2) else Some zsize)"

definition mft_zone_share :: "nat \<Rightarrow> int \<Rightarrow> int" where
  "mft_zone_share multiplier nr =
     (if multiplier = 4 then nr div 2
      else if multiplier = 3 then (nr + nr div 2) div 4
      else if multiplier = 2 then nr div 4
      else nr div 8)"

definition ntfs_setup_allocators :: "nat \<Rightarrow> int \<Rightarrow> lcn_volume \<Rightarrow> lcn_volume option" where
  "ntfs_setup_allocators multiplier cluster_size vol = do {
     let std = (8192 + 2 * cluster_size - 1) div cluster_size;
     let std = (if std * cluster_size < 16 * 1024 then (16 * 1024 + cluster_size - 1) div cluster_size else std);
     let zstart = (if mft_lcn vol \<le> std then 0 else mft_lcn vol);
     zsize \<leftarrow> cap_zone (nr_clusters vol) (mft_lcn vol) (mft_zone_share multiplier (nr_clusters vol));
     Some (vol\<lparr>mft_zone_start := zstart, mft_zone_pos := mft_lcn vol, mft_zone_end := mft_lcn vol + zsize,
       data1_zone_pos := mft_lcn vol + zsize, data2_zone_pos := 0, mft_data_pos := 24\<rparr>) }"

section \<open>Freeing the clusters of a runlist\<close>

definition add_free :: "int \<Rightarrow> lcn_volume \<Rightarrow> lcn_volume" where
  "add_free n vol = vol\<lparr>nr_free_clusters := min (nr_free_clusters vol + n) (nr_clusters vol)\<rparr>"

definition set_errors :: "bool \<Rightarrow> lcn_volume \<Rightarrow> lcn_volume" where
  "set_errors b vol = (if b then vol\<lparr>vol_errors := True\<rparr> else vol)"

text \<open>The clusters of a run that are to be freed, of which there are \<open>count\<close> or, for -1, all.\<close>

definition cap_count :: "int \<Rightarrow> int \<Rightarrow> int" where
  "cap_count len count = (if 0 \<le> count \<and> count < len then count else len)"

text \<open>The loop over the runs behind the first; the array is passed from the run it looks at.\<close>

fun free_runs ::
  "nat \<Rightarrow> (int \<Rightarrow> bool \<Rightarrow> nat \<Rightarrow> errno) \<Rightarrow> lcn_volume \<Rightarrow> bitmap \<Rightarrow> ntfs_rl_element list \<Rightarrow> int \<Rightarrow> int \<Rightarrow>
   (lcn_volume \<times> bitmap \<times> int \<times> int) option" where
  "free_runs ps map_err vol bm [] count real_freed = None"
| "free_runs ps map_err vol bm (e # es) count real_freed =
     (if rlen e = 0 \<or> count = 0 then Some (vol, bm, count, real_freed)
      else do {
        let vol = set_errors (lcn e < LCN_HOLE) vol;
        let to_free = cap_count (rlen e) count;
        let rest = (if 0 \<le> count then count - to_free else count);
        if 0 \<le> lcn e then do {
          (err, bm, bad) \<leftarrow> ntfs_bitmap_clear_run ps (map_err (lcn e)) bm (lcn e) to_free;
          let vol = set_errors bad vol;
          let vol = (if err \<noteq> EOK then set_errors True vol else add_free to_free vol);
          free_runs ps map_err vol bm es rest (real_freed + to_free) }
        else free_runs ps map_err vol bm es rest real_freed })"

definition ntfs_cluster_free_from_rl_nolock ::
  "nat \<Rightarrow> (int \<Rightarrow> bool \<Rightarrow> nat \<Rightarrow> errno) \<Rightarrow> lcn_volume \<Rightarrow> bitmap \<Rightarrow> ntfs_rl_element list \<Rightarrow> int \<Rightarrow> int \<Rightarrow>
   (errno \<times> lcn_volume \<times> bitmap \<times> int) option" where
  "ntfs_cluster_free_from_rl_nolock ps map_err vol bm xs start_vcn count =
     (if start_vcn < 0 \<or> count < - 1 then None
      else do {
        i \<leftarrow> ntfs_rl_find_vcn_nolock xs start_vcn;
        case i of
          None \<Rightarrow> Some (EOK, vol, bm, 0)
        | Some i \<Rightarrow> do {
            e \<leftarrow> rd xs i;
            if lcn e < LCN_HOLE then Some (EIO, vol, bm, 0)
            else do {
              let delta = start_vcn - vcn e;
              let to_free = cap_count (rlen e - delta) count;
              (err, vol, bm, real_freed) \<leftarrow>
                (if 0 \<le> lcn e then do {
                   (err, bm, bad) \<leftarrow> ntfs_bitmap_clear_run ps (map_err (lcn e)) bm (lcn e + delta) to_free;
                   let vol = set_errors bad vol;
                   Some (err, if err = EOK then add_free to_free vol else vol, bm, if err = EOK then to_free else 0) }
                 else Some (EOK, vol, bm, 0));
              if err \<noteq> EOK then Some (err, vol, bm, 0)
              else do {
                (vol, bm, count, real_freed) \<leftarrow> free_runs ps map_err vol bm (drop (i + 1) xs)
                  (if 0 \<le> count then count - to_free else count) real_freed;
                if 0 < count then None else Some (EOK, vol, bm, real_freed) } } } })"

definition ntfs_cluster_free_from_rl ::
  "nat \<Rightarrow> errno \<Rightarrow> (int \<Rightarrow> bool \<Rightarrow> nat \<Rightarrow> errno) \<Rightarrow> lcn_volume \<Rightarrow> bitmap \<Rightarrow> ntfs_rl_element list \<Rightarrow> int \<Rightarrow> int \<Rightarrow>
   (errno \<times> lcn_volume \<times> bitmap \<times> int option) option" where
  "ntfs_cluster_free_from_rl ps vnode_get_err map_err vol bm xs start_vcn count =
     (if vnode_get_err \<noteq> EOK then Some (vnode_get_err, vol, bm, None)
      else map_option (\<lambda>(err, vol, bm, freed). (err, vol, bm, Some freed))
             (ntfs_cluster_free_from_rl_nolock ps map_err vol bm xs start_vcn count))"

section \<open>The search for free clusters\<close>

datatype alloc_zone = MFT_ZONE | DATA_ZONE

text \<open>
  The variables of \<open>ntfs_cluster_alloc\<close>. \<open>la_rl\<close> is the array of runs, empty for the null pointer,
  \<open>la_rlcount\<close> elements long. The zones are numbered 1 (mft), 2 (behind it) and 4 (in front of it).
\<close>

record la_state =
  la_vol :: lcn_volume
  la_bm :: bitmap
  la_rl :: "ntfs_rl_element list"
  la_rlpos :: nat
  la_rlcount :: nat
  prev_lcn :: int
  prev_run_len :: int
  clusters :: int
  zone_start :: int
  zone_end :: int
  bmp_pos :: int
  bmp_initial_pos :: int
  pass :: nat
  done_zones :: u8
  search_zone :: u8

record la_env =
  la_page_size :: nat
  la_data_size :: nat
  lcnbmp_data_size :: nat
  vnode_get_err :: errno
  map_page :: "la_state \<Rightarrow> errno"
  clear_err :: "int \<Rightarrow> bool \<Rightarrow> nat \<Rightarrow> errno"
  la_io :: rl_alloc

text \<open>The position at which the next search in a zone begins, after a run that ends at \<open>tc\<close>.\<close>

definition update_zone_pos :: "u8 \<Rightarrow> int \<Rightarrow> int \<Rightarrow> lcn_volume \<Rightarrow> lcn_volume option" where
  "update_zone_pos zone tc initial_pos vol =
     (if zone = 1 then Some
        (if mft_zone_end vol \<le> tc then vol\<lparr>mft_zone_pos := if mft_zone_end vol = 0 then 0 else mft_lcn vol\<rparr>
         else if (mft_zone_pos vol \<le> initial_pos \<or> mft_zone_pos vol < tc) \<and> mft_lcn vol \<le> tc
         then vol\<lparr>mft_zone_pos := tc\<rparr> else vol)
      else if zone = 2 then Some
        (if nr_clusters vol \<le> tc then vol\<lparr>data1_zone_pos := mft_zone_end vol\<rparr>
         else if (data1_zone_pos vol \<le> initial_pos \<or> data1_zone_pos vol < tc) \<and> mft_zone_end vol \<le> tc
         then vol\<lparr>data1_zone_pos := tc\<rparr> else vol)
      else if zone = 4 then Some
        (if mft_zone_start vol \<le> tc then vol\<lparr>data2_zone_pos := 0\<rparr>
         else if data2_zone_pos vol \<le> initial_pos \<or> data2_zone_pos vol < tc
         then vol\<lparr>data2_zone_pos := tc\<rparr> else vol)
      else None)"

text \<open>More memory for the runs, if there is no room for a run and the terminator.\<close>

definition la_grow :: "rl_alloc \<Rightarrow> la_state \<Rightarrow> la_state option option" where
  "la_grow io s =
     (if la_rlcount s < la_rlpos s + 2 then
        (case io (la_rlcount s + 42) of
           None \<Rightarrow> Some None
         | Some rl2 \<Rightarrow> do {
             rl2 \<leftarrow> copy_els rl2 0 (la_rl s) 0 (la_rlcount s);
             Some (Some (s\<lparr>la_rl := rl2, la_rlcount := la_rlcount s + 42\<rparr>)) })
      else Some (Some s))"

text \<open>The cluster \<open>c\<close> is added to the last run or begins a new one.\<close>

definition la_add_run :: "int \<Rightarrow> int \<Rightarrow> la_state \<Rightarrow> la_state option" where
  "la_add_run start_vcn c s =
     (if prev_lcn s = c - prev_run_len s \<and> la_rlpos s \<noteq> 0 then do {
        xs \<leftarrow> upd (la_rl s) (la_rlpos s - 1) (\<lambda>e. e\<lparr>rlen := prev_run_len s + 1\<rparr>);
        Some (s\<lparr>la_rl := xs, prev_run_len := prev_run_len s + 1\<rparr>) }
      else do {
        v \<leftarrow> (if la_rlpos s \<noteq> 0 then do { e \<leftarrow> rd (la_rl s) (la_rlpos s - 1); Some (vcn e + prev_run_len s) }
             else Some start_vcn);
        xs \<leftarrow> wr (la_rl s) (la_rlpos s) \<lparr>vcn = v, lcn = c, rlen = 1\<rparr>;
        Some (s\<lparr>la_rl := xs, prev_lcn := c, prev_run_len := 1, la_rlpos := la_rlpos s + 1\<rparr>) })"

text \<open>
  A clear bit: bit \<open>l\<close> of the buffer, in byte \<open>pos\<close> of the page at \<open>ofs\<close>, which holds \<open>x\<close>. With a
  result \<open>Some err\<close> the search is left with that error or, for 0, with all clusters allocated.
\<close>

definition la_take :: "rl_alloc \<Rightarrow> int \<Rightarrow> nat \<Rightarrow> nat \<Rightarrow> u8 \<Rightarrow> la_state \<Rightarrow> nat \<Rightarrow> (errno option \<times> la_state) option" where
  "la_take io start_vcn ofs pos x s l = do {
     g \<leftarrow> la_grow io s;
     case g of
       None \<Rightarrow> Some (Some ENOMEM, s)
     | Some s \<Rightarrow> do {
         p \<leftarrow> wr (la_bm s ofs) pos (x OR push_bit (l mod 8) 1);
         let c = int l + bmp_pos s;
         let vol = la_vol s;
         s \<leftarrow> la_add_run start_vcn c (s\<lparr>la_bm := (la_bm s)(ofs := p),
           la_vol := vol\<lparr>nr_free_clusters := max 0 (nr_free_clusters vol - 1)\<rparr>\<rparr>);
         let s = s\<lparr>clusters := clusters s - 1\<rparr>;
         if clusters s = 0 then do {
           vol \<leftarrow> update_zone_pos (search_zone s) (c + 1) (bmp_initial_pos s) (la_vol s);
           Some (Some EOK, s\<lparr>la_vol := vol\<rparr>) }
         else Some (None, s) } }"

text \<open>
  The inner loop, over the \<open>bsize\<close> bits of the mapped page from byte \<open>b\<close> on.
\<close>

function la_scan ::
  "rl_alloc \<Rightarrow> int \<Rightarrow> nat \<Rightarrow> nat \<Rightarrow> nat \<Rightarrow> la_state \<Rightarrow> nat \<Rightarrow> (errno option \<times> la_state) option" where
  "la_scan io start_vcn ofs b bsize s l =
     (if l < bsize \<and> int l + bmp_pos s < zone_end s then
        (case rd (la_bm s ofs) (b + l div 8) of
           None \<Rightarrow> None
         | Some x \<Rightarrow>
             if x = 0xff then la_scan io start_vcn ofs b bsize s ((l + 8) div 8 * 8)
             else if bit x (l mod 8) then la_scan io start_vcn ofs b bsize s (l + 1)
             else
               (case la_take io start_vcn ofs (b + l div 8) x s l of
                  None \<Rightarrow> None
                | Some (Some err, s) \<Rightarrow> Some (Some err, s)
                | Some (None, s) \<Rightarrow> la_scan io start_vcn ofs b bsize s (l + 1)))
      else Some (None, s))"
  by pat_completeness auto
termination
  by (relation "measure (\<lambda>(io, start_vcn, ofs, b, bsize, s, l). bsize - l)") auto

declare la_scan.simps [simp del]

section \<open>From zone to zone\<close>

text \<open>
  Where the search goes on: at the top of the outer loop, at the label \<open>done_zones_check\<close>, or
  at the label \<open>out\<close> with the value of \<open>err\<close>.
\<close>

datatype la_next = Again | Check | Out errno

text \<open>The second pass, over the first part of the zone.\<close>

definition second_pass :: "la_state \<Rightarrow> la_state option" where
  "second_pass s = do {
     z \<leftarrow> (if search_zone s = 1 then Some (mft_zone_start (la_vol s))
          else if search_zone s = 2 then Some (mft_zone_end (la_vol s))
          else if search_zone s = 4 then Some 0 else None);
     Some (s\<lparr>pass := 2, zone_start := z, zone_end := max (zone_start s) z, bmp_pos := z\<rparr>) }"

definition switch_to_data1_zone :: "la_state \<Rightarrow> la_state" where
  "switch_to_data1_zone s =
     (let vol = la_vol s; zstart = data1_zone_pos vol; zend = nr_clusters vol;
          s = s\<lparr>search_zone := 2, bmp_initial_pos := zstart, zone_end := zend\<rparr> in
      if zend \<le> zstart then
        s\<lparr>la_vol := vol\<lparr>data1_zone_pos := mft_zone_end vol\<rparr>, zone_start := mft_zone_end vol, bmp_pos := mft_zone_end vol, pass := 2\<rparr>
      else s\<lparr>zone_start := zstart, bmp_pos := zstart, pass := if zstart = mft_zone_end vol then 2 else 1\<rparr>)"

definition switch_to_data2_zone :: "la_state \<Rightarrow> la_state" where
  "switch_to_data2_zone s =
     (let vol = la_vol s; zstart = data2_zone_pos vol; zend = mft_zone_start vol;
          s = s\<lparr>search_zone := 4, zone_end := zend\<rparr> in
      if zend \<le> zstart then
        s\<lparr>la_vol := vol\<lparr>data2_zone_pos := 0\<rparr>, bmp_initial_pos := 0, zone_start := 0, bmp_pos := 0, pass := 2\<rparr>
      else s\<lparr>bmp_initial_pos := zstart, zone_start := zstart, bmp_pos := zstart, pass := if zstart = 0 then 2 else 1\<rparr>)"

definition switch_zone :: "la_state \<Rightarrow> la_state option" where
  "switch_zone s = do {
     vol \<leftarrow> (if la_rlpos s \<noteq> 0 then do {
         e \<leftarrow> rd (la_rl s) (la_rlpos s - 1);
         update_zone_pos (search_zone s) (lcn e + rlen e) (bmp_initial_pos s) (la_vol s) }
       else Some (la_vol s));
     let s = s\<lparr>la_vol := vol\<rparr>;
     if search_zone s = 1 \<or> search_zone s = 4 then Some (switch_to_data1_zone s)
     else if search_zone s = 2 then Some (switch_to_data2_zone s)
     else None }"

text \<open>The mft zone loses its second half to the data zone behind it, which is searched again there.\<close>

definition shrink_mft_zone :: "la_state \<Rightarrow> la_state" where
  "shrink_mft_zone s =
     (let vol = la_vol s;
          half = (mft_zone_end vol - mft_zone_start vol) div 2;
          vol' = (if 0 < half then vol\<lparr>mft_zone_end := mft_zone_start vol + half\<rparr>
                  else vol\<lparr>data2_zone_pos := 0, mft_zone_start := 0, mft_zone_end := 0\<rparr>);
          vol' = (if mft_zone_end vol' \<le> mft_zone_pos vol'
                  then vol'\<lparr>mft_zone_pos := if mft_zone_end vol' = 0 then 0 else mft_lcn vol'\<rparr> else vol');
          zstart = mft_zone_end vol' in
      s\<lparr>la_vol := vol'\<lparr>data1_zone_pos := zstart\<rparr>, zone_end := mft_zone_end vol,
        bmp_pos := zstart, zone_start := zstart, bmp_initial_pos := zstart,
        search_zone := 2, pass := 2, done_zones := done_zones s AND NOT 2\<rparr>)"

text \<open>The label \<open>done_zones_check\<close>.\<close>

definition zone_done :: "alloc_zone \<Rightarrow> la_state \<Rightarrow> (la_next \<times> la_state) option" where
  "zone_done zone s = do {
     let s = s\<lparr>done_zones := done_zones s OR search_zone s\<rparr>;
     if done_zones s < 7 then do {
       s \<leftarrow> switch_zone s;
       Some (if zone_start s = zone_end s then Check else Again, s) }
     else if zone = MFT_ZONE \<or> mft_zone_end (la_vol s) - mft_zone_start (la_vol s) \<le> 0 then Some (Out ENOSPC, s)
     else Some (Again, shrink_mft_zone s) }"

text \<open>The label \<open>zone_pass_done\<close>.\<close>

definition zone_pass_done :: "alloc_zone \<Rightarrow> la_state \<Rightarrow> (la_next \<times> la_state) option" where
  "zone_pass_done zone s =
     (if pass s = 1 then do { s \<leftarrow> second_pass s; Some (Again, s) } else zone_done zone s)"

text \<open>The body of the outer loop. A page at a negative offset does not exist.\<close>

definition search_page :: "la_env \<Rightarrow> alloc_zone \<Rightarrow> int \<Rightarrow> la_state \<Rightarrow> (la_next \<times> la_state) option" where
  "search_page env zone start_vcn s =
     (let last_read_pos = bmp_pos s div 8; data_size = la_data_size env; ps = la_page_size env in
      if int data_size < last_read_pos then zone_pass_done zone s
      else if last_read_pos < 0 then None
      else if map_page env s \<noteq> EOK then Some (Out (map_page env s), s)
      else let
        pos = nat last_read_pos;
        b = pos mod ps;
        bsize = 8 * (if data_size < pos + (ps - b) then data_size - pos else ps - b) in do {
        (r, s) \<leftarrow> la_scan (la_io env) start_vcn (pos div ps * ps) b bsize
          (s\<lparr>bmp_pos := bmp_pos s div 8 * 8\<rparr>) (nat (bmp_pos s mod 8));
        case r of
          Some err \<Rightarrow> Some (Out err, s)
        | None \<Rightarrow>
            let s = s\<lparr>bmp_pos := bmp_pos s + int bsize\<rparr> in
            if bmp_pos s < zone_end s then Some (Again, s) else zone_pass_done zone s })"

partial_function (option) search_clusters ::
  "la_env \<Rightarrow> alloc_zone \<Rightarrow> int \<Rightarrow> la_next \<Rightarrow> la_state \<Rightarrow> (errno \<times> la_state) option" where
  "search_clusters env zone start_vcn next s =
     (case next of
        Out err \<Rightarrow> Some (err, s)
      | Again \<Rightarrow> do { (next, s) \<leftarrow> search_page env zone start_vcn s; search_clusters env zone start_vcn next s }
      | Check \<Rightarrow> do { (next, s) \<leftarrow> zone_done zone s; search_clusters env zone start_vcn next s })"

declare search_clusters.simps [code]
declare cap_zone.simps [code]

section \<open>The allocator\<close>

definition first_zone :: "alloc_zone \<Rightarrow> lcn_volume \<Rightarrow> bitmap \<Rightarrow> int \<Rightarrow> int \<Rightarrow> la_state" where
  "first_zone zone vol bm count start_lcn =
     (let (zstart, p) =
        (if start_lcn < 0 then
           let z = (if zone = DATA_ZONE then data1_zone_pos vol else mft_zone_pos vol) in (z, if z = 0 then 2 else 1)
         else if zone = DATA_ZONE \<and> mft_zone_start vol \<le> start_lcn \<and> start_lcn < mft_zone_end vol then (mft_zone_end vol, 2)
         else if zone = MFT_ZONE \<and> (start_lcn < mft_zone_start vol \<or> mft_zone_end vol \<le> start_lcn)
         then (if mft_zone_end vol = 0 then 0 else mft_lcn vol, 2)
         else (start_lcn, 1));
        (zend, search, dz) =
          (if zone = MFT_ZONE then (mft_zone_end vol, 1, 0)
           else if mft_zone_end vol \<le> zstart then (nr_clusters vol, 2, 1)
           else (mft_zone_start vol, 4, 1)) in
      \<lparr>la_vol = vol, la_bm = bm, la_rl = [], la_rlpos = 0, la_rlcount = 0, prev_lcn = 0, prev_run_len = 0,
       clusters = count, zone_start = zstart, zone_end = zend, bmp_pos = zstart, bmp_initial_pos = zstart,
       pass = p, done_zones = dz, search_zone = search\<rparr>)"

definition la_terminate :: "bool \<Rightarrow> la_state \<Rightarrow> ntfs_rl_element list option" where
  "la_terminate is_extension s =
     (if la_rl s = [] then Some []
      else if la_rlpos s = 0 then None
      else do {
        e \<leftarrow> rd (la_rl s) (la_rlpos s - 1);
        wr (la_rl s) (la_rlpos s)
          \<lparr>vcn = vcn e + rlen e, lcn = if is_extension then LCN_ENOENT else LCN_RL_NOT_MAPPED, rlen = 0\<rparr> })"

text \<open>
  Before a success is returned the code also calls \<open>buf_invalblkno\<close> for every block of the new
  clusters, again and again until the call succeeds, so that no buffer of a deleted file is written
  over them later. The buffer cache is not part of the state, and the loop is taken to end.
\<close>

definition ntfs_cluster_alloc ::
  "la_env \<Rightarrow> lcn_volume \<Rightarrow> bitmap \<Rightarrow> int \<Rightarrow> int \<Rightarrow> int \<Rightarrow> alloc_zone \<Rightarrow> bool \<Rightarrow> ntfs_runlist \<Rightarrow>
   (errno \<times> lcn_volume \<times> bitmap \<times> ntfs_runlist) option" where
  "ntfs_cluster_alloc env vol bm start_vcn count start_lcn zone is_extension r =
     (if start_vcn < 0 \<or> count < 0 \<or> start_lcn < - 1 then None
      else if count = 0 then Some (EOK, vol, bm, \<lparr>rl = [], elements = 0, alloc_count = 0\<rparr>)
      else if vnode_get_err env \<noteq> EOK then Some (vnode_get_err env, vol, bm, r)
      else if la_data_size env \<noteq> lcnbmp_data_size env then None
      else do {
        (err, s) \<leftarrow> search_clusters env zone start_vcn Again (first_zone zone vol bm count start_lcn);
        xs \<leftarrow> la_terminate is_extension s;
        if err = EOK then
          Some (EOK, la_vol s, la_bm s, \<lparr>rl = xs, elements = la_rlpos s + 1, alloc_count = la_rlcount s\<rparr>)
        else if xs \<noteq> [] then do {
          (err2, vol, bm, freed) \<leftarrow>
            ntfs_cluster_free_from_rl_nolock (la_page_size env) (clear_err env) (la_vol s) (la_bm s) xs 0 (- 1);
          Some (err, set_errors (err2 \<noteq> EOK) vol, bm, r) }
        else Some (err, la_vol s, la_bm s, r) })"

section \<open>Clusters in use and the zones\<close>

text \<open>A cluster is in use if its bit is set.\<close>

definition in_use :: "nat \<Rightarrow> bitmap \<Rightarrow> int \<Rightarrow> bool" where
  "in_use ps bm c \<longleftrightarrow> 0 \<le> c \<and> bm_bit ps bm (nat c)"

definition run_clusters :: "ntfs_rl_element list \<Rightarrow> int set" where
  "run_clusters xs = (\<Union>e \<in> set xs. {lcn e..<lcn e + rlen e})"

lemma run_clusters_simps [simp]:
  "run_clusters [] = {}" "run_clusters (e # es) = {lcn e..<lcn e + rlen e} \<union> run_clusters es"
  "run_clusters (xs @ ys) = run_clusters xs \<union> run_clusters ys"
  by (auto simp: run_clusters_def)

lemma finite_run_clusters [simp]: "finite (run_clusters xs)"
  by (simp add: run_clusters_def)

lemma run_clusters_nonneg: "\<forall>e \<in> set xs. 0 \<le> lcn e \<Longrightarrow> c \<in> run_clusters xs \<Longrightarrow> 0 \<le> c"
  by (auto simp: run_clusters_def dest!: bspec)

lemma range_set_in_use:
  assumes "range_set ps bm bm' a b v" "0 \<le> i"
  shows "in_use ps bm' i = (if int a \<le> i \<and> i < int b then v else in_use ps bm i)"
  using assms by (auto simp: range_set_def in_use_def nat_le_iff nat_less_iff le_nat_iff zless_nat_eq_int_zless)

text \<open>
  The zones and the positions in them lie in the volume, in their order, and the position in a
  data zone lies in that zone.
\<close>

definition zones_ok :: "lcn_volume \<Rightarrow> bool" where
  "zones_ok vol \<longleftrightarrow>
     0 \<le> mft_zone_start vol \<and> mft_zone_start vol \<le> mft_zone_end vol \<and> mft_zone_end vol \<le> nr_clusters vol \<and>
     mft_zone_end vol \<le> data1_zone_pos vol \<and> data1_zone_pos vol \<le> nr_clusters vol \<and>
     0 \<le> data2_zone_pos vol \<and> data2_zone_pos vol \<le> mft_zone_start vol \<and>
     0 \<le> mft_zone_pos vol \<and> mft_zone_pos vol \<le> nr_clusters vol \<and> 0 \<le> mft_lcn vol \<and> mft_lcn vol \<le> nr_clusters vol"

definition same_zones :: "lcn_volume \<Rightarrow> lcn_volume \<Rightarrow> bool" where
  "same_zones vol vol' \<longleftrightarrow> nr_clusters vol' = nr_clusters vol \<and> mft_lcn vol' = mft_lcn vol \<and>
     mft_zone_start vol' = mft_zone_start vol \<and> mft_zone_end vol' = mft_zone_end vol \<and> vol_errors vol' = vol_errors vol"

lemma same_zones_trans: "same_zones u v \<Longrightarrow> same_zones v w \<Longrightarrow> same_zones u w"
  by (simp add: same_zones_def)

lemma update_zone_pos_ok:
  assumes "zone \<in> {1, 2, 4}" "zones_ok vol" "0 \<le> tc"
  obtains vol' where "update_zone_pos zone tc p vol = Some vol'" "zones_ok vol'" "same_zones vol vol'"
    "nr_free_clusters vol' = nr_free_clusters vol"
  using assms by (auto simp: update_zone_pos_def zones_ok_def same_zones_def split: if_splits)

definition volume_ok :: "lcn_volume \<Rightarrow> bool" where
  "volume_ok vol \<longleftrightarrow> zones_ok vol \<and> 0 \<le> nr_free_clusters vol \<and> nr_free_clusters vol \<le> nr_clusters vol"

end
