(* ===== verification/NTFS_Lcnalloc_Search.thy ===== *)
theory NTFS_Lcnalloc_Search
  imports NTFS_Lcnalloc
begin

unbundle bit_operations_syntax

text \<open>
  The search of \<open>ntfs_cluster_alloc\<close>: the invariant of its loops, that they keep it and make
  progress, and what is known when the search ends.
\<close>

section \<open>What the search has taken\<close>

lemma la_add_run_spec:
  assumes "la_rl s = xs @ g" "length xs = la_rlpos s" "2 \<le> length g"
    "rl_chain sv xs m" "\<forall>e \<in> set xs. 0 \<le> lcn e" "0 \<le> c"
    "xs \<noteq> [] \<longrightarrow> lcn (last xs) = prev_lcn s \<and> rlen (last xs) = prev_run_len s"
  obtains xs' g' p n where "la_add_run sv c s =
      Some (s\<lparr>la_rl := xs' @ g', la_rlpos := length xs', prev_lcn := p, prev_run_len := n\<rparr>)"
    "g' \<noteq> []" "xs' \<noteq> []" "length xs' + length g' = length xs + length g" "rl_chain sv xs' (m + 1)"
    "\<forall>e \<in> set xs'. 0 \<le> lcn e" "lcn (last xs') = p" "rlen (last xs') = n" "run_clusters xs' = insert c (run_clusters xs)"
proof (cases "prev_lcn s = c - prev_run_len s \<and> la_rlpos s \<noteq> 0")
  case True
  then obtain pre e where xs: "xs = pre @ [e]" using assms(2) by (cases xs rule: rev_cases) auto
  let ?e = "e\<lparr>rlen := prev_run_len s + 1\<rparr>"
  have e: "lcn e = prev_lcn s" "rlen e = prev_run_len s" "0 < rlen e" using assms(4,7) xs by (auto simp: rl_simps)
  have "la_add_run sv c s = Some (s\<lparr>la_rl := (pre @ [?e]) @ g, la_rlpos := length (pre @ [?e]),
      prev_lcn := prev_lcn s, prev_run_len := prev_run_len s + 1\<rparr>)"
    unfolding la_add_run_def if_P [OF True] using assms(1,2) xs
    by (cases s) (auto simp: mem_simps nth_append list_update_append)
  then show thesis
    by (rule that) (use assms xs e True in \<open>auto simp: rl_simps\<close>)
next
  case False
  obtain y g' where g: "g = y # g'" "g' \<noteq> []" using assms(3) by (cases g; cases "tl g") auto
  let ?e = "\<lparr>vcn = m, lcn = c, rlen = 1\<rparr>"
  have v: "(if la_rlpos s \<noteq> 0 then do { e \<leftarrow> rd (la_rl s) (la_rlpos s - 1); Some (vcn e + prev_run_len s) }
             else Some sv) = Some m"
    using assms(1,4,7) assms(2) [symmetric] by (cases xs rule: rev_cases) (auto simp: mem_simps rl_simps)
  have w: "wr (la_rl s) (la_rlpos s) ?e = Some ((xs @ [?e]) @ g')"
    unfolding assms(1) assms(2) [symmetric] g by (simp add: mem_simps)
  have "la_add_run sv c s = Some (s\<lparr>la_rl := (xs @ [?e]) @ g', la_rlpos := length (xs @ [?e]),
      prev_lcn := c, prev_run_len := 1\<rparr>)"
    unfolding la_add_run_def if_not_P [OF False] v bind.bind_lunit w using assms(2) by simp
  then show thesis
    by (rule that) (use assms g in \<open>auto simp: rl_simps\<close>)
qed

text \<open>The variables that say where the search is.\<close>

definition same_search :: "la_state \<Rightarrow> la_state \<Rightarrow> bool" where
  "same_search s s' \<longleftrightarrow> zone_start s' = zone_start s \<and> zone_end s' = zone_end s \<and> bmp_pos s' = bmp_pos s \<and>
     bmp_initial_pos s' = bmp_initial_pos s \<and> pass s' = pass s \<and> done_zones s' = done_zones s \<and> search_zone s' = search_zone s"

lemma same_search_trans: "same_search r s \<Longrightarrow> same_search s t \<Longrightarrow> same_search r t"
  by (simp add: same_search_def)

abbreviation la_runs :: "la_state \<Rightarrow> ntfs_rl_element list" where
  "la_runs s \<equiv> take (la_rlpos s) (la_rl s)"

text \<open>
  What the search has taken of the bitmap \<open>bm0\<close> it began with: the runs so far are those of a
  well-formed runlist, the bits of their clusters are the only ones that have changed, they were
  clear, and no cluster is in the runs twice.
\<close>

definition taken :: "nat \<Rightarrow> bitmap \<Rightarrow> lcn_volume \<Rightarrow> int \<Rightarrow> int \<Rightarrow> la_state \<Rightarrow> bool" where
  "taken ps bm0 vol0 sv count s \<longleftrightarrow>
     length (la_rl s) = la_rlcount s \<and>
     (la_rl s = [] \<and> la_rlpos s = 0 \<or> 0 < la_rlpos s \<and> la_rlpos s < la_rlcount s) \<and>
     rl_chain sv (la_runs s) (sv + (count - clusters s)) \<and> (\<forall>e \<in> set (la_runs s). 0 \<le> lcn e) \<and>
     (la_runs s \<noteq> [] \<longrightarrow> lcn (last (la_runs s)) = prev_lcn s \<and> rlen (last (la_runs s)) = prev_run_len s) \<and>
     full_pages ps (la_bm s) \<and>
     (\<forall>c. in_use ps (la_bm s) c \<longleftrightarrow> in_use ps bm0 c \<or> c \<in> run_clusters (la_runs s)) \<and>
     (\<forall>c \<in> run_clusters (la_runs s). \<not> in_use ps bm0 c \<and> c < nr_clusters (la_vol s)) \<and>
     int (card (run_clusters (la_runs s))) = count - clusters s \<and>
     nr_free_clusters (la_vol s) = max 0 (nr_free_clusters vol0 - (count - clusters s)) \<and>
     nr_clusters (la_vol s) = nr_clusters vol0 \<and> mft_lcn (la_vol s) = mft_lcn vol0 \<and> vol_errors (la_vol s) = vol_errors vol0"

text \<open>
  Memory for the runs of \<open>count\<close> clusters is asked for in arrays of at most \<open>count + 43\<close>
  elements, as every run has a cluster.
\<close>

definition no_memory :: "rl_alloc \<Rightarrow> int \<Rightarrow> bool" where
  "no_memory io count \<longleftrightarrow> (\<exists>n. int n \<le> count + 43 \<and> io n = None)"

lemma rl_chain_length: "rl_chain s xs t \<Longrightarrow> int (length xs) \<le> t - s"
  by (induction xs arbitrary: s) force+

lemma la_grow_spec:
  assumes "alloc_ok io" "taken ps bm0 vol0 sv count s" "0 < clusters s"
  obtains (nomem) "la_grow io s = Some None" "no_memory io count"
  | (room) g where "la_grow io s = Some (Some (s\<lparr>la_rl := la_runs s @ g, la_rlcount := la_rlpos s + length g\<rparr>))"
      "2 \<le> length g"
proof -
  have len: "length (la_rl s) = la_rlcount s" "la_rlpos s \<le> la_rlcount s" using assms(2) by (auto simp: taken_def)
  have split: "la_rl s = la_runs s @ drop (la_rlpos s) (la_rl s)" by simp
  show thesis
  proof (cases "la_rlcount s < la_rlpos s + 2")
    case False
    then have "la_grow io s = Some (Some (s\<lparr>la_rl := la_runs s @ drop (la_rlpos s) (la_rl s),
        la_rlcount := la_rlpos s + length (drop (la_rlpos s) (la_rl s))\<rparr>))"
      using len by (simp add: la_grow_def)
    then show thesis by (rule room) (use False len in simp)
  next
    case True
    show thesis
    proof (cases "io (la_rlcount s + 42)")
      case None
      have "rl_chain sv (la_runs s) (sv + (count - clusters s))" "length (la_runs s) = la_rlpos s"
        using assms(2) len by (auto simp: taken_def)
      then have "int (la_rlcount s + 42) \<le> count + 43" using rl_chain_length True assms(3) by fastforce
      then have "no_memory io count" unfolding no_memory_def using None by blast
      then show thesis using True None nomem by (simp add: la_grow_def)
    next
      case (Some b)
      then have b: "length b = la_rlcount s + 42" using assms(1) by (auto simp: alloc_ok_def)
      have "copy_els b 0 (la_rl s) 0 (la_rlcount s) = Some (la_rl s @ drop (la_rlcount s) b)"
        using b len by (auto simp: copy_els_def)
      also have "la_rl s @ drop (la_rlcount s) b = la_runs s @ (drop (la_rlpos s) (la_rl s) @ drop (la_rlcount s) b)"
        by (subst split) (simp only: append_assoc)
      finally show thesis using True Some b len
        by (intro room [of "drop (la_rlpos s) (la_rl s) @ drop (la_rlcount s) b"]) (simp_all add: la_grow_def)
    qed
  qed
qed

lemma set_bit_in_use:
  assumes "full_pages ps bm" "pos < ps" "c = int (8 * (q * ps + pos) + k)" "k < 8"
  shows "full_pages ps (bm(q * ps := (bm (q * ps))[pos := (bm (q * ps) ! pos) OR push_bit k 1]))"
    "in_use ps (bm(q * ps := (bm (q * ps))[pos := (bm (q * ps) ! pos) OR push_bit k 1])) d \<longleftrightarrow> in_use ps bm d \<or> d = c"
proof -
  let ?x = "bm (q * ps) ! pos"
  let ?bm = "bm(q * ps := (bm (q * ps))[pos := ?x OR push_bit k 1])"
  have x: "?x OR push_bit k 1 = put_bit True k ?x" by (simp add: put_bit_def)
  have "bit (put_bit True k ?x) m = (if k \<le> m \<and> m < k + 1 then True else bit ?x m)" if "m < 8" for m
    using put_bit_bit [OF assms(4) that] by auto
  then have r: "range_set ps bm ?bm (8 * (q * ps + pos) + k) (8 * (q * ps + pos) + (k + 1)) True"
    unfolding x using assms(4) by (intro set_byte_bits [OF assms(1,2)]) auto
  then show "full_pages ps ?bm" by (rule range_set_full)
  show "in_use ps ?bm d \<longleftrightarrow> in_use ps bm d \<or> d = c"
  proof (cases "0 \<le> d")
    case True
    then show ?thesis using range_set_in_use [OF r True] assms(3) by auto
  qed (auto simp: in_use_def assms(3))
qed

lemma page_bit_in_use:
  assumes "pos < ps" "c = int (8 * (q * ps + pos) + k)" "k < 8"
  shows "in_use ps bm c \<longleftrightarrow> bit (bm (q * ps) ! pos) k"
proof -
  have "(8 * (q * ps + pos) + k) div 8 = q * ps + pos" "(8 * (q * ps + pos) + k) mod 8 = k"
    using assms(3) by (simp_all only: mult.commute [of 8] div_mult_self3 mod_mult_self3) simp_all
  then show ?thesis using assms(1,2) by (simp only: in_use_def bm_bit_def bm_byte_def nat_int) simp
qed

lemma taken_add:
  assumes "taken ps bm0 vol0 sv count s" "\<not> in_use ps (la_bm s) c" "0 \<le> c" "c < nr_clusters (la_vol s)"
    "la_rl s' = xs @ g" "la_rlpos s' = length xs" "la_rlcount s' = length xs + length g" "xs \<noteq> []" "g \<noteq> []"
    "rl_chain sv xs (sv + (count - clusters s) + 1)" "\<forall>e \<in> set xs. 0 \<le> lcn e"
    "lcn (last xs) = prev_lcn s'" "rlen (last xs) = prev_run_len s'" "run_clusters xs = insert c (run_clusters (la_runs s))"
    "full_pages ps (la_bm s')" "\<And>d. in_use ps (la_bm s') d \<longleftrightarrow> in_use ps (la_bm s) d \<or> d = c"
    "clusters s' = clusters s - 1" "same_zones (la_vol s) (la_vol s')"
    "nr_free_clusters (la_vol s') = max 0 (nr_free_clusters (la_vol s) - 1)"
  shows "taken ps bm0 vol0 sv count s'"
proof -
  note t = assms(1) [unfolded taken_def]
  have runs: "la_runs s' = xs" using assms(5,6) by simp
  have "c \<notin> run_clusters (la_runs s)" "\<not> in_use ps bm0 c" using assms(2) t by blast+
  moreover from this have "int (card (run_clusters xs)) = count - clusters s'" using assms(14,17) t by simp
  moreover have "rl_chain sv xs (sv + (count - clusters s'))" using assms(10) unfolding assms(17) by (simp add: algebra_simps)
  moreover have "nr_free_clusters (la_vol s') = max 0 (nr_free_clusters vol0 - (count - clusters s'))" using assms(17,19) t by linarith
  ultimately show ?thesis unfolding taken_def runs using t assms by (auto simp: same_zones_def)
qed

lemma la_take_spec:
  assumes "alloc_ok io" "taken ps bm0 vol0 sv count s" "0 < clusters s" "zones_ok (la_vol s)" "search_zone s \<in> {1, 2, 4}"
    "pos < ps" "int l + bmp_pos s = int (8 * (q * ps + pos) + l mod 8)" "int l + bmp_pos s < nr_clusters (la_vol s)"
    "\<not> bit (la_bm s (q * ps) ! pos) (l mod 8)"
  obtains (nomem) "la_take io sv (q * ps) pos (la_bm s (q * ps) ! pos) s l = Some (Some ENOMEM, s)" "no_memory io count"
  | (took) s' where "la_take io sv (q * ps) pos (la_bm s (q * ps) ! pos) s l =
        Some (if clusters s' = 0 then Some EOK else None, s')"
      "clusters s' = clusters s - 1" "taken ps bm0 vol0 sv count s'" "zones_ok (la_vol s')"
      "same_search s s'" "same_zones (la_vol s) (la_vol s')"
      "\<And>d. in_use ps (la_bm s') d \<longleftrightarrow> in_use ps (la_bm s) d \<or> d = int l + bmp_pos s"
proof -
  note t = assms(2) [unfolded taken_def]
  define c where "c = int l + bmp_pos s"
  define bm where "bm = (la_bm s)(q * ps := (la_bm s (q * ps))[pos := (la_bm s (q * ps) ! pos) OR push_bit (l mod 8) 1])"
  define vol where "vol = (la_vol s)\<lparr>nr_free_clusters := max 0 (nr_free_clusters (la_vol s) - 1)\<rparr>"
  have full: "full_pages ps (la_bm s)" and page: "length (la_bm s (q * ps)) = ps"
    using t by (auto simp: full_pages_def)
  have cn: "c = int (8 * (q * ps + pos) + l mod 8)" "0 \<le> c" using assms(7) by (simp_all add: c_def)
  have mod: "l mod 8 < 8" by simp
  note upd = set_bit_in_use [OF full assms(6) cn(1) mod, folded bm_def]
  have free: "\<not> in_use ps (la_bm s) c" using page_bit_in_use [OF assms(6) cn(1) mod] assms(9) by simp
  have wr: "wr (la_bm s (q * ps)) pos ((la_bm s (q * ps) ! pos) OR push_bit (l mod 8) 1) = Some (bm (q * ps))"
    using page assms(6) by (simp add: mem_simps bm_def)
  show thesis
  proof (rule la_grow_spec [OF assms(1,2,3)], goal_cases)
    case 1
    then show ?case by (intro nomem) (simp_all add: la_take_def)
  next
    case (2 g)
    let ?s = "s\<lparr>la_rl := la_runs s @ g, la_rlcount := la_rlpos s + length g, la_bm := bm, la_vol := vol\<rparr>"
    have len: "length (la_runs s) = la_rlpos s" using t by auto
    obtain xs' g' p n where a: "la_add_run sv c ?s =
        Some (?s\<lparr>la_rl := xs' @ g', la_rlpos := length xs', prev_lcn := p, prev_run_len := n\<rparr>)"
      "g' \<noteq> []" "xs' \<noteq> []" "length xs' + length g' = length (la_runs s) + length g" "rl_chain sv xs' (sv + (count - clusters s) + 1)"
      "\<forall>e \<in> set xs'. 0 \<le> lcn e" "lcn (last xs') = p" "rlen (last xs') = n"
      "run_clusters xs' = insert c (run_clusters (la_runs s))"
      by (rule la_add_run_spec [of ?s "la_runs s" g sv "sv + (count - clusters s)" c]) (use t cn(2) len 2(2) in simp_all)
    let ?t = "?s\<lparr>la_rl := xs' @ g', la_rlpos := length xs', prev_lcn := p, prev_run_len := n, clusters := clusters s - 1\<rparr>"
    have tt: "taken ps bm0 vol0 sv count (?t\<lparr>la_vol := v\<rparr>)"
      if "same_zones (la_vol s) v" "nr_free_clusters v = max 0 (nr_free_clusters (la_vol s) - 1)" for v
      by (rule taken_add [OF assms(2) free cn(2), where xs = xs' and g = g'])
        (use that a len upd assms(8) in \<open>simp_all add: c_def [symmetric]\<close>)
    have z: "zones_ok vol" "same_zones (la_vol s) vol" "nr_clusters vol = nr_clusters (la_vol s)"
      "nr_free_clusters vol = max 0 (nr_free_clusters (la_vol s) - 1)"
      using assms(4) by (simp_all add: vol_def zones_ok_def same_zones_def)
    obtain vol' where v: "update_zone_pos (search_zone s) (c + 1) (bmp_initial_pos s) vol = Some vol'"
      "zones_ok vol'" "same_zones vol vol'" "nr_free_clusters vol' = nr_free_clusters vol"
      using update_zone_pos_ok [OF assms(5) z(1), of "c + 1"] cn(2) by auto
    define v where "v = (if clusters s - 1 = 0 then vol' else vol)"
    have v': "zones_ok v" "same_zones (la_vol s) v" "nr_clusters v = nr_clusters (la_vol s)"
      "nr_free_clusters v = max 0 (nr_free_clusters (la_vol s) - 1)"
      using z v same_zones_trans [OF z(2) v(3)] by (auto simp: v_def same_zones_def)
    let ?t' = "?t\<lparr>la_vol := v\<rparr>"
    have run: "la_take io sv (q * ps) pos (la_bm s (q * ps) ! pos) s l =
        Some (if clusters ?t' = 0 then Some EOK else None, ?t')"
      using 2(1) a(1) v(1) wr by (simp add: la_take_def c_def [symmetric] vol_def [symmetric] Let_def bm_def v_def)
    show ?case
      by (rule took [OF run]) (use tt [OF v'(2,4)] v' upd in \<open>simp_all add: same_search_def c_def [symmetric]\<close>)
  qed
qed

text \<open>What the scan of a page keeps.\<close>

definition scan_keeps :: "nat \<Rightarrow> bitmap \<Rightarrow> lcn_volume \<Rightarrow> int \<Rightarrow> int \<Rightarrow> la_state \<Rightarrow> la_state \<Rightarrow> bool" where
  "scan_keeps ps bm0 vol0 sv count s s' \<longleftrightarrow> taken ps bm0 vol0 sv count s' \<and> zones_ok (la_vol s') \<and>
     same_search s s' \<and> same_zones (la_vol s) (la_vol s') \<and> (\<forall>d. in_use ps (la_bm s) d \<longrightarrow> in_use ps (la_bm s') d)"

lemma scan_keeps_refl: "taken ps bm0 vol0 sv count s \<Longrightarrow> zones_ok (la_vol s) \<Longrightarrow> scan_keeps ps bm0 vol0 sv count s s"
  by (simp add: scan_keeps_def same_search_def same_zones_def)

lemma scan_keeps_trans:
  "scan_keeps ps bm0 vol0 sv count r s \<Longrightarrow> scan_keeps ps bm0 vol0 sv count s t \<Longrightarrow> scan_keeps ps bm0 vol0 sv count r t"
  by (auto simp: scan_keeps_def same_search_def same_zones_def)

text \<open>
  What it returns: all clusters, no memory, or the end of the buffer, which has no clear bit
  from bit \<open>l\<close> on.
\<close>

definition scan_result :: "rl_alloc \<Rightarrow> int \<Rightarrow> nat \<Rightarrow> nat \<Rightarrow> la_state \<Rightarrow> nat \<Rightarrow> errno option \<Rightarrow> la_state \<Rightarrow> bool" where
  "scan_result io count ps bsize s l r s' \<longleftrightarrow>
     r = Some EOK \<and> clusters s' = 0 \<or> r = Some ENOMEM \<and> no_memory io count \<and> 0 < clusters s' \<or>
     r = None \<and> 0 < clusters s' \<and>
     (\<forall>d. bmp_pos s + int l \<le> d \<and> d < bmp_pos s + int bsize \<and> d < zone_end s \<longrightarrow> in_use ps (la_bm s') d)"

lemma scan_result_extend:
  assumes "scan_result io count ps bsize s m r s'" "\<And>d. bmp_pos s + int l \<le> d \<Longrightarrow> d < bmp_pos s + int m \<Longrightarrow> in_use ps (la_bm s') d"
  shows "scan_result io count ps bsize s l r s'"
  using assms unfolding scan_result_def by (meson linorder_not_less)

lemma full_byte: "k < 8 \<Longrightarrow> bit (0xff :: u8) k"
  by (simp add: less_Suc_eq numeral_eq_Suc) (elim disjE; simp)

lemma la_scan_spec:
  assumes "alloc_ok io" "bsize \<le> 8 * (ps - b)"
    "taken ps bm0 vol0 sv count s" "0 < clusters s" "zones_ok (la_vol s)" "search_zone s \<in> {1, 2, 4}"
    "bmp_pos s = int (8 * (q * ps + b))" "zone_end s \<le> nr_clusters (la_vol s)"
  shows "\<exists>r s'. la_scan io sv (q * ps) b bsize s l = Some (r, s') \<and> scan_keeps ps bm0 vol0 sv count s s' \<and>
    scan_result io count ps bsize s l r s'"
  using assms(3-)
proof (induction "bsize - l" arbitrary: s l rule: less_induct)
  case less
  note step = la_scan.simps [of io sv "q * ps" b bsize s l]
  show ?case
  proof (cases "l < bsize \<and> int l + bmp_pos s < zone_end s")
    case False
    then show ?thesis using step scan_keeps_refl [OF less.prems(1,3)] less.prems(2) by (auto simp: scan_result_def)
  next
    case True
    let ?pos = "b + l div 8"
    have "l < (ps - b) * 8" using True assms(2) by linarith
    then have "l div 8 < ps - b" by (rule less_mult_imp_div_less)
    then have pos: "?pos < ps" by linarith
    then have x: "rd (la_bm s (q * ps)) ?pos = Some (la_bm s (q * ps) ! ?pos)"
      using less.prems(1) by (auto simp: taken_def full_pages_def mem_simps)
    have c: "int l + bmp_pos s = int (8 * (q * ps + ?pos) + l mod 8)"
      unfolding less.prems(5) using div_mult_mod_eq [of l 8] by (simp add: algebra_simps flip: of_nat_add of_nat_mult)
    have used: "in_use ps (la_bm s) (int l + bmp_pos s) \<longleftrightarrow> bit (la_bm s (q * ps) ! ?pos) (l mod 8)"
      by (rule page_bit_in_use [OF pos c]) simp
    have skip: ?thesis
      if IH: "\<exists>r s'. la_scan io sv (q * ps) b bsize s m = Some (r, s') \<and> scan_keeps ps bm0 vol0 sv count s s' \<and>
          scan_result io count ps bsize s m r s'"
        and eq: "la_scan io sv (q * ps) b bsize s l = la_scan io sv (q * ps) b bsize s m"
        and all: "\<And>d. bmp_pos s + int l \<le> d \<Longrightarrow> d < bmp_pos s + int m \<Longrightarrow> in_use ps (la_bm s) d" for m
    proof -
      obtain r s' where r: "la_scan io sv (q * ps) b bsize s m = Some (r, s')" "scan_keeps ps bm0 vol0 sv count s s'"
        "scan_result io count ps bsize s m r s'" using IH by blast
      have "in_use ps (la_bm s') d" if "bmp_pos s + int l \<le> d" "d < bmp_pos s + int m" for d
        using all [OF that] r(2) by (simp add: scan_keeps_def)
      then show ?thesis using r eq scan_result_extend [OF r(3)] by auto
    qed
    show ?thesis
    proof (cases "la_bm s (q * ps) ! ?pos = 0xff")
      case ff: True
      let ?m = "(l + 8) div 8 * 8"
      have m: "l < ?m" "?m = 8 * (l div 8) + 8" by presburger+
      show ?thesis
      proof (rule skip [of ?m])
        show "la_scan io sv (q * ps) b bsize s l = la_scan io sv (q * ps) b bsize s ?m"
          using step True x ff by simp
        fix d assume d: "bmp_pos s + int l \<le> d" "d < bmp_pos s + int ?m"
        define e where "e = nat (d - bmp_pos s)"
        have e: "d = bmp_pos s + int e" "l \<le> e" "e < 8 * (l div 8) + 8" "8 * (l div 8) \<le> l"
          using d by (simp_all add: e_def m(2))
        have "e - 8 * (l div 8) < 8" "d = int (8 * (q * ps + ?pos) + (e - 8 * (l div 8)))"
          using e unfolding less.prems(5) by auto
        then show "in_use ps (la_bm s) d" using page_bit_in_use [OF pos] ff full_byte by simp
      qed (use less True m(1) in auto)
    next
      case nff: False
      show ?thesis
      proof (cases "bit (la_bm s (q * ps) ! ?pos) (l mod 8)")
        case True': True
        show ?thesis
        proof (rule skip [of "l + 1"])
          fix d assume "bmp_pos s + int l \<le> d" "d < bmp_pos s + int (l + 1)"
          then have "d = int l + bmp_pos s" by simp
          then show "in_use ps (la_bm s) d" using used True' by simp
        qed (use less True step x nff True' in auto)
      next
        case False
        have nr: "int l + bmp_pos s < nr_clusters (la_vol s)" using True less.prems(6) by simp
        show ?thesis
        proof (rule la_take_spec [OF assms(1) less.prems(1,2,3,4) pos c nr False], goal_cases)
          case 1
          then show ?case using step True x nff False scan_keeps_refl [OF less.prems(1,3)] less.prems(2)
            by (auto simp: scan_result_def)
        next
          case (2 s')
          have k: "scan_keeps ps bm0 vol0 sv count s s'" using 2 by (simp add: scan_keeps_def)
          show ?case
          proof (cases "clusters s' = 0")
            case True'': True
            then show ?thesis using step True x nff False 2(1) k by (auto simp: scan_result_def)
          next
            case more: False
            have same: "bmp_pos s' = bmp_pos s" "zone_end s' = zone_end s" "search_zone s' = search_zone s"
              "nr_clusters (la_vol s') = nr_clusters (la_vol s)" using 2(5,6) by (simp_all add: same_search_def same_zones_def)
            have "\<exists>r t. la_scan io sv (q * ps) b bsize s' (l + 1) = Some (r, t) \<and> scan_keeps ps bm0 vol0 sv count s' t \<and>
                scan_result io count ps bsize s' (l + 1) r t"
              by (rule less.hyps) (use True 2 more less.prems same in auto)
            then obtain r t where r: "la_scan io sv (q * ps) b bsize s' (l + 1) = Some (r, t)" "scan_keeps ps bm0 vol0 sv count s' t"
              "scan_result io count ps bsize s (l + 1) r t"
              unfolding scan_result_def same by blast
            have "in_use ps (la_bm t) (int l + bmp_pos s)" using r(2) 2(7) by (simp add: scan_keeps_def)
            then have "in_use ps (la_bm t) d" if "bmp_pos s + int l \<le> d" "d < bmp_pos s + int (l + 1)" for d
              using that by (cases "d = int l + bmp_pos s") auto
            moreover have "la_scan io sv (q * ps) b bsize s l = Some (r, t)" using step True x nff False 2(1) more r(1) by simp
            ultimately show ?thesis using scan_result_extend [OF r(3)] scan_keeps_trans [OF k r(2)] by auto
          qed
        qed
      qed
    qed
  qed
qed

section \<open>The search of all zones\<close>

abbreviation filled :: "nat \<Rightarrow> la_state \<Rightarrow> int \<Rightarrow> int \<Rightarrow> bool" where
  "filled ps s a b \<equiv> \<forall>d. a \<le> d \<and> d < b \<longrightarrow> in_use ps (la_bm s) d"

text \<open>The data zones.\<close>

definition zone_lo :: "lcn_volume \<Rightarrow> u8 \<Rightarrow> int" where
  "zone_lo vol z = (if z = 2 then mft_zone_end vol else 0)"

definition zone_hi :: "lcn_volume \<Rightarrow> u8 \<Rightarrow> int" where
  "zone_hi vol z = (if z = 2 then nr_clusters vol else mft_zone_start vol)"

lemma zone_range [simp]:
  "zone_lo vol 2 = mft_zone_end vol" "zone_lo vol 4 = 0" "zone_hi vol 2 = nr_clusters vol" "zone_hi vol 4 = mft_zone_start vol"
  by (simp_all add: zone_lo_def zone_hi_def)

definition zone_full :: "nat \<Rightarrow> la_state \<Rightarrow> u8 \<Rightarrow> bool" where
  "zone_full ps s z \<longleftrightarrow> filled ps s (zone_lo (la_vol s) z) (zone_hi (la_vol s) z)"

text \<open>Which zones have been searched when a zone is searched.\<close>

definition zone_order :: "alloc_zone \<Rightarrow> (u8 \<times> u8) set" where
  "zone_order zone = (if zone = MFT_ZONE then {(0, 1), (1, 2), (3, 4)} else {(1, 2), (1, 4), (3, 4), (5, 2)})"

definition zones_inv :: "la_env \<Rightarrow> alloc_zone \<Rightarrow> bitmap \<Rightarrow> lcn_volume \<Rightarrow> int \<Rightarrow> int \<Rightarrow> la_state \<Rightarrow> bool" where
  "zones_inv env zone bm0 vol0 sv count s \<longleftrightarrow>
     taken (la_page_size env) bm0 vol0 sv count s \<and> 0 < clusters s \<and> zones_ok (la_vol s) \<and>
     nr_clusters (la_vol s) \<le> 8 * int (la_data_size env) \<and> (done_zones s, search_zone s) \<in> zone_order zone \<and>
     (zone = DATA_ZONE \<longrightarrow> (done_zones s = 3 \<longrightarrow> zone_full (la_page_size env) s 2) \<and>
        (done_zones s = 5 \<longrightarrow> zone_full (la_page_size env) s 4))"

text \<open>
  At the top of the loop: the zone is searched from \<open>zone_start\<close> on, without a clear bit up to
  \<open>bmp_pos\<close>. In the second pass the part from \<open>zone_end\<close> on has been searched before.
\<close>

definition search_inv :: "la_env \<Rightarrow> alloc_zone \<Rightarrow> bitmap \<Rightarrow> lcn_volume \<Rightarrow> int \<Rightarrow> int \<Rightarrow> la_state \<Rightarrow> bool" where
  "search_inv env zone bm0 vol0 sv count s \<longleftrightarrow> zones_inv env zone bm0 vol0 sv count s \<and>
     0 \<le> zone_start s \<and> zone_start s \<le> nr_clusters (la_vol s) \<and> zone_end s \<le> nr_clusters (la_vol s) \<and>
     0 \<le> bmp_pos s \<and> (pass s = 1 \<or> pass s = 2) \<and>
     (zone = DATA_ZONE \<longrightarrow>
        filled (la_page_size env) s (zone_start s) (min (bmp_pos s) (zone_end s)) \<and>
        zone_lo (la_vol s) (search_zone s) \<le> zone_start s \<and>
        (pass s = 1 \<longrightarrow> zone_end s = zone_hi (la_vol s) (search_zone s)) \<and>
        (pass s = 2 \<longrightarrow> zone_start s = zone_lo (la_vol s) (search_zone s) \<and>
           filled (la_page_size env) s (zone_end s) (zone_hi (la_vol s) (search_zone s))))"

lemma filled_join: "filled ps s a b \<Longrightarrow> filled ps s b c \<Longrightarrow> filled ps s a c"
  by (meson linorder_not_less)

text \<open>The order in which the loop makes progress.\<close>

definition search_order :: "(la_state \<times> la_state) set" where
  "search_order = measures [\<lambda>s. nat (mft_zone_end (la_vol s) - mft_zone_start (la_vol s)),
     \<lambda>s. 7 - unat (done_zones s), \<lambda>s. 2 - pass s, \<lambda>s. nat (zone_end s - bmp_pos s)]"

lemma switch_zone_spec:
  assumes "taken ps bm0 vol0 sv count s" "zones_ok (la_vol s)" "search_zone s \<in> {1, 2, 4}"
  obtains vol where "zones_ok vol" "same_zones (la_vol s) vol" "nr_free_clusters vol = nr_free_clusters (la_vol s)"
    "switch_zone s = Some ((if search_zone s = 2 then switch_to_data2_zone else switch_to_data1_zone) (s\<lparr>la_vol := vol\<rparr>))"
proof (cases "la_rlpos s = 0")
  case True
  then show thesis by (intro that [of "la_vol s"]) (use assms in \<open>auto simp: switch_zone_def same_zones_def\<close>)
next
  case False
  then have pos: "la_rlpos s \<le> length (la_rl s)" "0 < la_rlpos s" using assms(1) by (auto simp: taken_def)
  let ?e = "la_rl s ! (la_rlpos s - 1)"
  have "?e \<in> set (la_runs s)" using pos by (auto simp: in_set_conv_nth intro!: exI [of _ "la_rlpos s - 1"])
  then have "?e \<in> set (la_runs s)" "0 \<le> lcn ?e" using assms(1) by (auto simp: taken_def)
  moreover have "0 < rlen e" if "rl_chain a xs b" "e \<in> set xs" for a xs b e
    using that by (induction xs arbitrary: a) auto
  ultimately have tc: "0 \<le> lcn ?e + rlen ?e" using assms(1) by (fastforce simp: taken_def)
  obtain vol where "update_zone_pos (search_zone s) (lcn ?e + rlen ?e) (bmp_initial_pos s) (la_vol s) = Some vol"
      "zones_ok vol" "same_zones (la_vol s) vol" "nr_free_clusters vol = nr_free_clusters (la_vol s)"
    using update_zone_pos_ok [OF assms(3,2) tc] by blast
  then show thesis by (intro that [of vol]) (use False pos assms(3) in \<open>auto simp: switch_zone_def mem_simps\<close>)
qed

lemma done_zones_words:
  "(0 :: u8) OR 1 = 1" "(1 :: u8) OR 2 = 3" "(1 :: u8) OR 4 = 5" "(3 :: u8) OR 4 = 7" "(5 :: u8) OR 2 = 7"
  "(7 :: u8) AND NOT 2 = 5"
  by simp_all

text \<open>What is known where the search goes on.\<close>

definition next_inv :: "la_env \<Rightarrow> alloc_zone \<Rightarrow> bitmap \<Rightarrow> lcn_volume \<Rightarrow> int \<Rightarrow> int \<Rightarrow> la_next \<Rightarrow> la_state \<Rightarrow> bool" where
  "next_inv env zone bm0 vol0 sv count next s \<longleftrightarrow>
     (case next of
        Again \<Rightarrow> search_inv env zone bm0 vol0 sv count s
      | Check \<Rightarrow> zones_inv env zone bm0 vol0 sv count s \<and> (zone = DATA_ZONE \<longrightarrow> zone_full (la_page_size env) s (search_zone s))
      | Out err \<Rightarrow> taken (la_page_size env) bm0 vol0 sv count s \<and> zones_ok (la_vol s) \<and>
          (err = EOK \<and> clusters s = 0 \<or>
           err \<noteq> EOK \<and> 0 < clusters s \<and>
             (err = map_page env s \<or> err = ENOMEM \<and> no_memory (la_io env) count \<or>
              err = ENOSPC \<and> (zone = DATA_ZONE \<longrightarrow> filled (la_page_size env) s 0 (nr_clusters (la_vol s))))))"

lemmas inv_defs = next_inv_def search_inv_def zones_inv_def zones_ok_def zone_full_def

lemma taken_same:
  assumes "taken ps bm0 vol0 sv count s" "la_rl s' = la_rl s" "la_rlpos s' = la_rlpos s" "la_rlcount s' = la_rlcount s"
    "prev_lcn s' = prev_lcn s" "prev_run_len s' = prev_run_len s" "clusters s' = clusters s" "la_bm s' = la_bm s"
    "nr_clusters (la_vol s') = nr_clusters (la_vol s)" "nr_free_clusters (la_vol s') = nr_free_clusters (la_vol s)"
    "mft_lcn (la_vol s') = mft_lcn (la_vol s)" "vol_errors (la_vol s') = vol_errors (la_vol s)"
  shows "taken ps bm0 vol0 sv count s'"
  using assms(1) unfolding taken_def assms(2-) .

lemma taken_search [simp]:
  "taken ps bm0 vol0 sv count (s\<lparr>done_zones := d\<rparr>) = taken ps bm0 vol0 sv count s"
  "taken ps bm0 vol0 sv count (s\<lparr>bmp_pos := p\<rparr>) = taken ps bm0 vol0 sv count s"
  by (auto elim: taken_same)

lemma taken_vol:
  "taken ps bm0 vol0 sv count s \<Longrightarrow> same_zones (la_vol s) vol \<Longrightarrow> nr_free_clusters vol = nr_free_clusters (la_vol s) \<Longrightarrow>
   taken ps bm0 vol0 sv count (s\<lparr>la_vol := vol\<rparr>)"
  by (rule taken_same) (simp_all add: same_zones_def)

lemma switch_to_data1_inv:
  assumes "taken (la_page_size env) bm0 vol0 sv count s" "0 < clusters s" "zones_ok (la_vol s)"
    "nr_clusters (la_vol s) \<le> 8 * int (la_data_size env)" "(done_zones s, 2) \<in> zone_order zone"
    "zone = DATA_ZONE \<longrightarrow> done_zones s = 5 \<and> zone_full (la_page_size env) s 4"
  defines "s' \<equiv> switch_to_data1_zone s"
  shows "next_inv env zone bm0 vol0 sv count (if zone_start s' = zone_end s' then Check else Again) s'"
    "done_zones s' = done_zones s" "same_zones (la_vol s) (la_vol s')"
proof -
  have t: "taken (la_page_size env) bm0 vol0 sv count s'"
    by (rule taken_same [OF assms(1)]) (simp_all add: s'_def switch_to_data1_zone_def Let_def)
  show "done_zones s' = done_zones s" "same_zones (la_vol s) (la_vol s')"
    by (simp_all add: s'_def switch_to_data1_zone_def Let_def same_zones_def)
  have "clusters s' = clusters s" "la_bm s' = la_bm s" "search_zone s' = 2" "zone_end s' = nr_clusters (la_vol s')"
      "bmp_pos s' = zone_start s'" "mft_zone_end (la_vol s') \<le> zone_start s'" "zone_start s' \<le> nr_clusters (la_vol s')"
      "zones_ok (la_vol s')" "pass s' = 1 \<or> pass s' = 2 \<and> zone_start s' = mft_zone_end (la_vol s')"
      "zone_start s' = zone_end s' \<longrightarrow> mft_zone_end (la_vol s') = nr_clusters (la_vol s')"
    using assms(3) by (auto simp: s'_def switch_to_data1_zone_def Let_def zones_ok_def)
  then show "next_inv env zone bm0 vol0 sv count (if zone_start s' = zone_end s' then Check else Again) s'"
    using t assms(2,4-6) \<open>done_zones s' = _\<close> \<open>same_zones _ _\<close> by (auto simp: inv_defs same_zones_def)
qed

lemma switch_to_data2_inv:
  assumes "taken (la_page_size env) bm0 vol0 sv count s" "0 < clusters s" "zones_ok (la_vol s)"
    "nr_clusters (la_vol s) \<le> 8 * int (la_data_size env)" "(done_zones s, 4) \<in> zone_order zone"
    "zone = DATA_ZONE \<longrightarrow> done_zones s = 3 \<and> zone_full (la_page_size env) s 2"
  defines "s' \<equiv> switch_to_data2_zone s"
  shows "next_inv env zone bm0 vol0 sv count (if zone_start s' = zone_end s' then Check else Again) s'"
    "done_zones s' = done_zones s" "same_zones (la_vol s) (la_vol s')"
proof -
  have t: "taken (la_page_size env) bm0 vol0 sv count s'"
    by (rule taken_same [OF assms(1)]) (simp_all add: s'_def switch_to_data2_zone_def Let_def)
  show "done_zones s' = done_zones s" "same_zones (la_vol s) (la_vol s')"
    by (simp_all add: s'_def switch_to_data2_zone_def Let_def same_zones_def)
  have "clusters s' = clusters s" "la_bm s' = la_bm s" "search_zone s' = 4" "zone_end s' = mft_zone_start (la_vol s')"
      "bmp_pos s' = zone_start s'" "0 \<le> zone_start s'" "zone_start s' \<le> nr_clusters (la_vol s')"
      "zones_ok (la_vol s')" "pass s' = 1 \<or> pass s' = 2 \<and> zone_start s' = 0"
      "zone_start s' = zone_end s' \<longrightarrow> mft_zone_start (la_vol s') = 0"
    using assms(3) by (auto simp: s'_def switch_to_data2_zone_def Let_def zones_ok_def)
  then show "next_inv env zone bm0 vol0 sv count (if zone_start s' = zone_end s' then Check else Again) s'"
    using t assms(2,4-6) \<open>done_zones s' = _\<close> \<open>same_zones _ _\<close> by (auto simp: inv_defs same_zones_def)
qed

lemma shrink_mft_zone_inv:
  assumes "taken (la_page_size env) bm0 vol0 sv count s" "0 < clusters s" "zones_ok (la_vol s)"
    "nr_clusters (la_vol s) \<le> 8 * int (la_data_size env)" "done_zones s = 7"
    "zone_full (la_page_size env) s 2" "zone_full (la_page_size env) s 4"
    "mft_zone_start (la_vol s) < mft_zone_end (la_vol s)"
  defines "s' \<equiv> shrink_mft_zone s"
  shows "search_inv env DATA_ZONE bm0 vol0 sv count s'" "(s', s) \<in> search_order"
proof -
  define half where "half = (mft_zone_end (la_vol s) - mft_zone_start (la_vol s)) div 2"
  have h: "0 \<le> half" "half < mft_zone_end (la_vol s) - mft_zone_start (la_vol s)" using assms(8) unfolding half_def by simp_all
  note s' = s'_def [unfolded shrink_mft_zone_def half_def [symmetric] Let_def]
  have t: "taken (la_page_size env) bm0 vol0 sv count s'"
    by (rule taken_same [OF assms(1)]) (simp_all add: s')
  have v: "zones_ok (la_vol s')" using assms(3) h unfolding s' by (auto simp: zones_ok_def)
  have f: "clusters s' = clusters s" "la_bm s' = la_bm s" "search_zone s' = 2" "pass s' = 2" "done_zones s' = 5"
      "zone_end s' = mft_zone_end (la_vol s)" "bmp_pos s' = zone_start s'" "zone_start s' = mft_zone_end (la_vol s')"
      "nr_clusters (la_vol s') = nr_clusters (la_vol s)" "mft_zone_start (la_vol s') \<le> mft_zone_start (la_vol s)"
      "mft_zone_end (la_vol s') - mft_zone_start (la_vol s') < mft_zone_end (la_vol s) - mft_zone_start (la_vol s)"
    using assms(3,5) h unfolding s' by (auto simp: done_zones_words zones_ok_def)
  show "(s', s) \<in> search_order" using f(11) assms(8) by (simp add: search_order_def)
  show "search_inv env DATA_ZONE bm0 vol0 sv count s'"
    using t v f(1-10) assms(2-4,6,7) by (auto simp: search_inv_def zones_inv_def zone_order_def zone_full_def zones_ok_def)
qed

lemma not_MFT_ZONE [simp]: "zone \<noteq> MFT_ZONE \<longleftrightarrow> zone = DATA_ZONE"
  by (cases zone) auto

lemma search_order_zone:
  assumes "same_zones (la_vol s) (la_vol s')" "unat (done_zones s) < unat (done_zones s')" "unat (done_zones s') \<le> 7"
  shows "(s', s) \<in> search_order"
  using assms by (auto simp: search_order_def same_zones_def)

lemma zone_done_switch:
  assumes "zones_inv env zone bm0 vol0 sv count s" "zone = DATA_ZONE \<longrightarrow> zone_full (la_page_size env) s (search_zone s)"
    "done_zones s OR search_zone s < 7"
  shows "\<exists>next s'. zone_done zone s = Some (next, s') \<and> next_inv env zone bm0 vol0 sv count next s' \<and> (s', s) \<in> search_order"
proof -
  let ?s = "s\<lparr>done_zones := done_zones s OR search_zone s\<rparr>"
  note inv = assms(1) [unfolded zones_inv_def]
  have ord: "(done_zones s, search_zone s) \<in> zone_order zone" using inv by simp
  then have search: "search_zone ?s \<in> {1, 2, 4}" by (auto simp: zone_order_def split: if_splits)
  have t: "taken (la_page_size env) bm0 vol0 sv count ?s" using inv by simp
  obtain vol where vol: "zones_ok vol" "same_zones (la_vol s) vol" "nr_free_clusters vol = nr_free_clusters (la_vol s)"
    "switch_zone ?s = Some ((if search_zone s = 2 then switch_to_data2_zone else switch_to_data1_zone) (?s\<lparr>la_vol := vol\<rparr>))"
    using switch_zone_spec [OF t _ search] inv by auto
  let ?t = "?s\<lparr>la_vol := vol\<rparr>"
  have t': "taken (la_page_size env) bm0 vol0 sv count ?t" "0 < clusters ?t" "zones_ok (la_vol ?t)"
    "nr_clusters (la_vol ?t) \<le> 8 * int (la_data_size env)" "same_zones (la_vol s) (la_vol ?t)"
    using taken_vol [OF t] inv vol by (simp_all add: same_zones_def)
  have full: "zone_full ps ?t z = zone_full ps s z" for ps z
    using vol(2) by (simp add: zone_full_def same_zones_def zone_lo_def zone_hi_def)
  define s' where "s' = (if search_zone s = 2 then switch_to_data2_zone else switch_to_data1_zone) ?t"
  have run: "zone_done zone s = Some (if zone_start s' = zone_end s' then Check else Again, s')"
    using vol(4) assms(3) by (simp add: zone_done_def s'_def Let_def)
  have "next_inv env zone bm0 vol0 sv count (if zone_start s' = zone_end s' then Check else Again) s' \<and>
      done_zones s' = done_zones ?t \<and> same_zones (la_vol ?t) (la_vol s')"
  proof (cases "search_zone s = 2")
    case True
    then have "done_zones s = 1" using ord assms(3) by (auto simp: zone_order_def done_zones_words split: if_splits)
    then have "(done_zones ?t, 4) \<in> zone_order zone" "zone = DATA_ZONE \<longrightarrow> done_zones ?t = 3 \<and> zone_full (la_page_size env) ?t 2"
      using True assms(2) full by (simp_all add: zone_order_def done_zones_words)
    note switch_to_data2_inv [OF t'(1-4) this]
    then show ?thesis unfolding s'_def if_P [OF True] by blast
  next
    case False
    then have "done_zones s OR search_zone s = 1 \<and> zone = MFT_ZONE \<or> done_zones s OR search_zone s = 5 \<and> zone = DATA_ZONE \<and> search_zone s = 4"
      using ord assms(3) by (auto simp: zone_order_def done_zones_words split: if_splits)
    then have "(done_zones ?t, 2) \<in> zone_order zone" "zone = DATA_ZONE \<longrightarrow> done_zones ?t = 5 \<and> zone_full (la_page_size env) ?t 4"
      using assms(2) full by (auto simp: zone_order_def)
    note switch_to_data1_inv [OF t'(1-4) this]
    then show ?thesis unfolding s'_def if_not_P [OF False] by blast
  qed
  moreover have "unat (done_zones s) < unat (done_zones ?t)" "unat (done_zones ?t) \<le> 7"
    using ord assms(3) by (auto simp: zone_order_def done_zones_words split: if_splits)
  ultimately show ?thesis using run search_order_zone [of s s'] same_zones_trans [OF t'(5)] by auto
qed

lemma zone_done_spec:
  assumes "zones_inv env zone bm0 vol0 sv count s" "zone = DATA_ZONE \<longrightarrow> zone_full (la_page_size env) s (search_zone s)"
  shows "\<exists>next s'. zone_done zone s = Some (next, s') \<and> next_inv env zone bm0 vol0 sv count next s' \<and>
    ((\<exists>err. next = Out err) \<or> (s', s) \<in> search_order)"
proof (cases "done_zones s OR search_zone s < 7")
  case True
  then show ?thesis using zone_done_switch [OF assms True] by blast
next
  case False
  let ?s = "s\<lparr>done_zones := done_zones s OR search_zone s\<rparr>"
  note inv = assms(1) [unfolded zones_inv_def]
  have seven: "done_zones s OR search_zone s = 7" "done_zones s = 3 \<and> search_zone s = 4 \<or> zone = DATA_ZONE \<and> done_zones s = 5 \<and> search_zone s = 2"
    using inv False by (auto simp: zone_order_def done_zones_words split: if_splits)
  have full: "zone = DATA_ZONE \<Longrightarrow> zone_full (la_page_size env) ?s 2" "zone = DATA_ZONE \<Longrightarrow> zone_full (la_page_size env) ?s 4"
    using inv seven(2) assms(2) by (auto simp: zone_full_def)
  have t: "taken (la_page_size env) bm0 vol0 sv count ?s" "0 < clusters ?s" "zones_ok (la_vol ?s)"
    "nr_clusters (la_vol ?s) \<le> 8 * int (la_data_size env)" "done_zones ?s = 7"
    using inv seven(1) by simp_all
  show ?thesis
  proof (cases "zone = MFT_ZONE \<or> mft_zone_end (la_vol s) - mft_zone_start (la_vol s) \<le> 0")
    case True
    have "filled (la_page_size env) s 0 (nr_clusters (la_vol s))" if "zone = DATA_ZONE"
      using full [OF that] True that by (auto simp: zone_full_def) (metis linorder_not_less order_trans)
    then have "next_inv env zone bm0 vol0 sv count (Out ENOSPC) ?s"
      using t(1-3) by (auto simp: next_inv_def)
    then show ?thesis using True False by (simp add: zone_done_def)
  next
    case more: False
    then have data: "zone = DATA_ZONE" "mft_zone_start (la_vol ?s) < mft_zone_end (la_vol ?s)" by (cases zone, auto)
    note shrink = shrink_mft_zone_inv [OF t full [OF data(1)] data(2)]
    have "(shrink_mft_zone ?s, s) \<in> search_order" using shrink(2) seven by (auto simp: search_order_def)
    then show ?thesis using more False shrink(1) data(1) by (simp add: zone_done_def next_inv_def)
  qed
qed

lemma search_order_cong:
  assumes "(t, s') \<in> search_order" "same_zones (la_vol s) (la_vol s')" "done_zones s' = done_zones s" "pass s' = pass s"
    "zone_end s' - bmp_pos s' \<le> max 0 (zone_end s - bmp_pos s)"
  shows "(t, s) \<in> search_order"
  using assms by (auto simp: search_order_def same_zones_def)

lemma second_pass_inv:
  assumes "search_inv env zone bm0 vol0 sv count s" "zone_end s \<le> bmp_pos s" "pass s = 1"
  obtains s' where "second_pass s = Some s'" "search_inv env zone bm0 vol0 sv count s'" "(s', s) \<in> search_order"
proof -
  have "(done_zones s, search_zone s) \<in> zone_order zone" using assms(1) by (simp add: search_inv_def zones_inv_def)
  then have search: "search_zone s = 1 \<and> zone = MFT_ZONE \<or> search_zone s = 2 \<or> search_zone s = 4"
    by (auto simp: zone_order_def split: if_splits)
  define z where "z = (if search_zone s = 1 then mft_zone_start (la_vol s) else if search_zone s = 2 then mft_zone_end (la_vol s) else 0)"
  define s' where "s' = s\<lparr>pass := 2, zone_start := z, zone_end := max (zone_start s) z, bmp_pos := z\<rparr>"
  have run: "second_pass s = Some s'" using search by (auto simp: second_pass_def z_def s'_def)
  have inv: "zones_inv env zone bm0 vol0 sv count s" using assms(1) by (simp add: search_inv_def)
  then have t: "taken (la_page_size env) bm0 vol0 sv count s'"
    unfolding zones_inv_def by (elim conjE) (erule taken_same, simp_all add: s'_def)
  have f: "la_vol s' = la_vol s" "clusters s' = clusters s" "la_bm s' = la_bm s" "search_zone s' = search_zone s"
      "pass s' = 2" "done_zones s' = done_zones s" "zone_end s' = max (zone_start s) z" "bmp_pos s' = z" "zone_start s' = z"
    by (simp_all add: s'_def)
  have z: "0 \<le> z" "z \<le> nr_clusters (la_vol s)" using inv by (auto simp: z_def zones_inv_def zones_ok_def)
  have "zones_inv env zone bm0 vol0 sv count s'" using inv t f by (simp add: zones_inv_def zone_full_def)
  moreover have "z = zone_lo (la_vol s) (search_zone s)" if "zone = DATA_ZONE"
    using search that by (auto simp: z_def zone_lo_def)
  moreover have "filled (la_page_size env) s (zone_start s) (zone_hi (la_vol s) (search_zone s))"
      "zone_lo (la_vol s) (search_zone s) \<le> zone_start s" if "zone = DATA_ZONE"
    using assms that by (auto simp: search_inv_def min_absorb2)
  moreover have "zone_start s \<le> nr_clusters (la_vol s)" using assms(1) by (simp add: search_inv_def)
  ultimately have "search_inv env zone bm0 vol0 sv count s'"
    unfolding search_inv_def f using z by (auto simp: max_absorb1)
  moreover have "(s', s) \<in> search_order" using assms(3) f by (simp add: search_order_def)
  ultimately show thesis using that run by blast
qed

lemma zone_pass_done_spec:
  assumes "search_inv env zone bm0 vol0 sv count s" "zone_end s \<le> bmp_pos s"
  shows "\<exists>next s'. zone_pass_done zone s = Some (next, s') \<and> next_inv env zone bm0 vol0 sv count next s' \<and>
    ((\<exists>err. next = Out err) \<or> (s', s) \<in> search_order)"
proof (cases "pass s = 1")
  case True
  obtain s' where "second_pass s = Some s'" "search_inv env zone bm0 vol0 sv count s'" "(s', s) \<in> search_order"
    by (rule second_pass_inv [OF assms True])
  then show ?thesis using True by (simp add: zone_pass_done_def next_inv_def)
next
  case False
  then have two: "pass s = 2" using assms(1) by (simp add: search_inv_def)
  have inv: "zones_inv env zone bm0 vol0 sv count s" using assms(1) by (simp add: search_inv_def)
  have "zone_full (la_page_size env) s (search_zone s)" if "zone = DATA_ZONE"
  proof -
    have "filled (la_page_size env) s (zone_lo (la_vol s) (search_zone s)) (zone_end s)"
      "filled (la_page_size env) s (zone_end s) (zone_hi (la_vol s) (search_zone s))"
      using assms that two by (auto simp: search_inv_def min_absorb2)
    then show ?thesis unfolding zone_full_def by (rule filled_join)
  qed
  then show ?thesis using zone_done_spec [OF inv] False by (simp add: zone_pass_done_def)
qed

text \<open>The scan of a page keeps the invariant and moves the position on.\<close>

lemma search_inv_scan:
  assumes "search_inv env zone bm0 vol0 sv count s" "scan_keeps (la_page_size env) bm0 vol0 sv count (s\<lparr>bmp_pos := p\<rparr>) s'"
    "0 < clusters s'" "0 \<le> p'" "filled (la_page_size env) s' (bmp_pos s) (min p' (zone_end s))"
  shows "search_inv env zone bm0 vol0 sv count (s'\<lparr>bmp_pos := p'\<rparr>)"
proof -
  let ?ps = "la_page_size env"
  have k: "taken ?ps bm0 vol0 sv count s'" "zones_ok (la_vol s')" "same_search (s\<lparr>bmp_pos := p\<rparr>) s'"
      "same_zones (la_vol s) (la_vol s')" "\<And>d. in_use ?ps (la_bm s) d \<Longrightarrow> in_use ?ps (la_bm s') d"
    using assms(2) by (auto simp: scan_keeps_def)
  have f: "zone_start s' = zone_start s" "zone_end s' = zone_end s" "pass s' = pass s" "done_zones s' = done_zones s"
      "search_zone s' = search_zone s"
    using k(3) by (simp_all add: same_search_def)
  have r: "zone_lo (la_vol s') = zone_lo (la_vol s)" "zone_hi (la_vol s') = zone_hi (la_vol s)" "nr_clusters (la_vol s') = nr_clusters (la_vol s)"
    using k(4) by (simp_all add: same_zones_def zone_lo_def zone_hi_def fun_eq_iff)
  have mono: "filled ?ps s' a b" if "filled ?ps s a b" for a b using that k(5) by blast
  have inv: "zones_inv env zone bm0 vol0 sv count (s'\<lparr>bmp_pos := p'\<rparr>)"
    using assms(1,3) k(1,2,5) unfolding search_inv_def zones_inv_def zone_full_def by (simp add: f r)
  have "filled ?ps s' (zone_start s) (min p' (zone_end s))" if "zone = DATA_ZONE"
  proof (rule filled_join)
    show "filled ?ps s' (zone_start s) (min (bmp_pos s) (zone_end s))"
      using assms(1) that k(5) by (simp add: search_inv_def)
    show "filled ?ps s' (min (bmp_pos s) (zone_end s)) (min p' (zone_end s))"
      using assms(5) by (auto simp: min_def split: if_splits)
  qed
  then show ?thesis using assms(1,4) inv k(5) unfolding search_inv_def by (simp add: f r)
qed

lemma search_page_spec:
  assumes "alloc_ok (la_io env)" and inv: "search_inv env zone bm0 vol0 sv count s"
  shows "\<exists>next s'. search_page env zone sv s = Some (next, s') \<and> next_inv env zone bm0 vol0 sv count next s' \<and>
    ((\<exists>err. next = Out err) \<or> (s', s) \<in> search_order)"
proof -
  let ?ps = "la_page_size env" and ?ds = "la_data_size env"
  have t: "taken ?ps bm0 vol0 sv count s" "0 < clusters s" "zones_ok (la_vol s)" "nr_clusters (la_vol s) \<le> 8 * int ?ds"
      "zone_end s \<le> nr_clusters (la_vol s)" "0 \<le> bmp_pos s" and ord: "(done_zones s, search_zone s) \<in> zone_order zone"
    using inv by (simp_all add: search_inv_def zones_inv_def)
  have search: "search_zone s \<in> {1, 2, 4}" using ord by (auto simp: zone_order_def split: if_splits)
  have ps: "0 < ?ps" using t(1) by (simp add: taken_def full_pages_def)
  consider "int ?ds < bmp_pos s div 8" | "bmp_pos s div 8 \<le> int ?ds" "map_page env s \<noteq> EOK"
    | "bmp_pos s div 8 \<le> int ?ds" "map_page env s = EOK" by linarith
  then show ?thesis
  proof cases
    case 1
    then have "zone_end s \<le> bmp_pos s" using t(4,5) by linarith
    then show ?thesis using zone_pass_done_spec [OF inv] 1 by (simp add: search_page_def)
  next
    case 2
    then have "next_inv env zone bm0 vol0 sv count (Out (map_page env s)) s" using t by (simp add: next_inv_def)
    then show ?thesis using 2 t(6) by (simp add: search_page_def Let_def)
  next
    case 3
    define pos where "pos = nat (bmp_pos s div 8)"
    define b where "b = pos mod ?ps"
    define bsize where "bsize = 8 * (if ?ds < pos + (?ps - b) then ?ds - pos else ?ps - b)"
    define s0 where "s0 = s\<lparr>bmp_pos := bmp_pos s div 8 * 8\<rparr>"
    have b: "b < ?ps" "pos div ?ps * ?ps + b = pos" using ps by (simp_all add: b_def)
    have p: "pos \<le> ?ds" "bmp_pos s div 8 = int pos" using 3 t(6) by (simp_all add: pos_def nat_le_iff)
    have bs: "bsize \<le> 8 * (?ps - b)" "pos < ?ds \<Longrightarrow> 8 \<le> bsize" using b(1) by (auto simp: bsize_def)
    have pre: "taken ?ps bm0 vol0 sv count s0" "0 < clusters s0" "zones_ok (la_vol s0)" "search_zone s0 \<in> {1, 2, 4}"
        "bmp_pos s0 = int (8 * (pos div ?ps * ?ps + b))" "zone_end s0 \<le> nr_clusters (la_vol s0)"
      using t search p unfolding b(2) by (simp_all add: s0_def)
    obtain r s' where scan: "la_scan (la_io env) sv (pos div ?ps * ?ps) b bsize s0 (nat (bmp_pos s mod 8)) = Some (r, s')"
        "scan_keeps ?ps bm0 vol0 sv count s0 s'" "scan_result (la_io env) count ?ps bsize s0 (nat (bmp_pos s mod 8)) r s'"
      using la_scan_spec [OF assms(1) bs(1) pre] by blast
    have run: "search_page env zone sv s = (case r of Some err \<Rightarrow> Some (Out err, s')
        | None \<Rightarrow> let s = s'\<lparr>bmp_pos := bmp_pos s' + int bsize\<rparr> in if bmp_pos s < zone_end s then Some (Again, s) else zone_pass_done zone s)"
      unfolding search_page_def Let_def pos_def [symmetric] b_def [symmetric] bsize_def [symmetric] s0_def [symmetric] scan(1)
      using 3 p(2) by simp
    have k: "taken ?ps bm0 vol0 sv count s'" "zones_ok (la_vol s')" "bmp_pos s' = 8 * int pos" "zone_end s' = zone_end s"
        "pass s' = pass s" "done_zones s' = done_zones s" "same_zones (la_vol s) (la_vol s')"
      using scan(2) p(2) by (simp_all add: scan_keeps_def same_search_def s0_def)
    have m: "bmp_pos s = 8 * int pos + bmp_pos s mod 8" "0 \<le> bmp_pos s mod 8" "bmp_pos s mod 8 < 8"
      using div_mult_mod_eq [of "bmp_pos s" 8] p(2) by simp_all
    show ?thesis
    proof (cases r)
      case (Some err)
      then have "next_inv env zone bm0 vol0 sv count (Out err) s'" using scan(3) k(1,2) by (auto simp: next_inv_def scan_result_def)
      then show ?thesis using run Some by simp
    next
      case None
      define p' where "p' = 8 * int pos + int bsize"
      define s2 where "s2 = s'\<lparr>bmp_pos := p'\<rparr>"
      have far: "zone_end s \<le> p' \<or> bmp_pos s < p'"
        using bs(2) p(1) t(4,5) m unfolding p'_def by linarith
      have inv2: "search_inv env zone bm0 vol0 sv count s2" unfolding s2_def
      proof (rule search_inv_scan [OF inv scan(2) [unfolded s0_def]])
        show "0 < clusters s'" "0 \<le> p'" using scan(3) None by (simp_all add: scan_result_def p'_def)
        show "filled ?ps s' (bmp_pos s) (min p' (zone_end s))"
          using scan(3) None p(2) m by (simp add: scan_result_def s0_def p'_def)
      qed
      have run2: "search_page env zone sv s = (if p' < zone_end s then Some (Again, s2) else zone_pass_done zone s2)"
        using run None k(3,4) by (simp add: s2_def p'_def Let_def)
      have f2: "same_zones (la_vol s) (la_vol s2)" "done_zones s2 = done_zones s" "pass s2 = pass s" "zone_end s2 = zone_end s" "bmp_pos s2 = p'"
        using k by (simp_all add: s2_def)
      show ?thesis
      proof (cases "p' < zone_end s")
        case True
        then have "(s2, s) \<in> search_order" using f2 far by (auto simp: search_order_def same_zones_def)
        then show ?thesis using run2 True inv2 by (simp add: next_inv_def)
      next
        case False
        then have "zone_end s2 \<le> bmp_pos s2" "zone_end s2 - bmp_pos s2 \<le> max 0 (zone_end s - bmp_pos s)" using f2 by auto
        then show ?thesis using run2 False zone_pass_done_spec [OF inv2] search_order_cong [OF _ f2(1-3)] by auto
      qed
    qed
  qed
qed

end
