(* ===== verification/NTFS_Lcnalloc_Free.thy ===== *)
theory NTFS_Lcnalloc_Free
  imports NTFS_Lcnalloc
begin

text \<open>
  What \<open>ntfs_cluster_free_from_rl_nolock\<close> does to the bitmap: the clusters of the range of the
  runlist are freed and no others, or the volume is marked as having errors.
\<close>

lemma clear_run_spec:
  assumes "full_pages ps bm" "0 \<le> c" "0 < n" "c + n < 2 ^ 63"
  shows "\<exists>err bm' bad. ntfs_bitmap_clear_run ps map_err bm c n = Some (err, bm', bad) \<and> full_pages ps bm' \<and>
    (\<forall>d. d \<notin> {c..<c + n} \<longrightarrow> in_use ps bm' d = in_use ps bm d) \<and>
    (err = EOK \<longrightarrow> \<not> bad \<and> (\<forall>d \<in> {c..<c + n}. \<not> in_use ps bm' d)) \<and>
    (err \<noteq> EOK \<and> \<not> bad \<and> (\<forall>d \<in> {c..<c + n}. in_use ps bm d) \<longrightarrow> (\<forall>d. in_use ps bm' d = in_use ps bm d)) \<and>
    (map_err False = (\<lambda>ofs. EOK) \<longrightarrow> err = EOK)"
proof -
  have n: "0 < nat n" "nat c + nat n < 2 ^ 63" "int (nat c) = c" "int (nat n) = n" using assms(2-4) by (simp_all flip: nat_add_distrib add: nat_less_iff)
  have range: "(nat c \<le> nat d \<and> nat d < nat c + nat n) = (d \<in> {c..<c + n})" if "0 \<le> d" for d
    using that assms(2,3) by auto
  obtain err bm' bad where r: "ntfs_bitmap_set_bits_in_run ps map_err bm c n False = Some (err, bm', bad)" "full_pages ps bm'"
    "\<And>i. \<not> (nat c \<le> i \<and> i < nat c + nat n) \<Longrightarrow> bm_bit ps bm' i = bm_bit ps bm i"
    "err = EOK \<Longrightarrow> \<not> bad \<and> (\<forall>i. nat c \<le> i \<and> i < nat c + nat n \<longrightarrow> \<not> bm_bit ps bm' i)"
    "map_err False = (\<lambda>ofs. EOK) \<Longrightarrow> err = EOK"
    "err \<noteq> EOK \<Longrightarrow> \<not> bad \<Longrightarrow> (\<forall>i. nat c \<le> i \<and> i < nat c + nat n \<longrightarrow> bm_bit ps bm i) \<Longrightarrow> \<forall>i. bm_bit ps bm' i = bm_bit ps bm i"
    using set_bits_in_run_spec [OF assms(1) n(1,2), of map_err False] unfolding n(3,4) by blast
  have "in_use ps bm' d = in_use ps bm d" if "d \<notin> {c..<c + n}" for d
    using r(3) [of "nat d"] range [of d] that by (cases "0 \<le> d") (auto simp: in_use_def)
  moreover have "\<not> in_use ps bm' d" if "err = EOK" "d \<in> {c..<c + n}" for d
    using r(4) [OF that(1)] range [of d] that(2) assms(2) by (auto simp: in_use_def)
  moreover have "in_use ps bm' d = in_use ps bm d" if "err \<noteq> EOK" "\<not> bad" "\<forall>d \<in> {c..<c + n}. in_use ps bm d" for d
  proof -
    have "bm_bit ps bm i" if "nat c \<le> i" "i < nat c + nat n" for i
      using that range [of "int i"] bspec [OF \<open>\<forall>d \<in> _. _\<close>, of "int i"] by (simp add: in_use_def)
    then show ?thesis using r(6) [OF \<open>err \<noteq> EOK\<close> \<open>\<not> bad\<close>] by (simp add: in_use_def)
  qed
  ultimately show ?thesis using r(1,2,4,5) by (auto simp: ntfs_bitmap_clear_run_def)
qed

text \<open>The clusters that a runlist gives the vcns of a range.\<close>

definition range_clusters :: "ntfs_rl_element list \<Rightarrow> int \<Rightarrow> int \<Rightarrow> int set" where
  "range_clusters es a b = rl_lookup es ` real_clusters es a b"

lemma range_clusters_Cons:
  assumes "rl_chain s (e # xs) (vcn t)" and "rl_term t" and "s \<le> a" and "a \<le> s + rlen e"
  shows "range_clusters (e # xs @ [t]) a b =
    (if 0 \<le> lcn e then {lcn e + (a - s)..<lcn e + (min b (s + rlen e) - s)} else {}) \<union> range_clusters (xs @ [t]) (s + rlen e) b"
proof -
  let ?m = "s + rlen e"
  have c: "vcn e = s" "0 < rlen e" "rl_chain ?m xs (vcn t)" using assms(1) by auto
  have run: "rl_lookup (e # xs @ [t]) ` A = (\<lambda>v. lcn e + (v - s)) ` A" if "A \<subseteq> {a..<?m}" "0 \<le> lcn e" for A
    using that assms(3) c by (intro image_cong) (auto simp: rl_lookup_Cons run_lcn_def)
  have rest: "rl_lookup (e # xs @ [t]) ` real_clusters (xs @ [t]) ?m b = rl_lookup (xs @ [t]) ` real_clusters (xs @ [t]) ?m b"
    using c by (intro image_cong) (auto simp: rl_lookup_Cons real_clusters_def)
  have "(\<lambda>v. lcn e + (v - s)) ` {a..<min b ?m} = {lcn e + (a - s)..<lcn e + (min b ?m - s)}"
  proof -
    have "(\<lambda>v. lcn e + (v - s)) ` {a..<min b ?m} = (\<lambda>v. v + (lcn e - s)) ` {a..<min b ?m}" by (intro image_cong) auto
    then show ?thesis unfolding image_add_atLeastLessThan' by (simp add: algebra_simps)
  qed
  then show ?thesis
    unfolding range_clusters_def real_clusters_split [OF assms] image_Un rest using run [of "{a..<min b ?m}"] by auto
qed

lemma range_clusters_empty: "b \<le> a \<Longrightarrow> range_clusters es a b = {}"
  by (simp add: range_clusters_def real_clusters_empty)

text \<open>Freeing changes the number of free clusters of a volume and may mark it as having errors.\<close>

definition vol_keeps :: "lcn_volume \<Rightarrow> lcn_volume \<Rightarrow> bool" where
  "vol_keeps vol vol' \<longleftrightarrow> nr_clusters vol' = nr_clusters vol \<and> (vol_errors vol \<longrightarrow> vol_errors vol') \<and>
     (volume_ok vol \<longrightarrow> volume_ok vol')"

lemma vol_keeps_intros:
  "vol_keeps vol vol" "vol_keeps u v \<Longrightarrow> vol_keeps v w \<Longrightarrow> vol_keeps u w"
  "vol_keeps vol (set_errors b vol)" "0 \<le> n \<Longrightarrow> vol_keeps vol (add_free n vol)"
  by (auto simp: vol_keeps_def volume_ok_def zones_ok_def set_errors_def add_free_def)

lemma vol_errors_simps [simp]:
  "vol_errors (set_errors b vol) = (b \<or> vol_errors vol)" "vol_errors (add_free n vol) = vol_errors vol"
  by (simp_all add: set_errors_def add_free_def)

text \<open>
  What a call has freed when it has gone through the clusters \<open>C\<close>: no other bit has changed, and
  unless the volume is marked as having errors all their bits are clear.
\<close>

definition freed :: "nat \<Rightarrow> int set \<Rightarrow> bool \<Rightarrow> lcn_volume \<Rightarrow> bitmap \<Rightarrow> lcn_volume \<Rightarrow> bitmap \<Rightarrow> bool" where
  "freed ps C ok vol bm vol' bm' \<longleftrightarrow> full_pages ps bm' \<and> vol_keeps vol vol' \<and>
     (\<forall>d. d \<notin> C \<longrightarrow> in_use ps bm' d = in_use ps bm d) \<and>
     (\<forall>d. in_use ps bm' d \<and> \<not> vol_errors vol' \<longrightarrow> in_use ps bm d \<and> d \<notin> C) \<and>
     (ok \<longrightarrow> vol_errors vol' = vol_errors vol)"

lemma freed_refl: "full_pages ps bm \<Longrightarrow> freed ps {} ok vol bm vol bm"
  by (simp add: freed_def vol_keeps_intros)

lemma freed_ok: "freed ps C ok u bm u' bm' \<Longrightarrow> (ok' \<Longrightarrow> ok) \<Longrightarrow> freed ps C ok' u bm u' bm'"
  unfolding freed_def by blast

lemma freed_trans:
  assumes "freed ps C ok u bm u' bm'" "freed ps D ok u' bm' u'' bm''"
  shows "freed ps (C \<union> D) ok u bm u'' bm''"
  using assms vol_keeps_intros(2) [of u u' u''] unfolding freed_def vol_keeps_def by (auto; blast)

lemma cap_count: "0 < len \<Longrightarrow> - 1 \<le> count \<Longrightarrow> count \<noteq> 0 \<Longrightarrow> 0 < cap_count len count" "cap_count len count \<le> len"
  by (auto simp: cap_count_def)

lemma free_run_step:
  assumes "full_pages ps bm" "0 \<le> c" "0 < n" "c + n < 2 ^ 63"
  obtains err bm' bad where "ntfs_bitmap_clear_run ps (map_err l) bm c n = Some (err, bm', bad)"
    "freed ps {c..<c + n} (map_err l False = (\<lambda>ofs. EOK)) vol bm
       (if err \<noteq> EOK then set_errors True (set_errors bad vol) else add_free n (set_errors bad vol)) bm'"
    "err = EOK \<longrightarrow> freed ps {c..<c + n} True vol bm (add_free n (set_errors bad vol)) bm'"
    "map_err l False = (\<lambda>ofs. EOK) \<longrightarrow> err = EOK"
    "err \<noteq> EOK \<and> \<not> bad \<and> (\<forall>d \<in> {c..<c + n}. in_use ps bm d) \<longrightarrow> (\<forall>d. in_use ps bm' d = in_use ps bm d)"
proof -
  obtain err bm' bad where r: "ntfs_bitmap_clear_run ps (map_err l) bm c n = Some (err, bm', bad)" "full_pages ps bm'"
    "\<And>d. d \<notin> {c..<c + n} \<Longrightarrow> in_use ps bm' d = in_use ps bm d"
    "err = EOK \<Longrightarrow> \<not> bad \<and> (\<forall>d \<in> {c..<c + n}. \<not> in_use ps bm' d)" "map_err l False = (\<lambda>ofs. EOK) \<Longrightarrow> err = EOK"
    "err \<noteq> EOK \<Longrightarrow> \<not> bad \<Longrightarrow> \<forall>d \<in> {c..<c + n}. in_use ps bm d \<Longrightarrow> \<forall>d. in_use ps bm' d = in_use ps bm d"
    using clear_run_spec [OF assms, of "map_err l"] by blast
  have k: "vol_keeps vol (set_errors True (set_errors bad vol))" "vol_keeps vol (add_free n (set_errors bad vol))"
    using vol_keeps_intros assms(3) by (meson less_imp_le)+
  show thesis
  proof (rule that [OF r(1)])
    show "freed ps {c..<c + n} (map_err l False = (\<lambda>ofs. EOK)) vol bm
       (if err \<noteq> EOK then set_errors True (set_errors bad vol) else add_free n (set_errors bad vol)) bm'"
      using r(2-5) k unfolding freed_def by (cases "err = EOK") auto
    have "freed ps {c..<c + n} True vol bm (add_free n (set_errors bad vol)) bm'" if "err = EOK"
      using r(2-4) k that unfolding freed_def by auto
    then show "err = EOK \<longrightarrow> freed ps {c..<c + n} True vol bm (add_free n (set_errors bad vol)) bm'" by blast
  qed (use r(5,6) in blast)+
qed

lemma free_runs_spec:
  assumes "full_pages ps bm" "rl_chain s xs (vcn t)" "rl_term t" "\<forall>e \<in> set xs. lcn e + rlen e < 2 ^ 63"
    "count = - 1 \<and> b = vcn t \<or> 0 \<le> count \<and> b = s + count \<and> b \<le> vcn t"
  shows "\<exists>vol' bm'. free_runs ps map_err vol bm (xs @ t # g) count n =
      Some (vol', bm', min 0 count, n + int (card (real_clusters (xs @ [t]) s b))) \<and>
    freed ps (range_clusters (xs @ [t]) s b) ((\<forall>l. map_err l False = (\<lambda>ofs. EOK)) \<and> (\<forall>e \<in> set xs. LCN_HOLE \<le> lcn e)) vol bm vol' bm'"
  using assms
proof (induction xs arbitrary: s vol bm count n b)
  case Nil
  then have "b \<le> s" "count = 0 \<or> count = - 1" by auto
  then show ?case using Nil freed_refl by (auto simp: rl_term_def real_clusters_empty range_clusters_empty)
next
  case (Cons e xs)
  let ?m = "s + rlen e" and ?k = "cap_count (rlen e) count" and ?b = "max b (s + rlen e)"
  let ?rest = "if 0 \<le> count then count - ?k else count"
  let ?ok = "(\<forall>l. map_err l False = (\<lambda>ofs. EOK)) \<and> (\<forall>e \<in> set xs. LCN_HOLE \<le> lcn e)"
  have chain: "vcn e = s" "0 < rlen e" "rl_chain ?m xs (vcn t)" "?m \<le> vcn t" using Cons.prems(2) rl_chain_le by auto
  show ?case
  proof (cases "count = 0")
    case True
    then have "b \<le> s" using Cons.prems(5) by simp
    then show ?thesis using True freed_refl [OF Cons.prems(1)] by (auto simp: real_clusters_empty range_clusters_empty)
  next
    case False
    have k: "0 < ?k" "?k \<le> rlen e" "min b ?m - s = ?k" "min 0 ?rest = min 0 count"
      "?rest = - 1 \<and> ?b = vcn t \<or> 0 \<le> ?rest \<and> ?b = ?m + ?rest \<and> ?b \<le> vcn t"
      using Cons.prems(5) False chain(2,4) by (auto simp: cap_count_def)
    have beyond: "real_clusters es ?m ?b = real_clusters es ?m b" "range_clusters es ?m ?b = range_clusters es ?m b" for es
      by (auto simp: real_clusters_def range_clusters_def)
    note IH = Cons.IH [OF _ chain(3) Cons.prems(3) _ k(5), unfolded beyond k(4)]
    note split = real_clusters_Cons [OF Cons.prems(2,3), of s b] range_clusters_Cons [OF Cons.prems(2,3), of s b]
    have go: "\<not> (rlen e = 0 \<or> count = 0)" using False chain(2) by simp
    let ?vol = "set_errors (lcn e < LCN_HOLE) vol"
    have pre: "freed ps {} (LCN_HOLE \<le> lcn e) vol bm ?vol bm"
      using Cons.prems(1) vol_keeps_intros(3) by (auto simp: freed_def)
    show ?thesis
    proof (cases "0 \<le> lcn e")
      case True
      have "lcn e + ?k < 2 ^ 63" using Cons.prems(4) k(2) by simp
      then obtain err bm1 bad where r: "ntfs_bitmap_clear_run ps (map_err (lcn e)) bm (lcn e) ?k = Some (err, bm1, bad)"
        "freed ps {lcn e..<lcn e + ?k} (map_err (lcn e) False = (\<lambda>ofs. EOK)) ?vol bm
          (if err \<noteq> EOK then set_errors True (set_errors bad ?vol) else add_free ?k (set_errors bad ?vol)) bm1"
        using free_run_step [OF Cons.prems(1) True k(1)] by metis
      let ?vol1 = "if err \<noteq> EOK then set_errors True (set_errors bad ?vol) else add_free ?k (set_errors bad ?vol)"
      have "full_pages ps bm1" using r(2) by (simp add: freed_def)
      then obtain vol' bm' where f: "free_runs ps map_err ?vol1 bm1 (xs @ t # g) ?rest (n + ?k) =
          Some (vol', bm', min 0 count, n + ?k + int (card (real_clusters (xs @ [t]) ?m b)))"
        "freed ps (range_clusters (xs @ [t]) ?m b) ?ok ?vol1 bm1 vol' bm'"
        using IH [of bm1 ?vol1 "n + ?k"] Cons.prems(4) by auto
      have "free_runs ps map_err vol bm ((e # xs) @ t # g) count n =
          Some (vol', bm', min 0 count, n + int (card (real_clusters ((e # xs) @ [t]) s b)))"
        unfolding append_Cons free_runs.simps Let_def if_not_P [OF go] if_P [OF True] r(1) bind.bind_lunit prod.case f(1)
        using k(1,3) True chain(2) split(1) by simp
      moreover have "freed ps ({} \<union> {lcn e..<lcn e + ?k} \<union> range_clusters (xs @ [t]) ?m b)
          ((\<forall>l. map_err l False = (\<lambda>ofs. EOK)) \<and> (\<forall>e \<in> set (e # xs). LCN_HOLE \<le> lcn e)) vol bm vol' bm'"
        by (rule freed_trans [OF freed_trans [OF freed_ok [OF pre] freed_ok [OF r(2)]] freed_ok [OF f(2)]]) auto
      ultimately show ?thesis using split(2) True k(3) chain(2) by simp
    next
      case hole: False
      obtain vol' bm' where f: "free_runs ps map_err ?vol bm (xs @ t # g) ?rest n =
          Some (vol', bm', min 0 count, n + int (card (real_clusters (xs @ [t]) ?m b)))"
        "freed ps (range_clusters (xs @ [t]) ?m b) ?ok ?vol bm vol' bm'"
        using IH [of bm ?vol n] Cons.prems(1,4) by auto
      have "freed ps ({} \<union> range_clusters (xs @ [t]) ?m b)
          ((\<forall>l. map_err l False = (\<lambda>ofs. EOK)) \<and> (\<forall>e \<in> set (e # xs). LCN_HOLE \<le> lcn e)) vol bm vol' bm'"
        by (rule freed_trans [OF freed_ok [OF pre] freed_ok [OF f(2)]]) auto
      then show ?thesis unfolding append_Cons free_runs.simps Let_def if_not_P [OF go] if_not_P [OF hole] f(1)
        using chain(2) hole split by simp
    qed
  qed
qed

lemma clusters_suffix:
  assumes "rl_chain s xs m" "ys \<noteq> []" "m \<le> a"
  shows "real_clusters (xs @ ys) a b = real_clusters ys a b" "range_clusters (xs @ ys) a b = range_clusters ys a b"
proof -
  have look: "rl_lookup (xs @ ys) v = rl_lookup ys v" if "a \<le> v" for v
    using rl_lookup_append [OF assms(1,2), of v] that assms(3) rl_chain_le [OF assms(1)] by simp
  then show "real_clusters (xs @ ys) a b = real_clusters ys a b" by (auto simp: real_clusters_def)
  then show "range_clusters (xs @ ys) a b = range_clusters ys a b"
    unfolding range_clusters_def using look by (auto simp: real_clusters_def intro!: image_cong)
qed

lemma find_vcn_split:
  assumes "rl_chain s xs (vcn t)" "rl_term t" "0 \<le> v" "s \<le> v" "v < vcn t" "\<forall>e \<in> set xs. LCN_HOLE \<le> lcn e"
  obtains pre e post where "xs = pre @ e # post" "ntfs_rl_find_vcn_nolock (xs @ t # g) v = Some (Some (length pre))"
    "vcn e \<le> v" "v < vcn e + rlen e"
proof (rule rl_skip_split [OF assms(1,2,4), of g])
  fix pre e post
  assume r: "xs = pre @ e # post" "rl_skip (xs @ t # g) v = Some (length pre)" "vcn e \<le> v" "v < vcn e + rlen e"
  have "LCN_HOLE \<le> lcn ((xs @ [t]) ! length pre)" using assms(6) r(1) by (simp add: nth_append)
  moreover obtain e0 es where "xs @ t # g = e0 # es" "vcn e0 \<le> v" using assms(1,4,5) by (cases xs) auto
  ultimately have "ntfs_rl_find_vcn_nolock (xs @ t # g) v = Some (Some (length pre))"
    using find_vcn_loop_eq [OF assms(1,2,4), of g] r(2) assms(3) by (simp add: ntfs_rl_find_vcn_nolock_def)
  then show thesis using that r by blast
qed (use assms(5) in simp)

lemma free_from_rl_spec:
  assumes "full_pages ps bm" "rl_chain s xs (vcn t)" "rl_term t" "\<forall>e \<in> set xs. LCN_HOLE \<le> lcn e \<and> lcn e + rlen e < 2 ^ 63"
    "0 \<le> v" "s \<le> v" "v < vcn t" "count = - 1 \<and> b = vcn t \<or> 0 < count \<and> b = v + count \<and> b \<le> vcn t"
  shows "\<exists>err vol' bm' n. ntfs_cluster_free_from_rl_nolock ps map_err vol bm (xs @ t # g) v count = Some (err, vol', bm', n) \<and>
    full_pages ps bm' \<and> vol_keeps vol vol' \<and> (\<forall>d. d \<notin> range_clusters (xs @ [t]) v b \<longrightarrow> in_use ps bm' d = in_use ps bm d) \<and>
    (err = EOK \<longrightarrow> freed ps (range_clusters (xs @ [t]) v b) (\<forall>l. map_err l False = (\<lambda>ofs. EOK)) vol bm vol' bm' \<and>
       n = int (card (real_clusters (xs @ [t]) v b))) \<and>
    (err \<noteq> EOK \<and> \<not> vol_errors vol' \<and> (\<forall>d \<in> range_clusters (xs @ [t]) v b. in_use ps bm d) \<longrightarrow>
       (\<forall>d. in_use ps bm' d = in_use ps bm d)) \<and>
    ((\<forall>l. map_err l False = (\<lambda>ofs. EOK)) \<longrightarrow> err = EOK)"
proof -
  have "\<forall>e \<in> set xs. LCN_HOLE \<le> lcn e" using assms(4) by blast
  then obtain pre e post where e: "xs = pre @ e # post" "ntfs_rl_find_vcn_nolock (xs @ t # g) v = Some (Some (length pre))"
      "vcn e \<le> v" "v < vcn e + rlen e"
    using find_vcn_split [OF assms(2,3,5,6,7)] by metis
  have chain: "rl_chain s pre (vcn e)" "rl_chain (vcn e) (e # post) (vcn t)" "rl_chain (vcn e + rlen e) post (vcn t)"
    using assms(2) e(1) by (auto simp: rl_simps)
  let ?m = "vcn e + rlen e" and ?k = "cap_count (rlen e - (v - vcn e)) count" and ?b = "max b (vcn e + rlen e)"
  let ?c = "lcn e + (v - vcn e)" and ?F = "range_clusters (xs @ [t]) v b" and ?R = "range_clusters (post @ [t]) (vcn e + rlen e) b"
  let ?rest = "if 0 \<le> count then count - ?k else count" and ?ok = "\<forall>l. map_err l False = (\<lambda>ofs. EOK)"
  have el: "LCN_HOLE \<le> lcn e" "lcn e + rlen e < 2 ^ 63" "?m \<le> vcn t" using assms(4) e(1) rl_chain_le [OF chain(3)] by simp_all
  have k: "0 < ?k" "?k \<le> rlen e - (v - vcn e)" "min b ?m - v = ?k" "min 0 ?rest \<le> 0" "min 0 ?rest = min 0 count"
      "?rest = - 1 \<and> ?b = vcn t \<or> 0 \<le> ?rest \<and> ?b = ?m + ?rest \<and> ?b \<le> vcn t"
    using assms(8) e(3,4) el(3) by (auto simp: cap_count_def)
  have beyond: "real_clusters es ?m ?b = real_clusters es ?m b" "range_clusters es ?m ?b = range_clusters es ?m b" for es
    by (auto simp: real_clusters_def range_clusters_def)
  have rest: "\<exists>vol' bm'. free_runs ps map_err u bm1 (post @ t # g) ?rest n =
      Some (vol', bm', min 0 count, n + int (card (real_clusters (post @ [t]) ?m b))) \<and> freed ps ?R ?ok u bm1 vol' bm'"
    if "full_pages ps bm1" for u bm1 n
    using free_runs_spec [OF that chain(3) assms(3) _ k(6), unfolded beyond k(5), of map_err u g n] assms(4) e(1)
    by (auto elim!: freed_ok)
  have F: "?F = (if 0 \<le> lcn e then {?c..<?c + ?k} else {}) \<union> ?R"
    "int (card (real_clusters (xs @ [t]) v b)) = (if 0 \<le> lcn e then ?k else 0) + int (card (real_clusters (post @ [t]) ?m b))"
    using range_clusters_Cons [OF chain(2) assms(3) e(3), of b] real_clusters_Cons [OF chain(2) assms(3) e(3), of b]
      clusters_suffix [OF chain(1) _ e(3), of "e # post @ [t]" b] e(1,4) k(1,3) by (auto simp: algebra_simps)
  have rd: "rd (xs @ t # g) (length pre) = Some e" "drop (length pre + 1) (xs @ t # g) = post @ t # g" using e(1) by (simp_all add: mem_simps)
  note run = ntfs_cluster_free_from_rl_nolock_def [of ps map_err vol bm "xs @ t # g" v count, unfolded e(2) bind.bind_lunit option.case rd Let_def]
  have guard: "\<not> (v < 0 \<or> count < - 1)" "\<not> lcn e < LCN_HOLE" using assms(5,8) el(1) by auto
  show ?thesis
  proof (cases "0 \<le> lcn e")
    case True
    have c: "0 \<le> ?c" "?c + ?k < 2 ^ 63" using True e(3) k(2) el(2) by simp_all
    obtain err bm1 bad where r: "ntfs_bitmap_clear_run ps (map_err (lcn e)) bm ?c ?k = Some (err, bm1, bad)"
      "freed ps {?c..<?c + ?k} (map_err (lcn e) False = (\<lambda>ofs. EOK)) vol bm
         (if err \<noteq> EOK then set_errors True (set_errors bad vol) else add_free ?k (set_errors bad vol)) bm1"
      "err = EOK \<longrightarrow> freed ps {?c..<?c + ?k} True vol bm (add_free ?k (set_errors bad vol)) bm1"
      "map_err (lcn e) False = (\<lambda>ofs. EOK) \<longrightarrow> err = EOK"
      "err \<noteq> EOK \<and> \<not> bad \<and> (\<forall>d \<in> {?c..<?c + ?k}. in_use ps bm d) \<longrightarrow> (\<forall>d. in_use ps bm1 d = in_use ps bm d)"
      by (rule free_run_step [OF assms(1) c(1) k(1) c(2), of map_err "lcn e" vol])
    show ?thesis
    proof (cases "err = EOK")
      case ok: True
      have full: "full_pages ps bm1" using r(3) ok by (simp add: freed_def)
      obtain vol' bm' where f: "free_runs ps map_err (add_free ?k (set_errors bad vol)) bm1 (post @ t # g) ?rest ?k =
          Some (vol', bm', min 0 count, ?k + int (card (real_clusters (post @ [t]) ?m b)))"
        "freed ps ?R ?ok (add_free ?k (set_errors bad vol)) bm1 vol' bm'"
        using rest [OF full] by blast
      have all: "freed ps ?F ?ok vol bm vol' bm'"
        unfolding F if_P [OF True] by (rule freed_trans [OF freed_ok [OF mp [OF r(3) ok]] f(2)]) simp
      then show ?thesis unfolding run if_not_P [OF guard(1)] if_not_P [OF guard(2)] if_P [OF True] r(1) bind.bind_lunit prod.case
        using ok f(1) F(2) True all by (simp add: freed_def)
    next
      case bad: False
      then show ?thesis unfolding run if_not_P [OF guard(1)] if_not_P [OF guard(2)] if_P [OF True] r(1) bind.bind_lunit prod.case
        using r(2,4,5) F(1) True vol_keeps_intros(3) by (auto simp: freed_def)
    qed
  next
    case False
    obtain vol' bm' where f: "free_runs ps map_err vol bm (post @ t # g) ?rest 0 =
        Some (vol', bm', min 0 count, 0 + int (card (real_clusters (post @ [t]) ?m b)))" "freed ps ?R ?ok vol bm vol' bm'"
      using rest [OF assms(1)] by blast
    then show ?thesis unfolding run if_not_P [OF guard(1)] if_not_P [OF guard(2)] if_not_P [OF False] bind.bind_lunit prod.case
      using f(1) F False by (simp add: freed_def)
  qed
qed

end
