(* ===== verification/NTFS_Lcnalloc_Correct.thy ===== *)
theory NTFS_Lcnalloc_Correct
  imports NTFS_Lcnalloc_Search NTFS_Lcnalloc_Free
begin

text \<open>
  \<open>ntfs_cluster_alloc\<close> as a whole: that the search comes to an end, what a request gives, when it
  succeeds, and what its rollback leaves behind. The contract is \<open>gives_clusters\<close>: clusters of the
  volume that were free, each of them once, and exactly their bits set.
\<close>

section \<open>The search returns\<close>

lemma wf_search_order: "wf search_order"
  by (simp add: search_order_def)

lemma search_clusters_spec:
  assumes "alloc_ok (la_io env)" "next_inv env zone bm0 vol0 sv count next s"
  shows "\<exists>err s'. search_clusters env zone sv next s = Some (err, s') \<and> next_inv env zone bm0 vol0 sv count (Out err) s'"
  using assms(2)
proof (induction s arbitrary: "next" rule: wf_induct_rule [OF wf_search_order])
  case (1 s)
  show ?case
  proof (cases "next")
    case (Out err)
    then show ?thesis using 1(2) by (auto simp: search_clusters.simps)
  next
    case Again
    then have "search_inv env zone bm0 vol0 sv count s" using 1(2) by (simp add: next_inv_def)
    then obtain next' s' where n: "search_page env zone sv s = Some (next', s')" "next_inv env zone bm0 vol0 sv count next' s'"
      "(\<exists>err. next' = Out err) \<or> (s', s) \<in> search_order"
      using search_page_spec [OF assms(1)] by blast
    have "\<exists>err t. search_clusters env zone sv next' s' = Some (err, t) \<and> next_inv env zone bm0 vol0 sv count (Out err) t"
      using n(2,3) 1(1) by (auto simp: search_clusters.simps [of _ _ _ "Out _"])
    then show ?thesis using Again n(1) by (simp add: search_clusters.simps [of _ _ _ Again])
  next
    case Check
    then obtain next' s' where n: "zone_done zone s = Some (next', s')" "next_inv env zone bm0 vol0 sv count next' s'"
      "(\<exists>err. next' = Out err) \<or> (s', s) \<in> search_order"
      using zone_done_spec [of env zone bm0 vol0 sv count s] 1(2) by (auto simp: next_inv_def [of _ _ _ _ _ _ Check])
    have "\<exists>err t. search_clusters env zone sv next' s' = Some (err, t) \<and> next_inv env zone bm0 vol0 sv count (Out err) t"
      using n(2,3) 1(1) by (auto simp: search_clusters.simps [of _ _ _ "Out _"])
    then show ?thesis using Check n(1) by (simp add: search_clusters.simps [of _ _ _ Check])
  qed
qed

lemma first_zone_inv:
  assumes "volume_ok vol" "full_pages (la_page_size env) bm" "nr_clusters vol \<le> 8 * int (la_data_size env)"
    "0 < count" "start_lcn \<le> nr_clusters vol"
  shows "search_inv env zone bm vol sv count (first_zone zone vol bm count start_lcn)"
proof -
  let ?s = "first_zone zone vol bm count start_lcn"
  have f: "la_vol ?s = vol" "la_bm ?s = bm" "la_rl ?s = []" "la_rlpos ?s = 0" "la_rlcount ?s = 0" "clusters ?s = count"
      "bmp_pos ?s = zone_start ?s"
    by (simp_all add: first_zone_def Let_def split: prod.splits)
  have t: "taken (la_page_size env) bm vol sv count ?s" using assms(1,2) f by (simp add: taken_def volume_ok_def)
  have z: "zones_ok vol" using assms(1) by (simp add: volume_ok_def)
  show ?thesis
  proof (cases zone)
    case MFT_ZONE
    have "done_zones ?s = 0" "search_zone ?s = 1" "zone_end ?s = mft_zone_end vol" "pass ?s = 1 \<or> pass ?s = 2"
      "0 \<le> zone_start ?s" "zone_start ?s \<le> nr_clusters vol"
      using MFT_ZONE z assms(5) by (auto simp: first_zone_def Let_def zones_ok_def split: prod.splits)
    then show ?thesis using t f z assms(3,4) MFT_ZONE by (auto simp: search_inv_def zones_inv_def zone_order_def zones_ok_def)
  next
    case DATA_ZONE
    have "done_zones ?s = 1" "search_zone ?s = 2 \<and> mft_zone_end vol \<le> zone_start ?s \<or> search_zone ?s = 4"
      "zone_end ?s = zone_hi vol (search_zone ?s)" "pass ?s = 1 \<or> pass ?s = 2 \<and> zone_start ?s = zone_lo vol (search_zone ?s)"
      "0 \<le> zone_start ?s" "zone_start ?s \<le> nr_clusters vol"
      using DATA_ZONE z assms(5) by (auto simp: first_zone_def Let_def zones_ok_def split: prod.splits)
    then show ?thesis using t f z assms(3,4) DATA_ZONE
      by (auto simp: search_inv_def zones_inv_def zone_order_def zones_ok_def zone_lo_def)
  qed
qed

lemma la_terminate_spec:
  assumes "taken ps bm0 vol0 sv count s"
  obtains "la_rl s = []" "la_terminate ext s = Some []" "la_runs s = []"
  | t g where "la_terminate ext s = Some (la_runs s @ t # g)" "la_runs s \<noteq> []" "vcn t = sv + (count - clusters s)" "rl_term t"
      "lcn t = (if ext then LCN_ENOENT else LCN_RL_NOT_MAPPED)" "la_rlpos s = length (la_runs s)"
proof (cases "la_rl s = []")
  case True
  then show thesis using that(1) by (simp add: la_terminate_def)
next
  case False
  then have p: "0 < la_rlpos s" "la_rlpos s < length (la_rl s)" "rl_chain sv (la_runs s) (sv + (count - clusters s))"
    using assms by (auto simp: taken_def)
  let ?e = "la_rl s ! (la_rlpos s - 1)"
  let ?t = "\<lparr>vcn = vcn ?e + rlen ?e, lcn = if ext then LCN_ENOENT else LCN_RL_NOT_MAPPED, rlen = 0\<rparr>"
  have run: "la_terminate ext s = Some (la_runs s @ ?t # drop (la_rlpos s + 1) (la_rl s))"
    using False p(1,2) by (simp add: la_terminate_def mem_simps upd_conv_take_nth_drop)
  have "la_runs s = take (la_rlpos s - 1) (la_rl s) @ [?e]"
    using p(1,2) take_Suc_conv_app_nth [of "la_rlpos s - 1" "la_rl s"] by simp
  then have "vcn ?e + rlen ?e = sv + (count - clusters s)" using p(3) by (simp add: rl_simps)
  then show thesis by (intro that(2) [OF run]) (use p False in \<open>auto simp: rl_term_def\<close>)
qed

lemma all_clusters:
  assumes "rl_chain s xs (vcn t)" "rl_term t" "\<forall>e \<in> set xs. 0 \<le> lcn e"
  shows "range_clusters (xs @ [t]) s (vcn t) = run_clusters xs" "real_clusters (xs @ [t]) s (vcn t) = {s..<vcn t}"
  using assms
proof (induction xs arbitrary: s)
  case (Cons e xs)
  case 1
  have c: "rl_chain (s + rlen e) xs (vcn t)" "s + rlen e \<le> vcn t" using 1 rl_chain_le by auto
  then show ?case using range_clusters_Cons [OF 1(1,2), of s "vcn t"] Cons.IH(1) [OF c(1)] 1 by auto
next
  case (Cons e xs)
  case 2
  have c: "rl_chain (s + rlen e) xs (vcn t)" "s + rlen e \<le> vcn t" using 2 rl_chain_le by auto
  then show ?case using real_clusters_split [OF 2(1,2), of s "vcn t"] Cons.IH(2) [OF c(1)] 2 by auto
qed (simp_all add: range_clusters_empty real_clusters_empty)

section \<open>What an allocation gives\<close>

text \<open>
  The runlist \<open>es\<close> gives the vcns from \<open>sv\<close> on \<open>count\<close> clusters of the volume, each vcn another
  one, which were free in the bitmap \<open>bm\<close> and are what is in use in \<open>bm'\<close> besides.
\<close>

definition gives_clusters :: "nat \<Rightarrow> lcn_volume \<Rightarrow> bitmap \<Rightarrow> bitmap \<Rightarrow> int \<Rightarrow> int \<Rightarrow> ntfs_rl_element list \<Rightarrow> bool" where
  "gives_clusters ps vol bm bm' sv count es \<longleftrightarrow>
     rl_from sv es \<and> vcn (last es) = sv + count \<and> inj_on (rl_lookup es) {sv..<sv + count} \<and>
     (\<forall>v \<in> {sv..<sv + count}. 0 \<le> rl_lookup es v \<and> rl_lookup es v < nr_clusters vol \<and> \<not> in_use ps bm (rl_lookup es v)) \<and>
     (\<forall>c. in_use ps bm' c \<longleftrightarrow> in_use ps bm c \<or> c \<in> rl_lookup es ` {sv..<sv + count})"

lemma taken_gives_clusters:
  assumes "taken ps bm vol sv count s" "clusters s = 0" "vcn t = sv + count" "rl_term t"
  shows "gives_clusters ps vol bm (la_bm s) sv count (la_runs s @ [t])"
proof -
  let ?es = "la_runs s @ [t]"
  have c: "rl_chain sv (la_runs s) (vcn t)" "\<forall>e \<in> set (la_runs s). 0 \<le> lcn e" using assms by (simp_all add: taken_def)
  note all = all_clusters [OF c(1) assms(4) c(2), unfolded assms(3)]
  have img: "rl_lookup ?es ` {sv..<sv + count} = run_clusters (la_runs s)" using all by (simp add: range_clusters_def)
  have "card (rl_lookup ?es ` {sv..<sv + count}) = card {sv..<sv + count}" unfolding img using assms(1,2) by (auto simp: taken_def)
  then have inj: "inj_on (rl_lookup ?es) {sv..<sv + count}" by (intro eq_card_imp_inj_on) simp_all
  have "\<forall>v \<in> {sv..<sv + count}. rl_lookup ?es v \<in> run_clusters (la_runs s)" unfolding img [symmetric] by blast
  moreover have "0 \<le> c \<and> c < nr_clusters vol \<and> \<not> in_use ps bm c" if "c \<in> run_clusters (la_runs s)" for c
    using assms(1) that run_clusters_nonneg [OF c(2) that] by (auto simp: taken_def)
  moreover have "rl_from sv ?es" using c(1) assms(4) by (simp add: rl_from_def)
  ultimately show ?thesis unfolding gives_clusters_def img using inj assms(1,3) by (auto simp: taken_def)
qed

lemma gives_clusters_enough:
  assumes "gives_clusters ps vol bm bm' sv count es" "0 \<le> count"
  shows "count \<le> int (card {c. 0 \<le> c \<and> c < nr_clusters vol \<and> \<not> in_use ps bm c})"
proof -
  have fin: "finite {c. 0 \<le> c \<and> c < nr_clusters vol \<and> \<not> in_use ps bm c}"
    by (rule finite_subset [of _ "{0..<nr_clusters vol}"]) auto
  have "card {sv..<sv + count} = card (rl_lookup es ` {sv..<sv + count})"
    using assms(1) by (intro card_image [symmetric]) (simp add: gives_clusters_def)
  also have "\<dots> \<le> card {c. 0 \<le> c \<and> c < nr_clusters vol \<and> \<not> in_use ps bm c}"
    using assms(1) by (intro card_mono [OF fin]) (auto simp: gives_clusters_def)
  finally show ?thesis using assms(2) by simp
qed

lemma filled_no_space:
  assumes "taken ps bm vol sv count s" "0 < clusters s" "filled ps s 0 (nr_clusters vol)"
  shows "int (card {c. 0 \<le> c \<and> c < nr_clusters vol \<and> \<not> in_use ps bm c}) < count"
proof -
  have "{c. 0 \<le> c \<and> c < nr_clusters vol \<and> \<not> in_use ps bm c} \<subseteq> run_clusters (la_runs s)"
    using assms(1,3) by (auto simp: taken_def)
  then have "card {c. 0 \<le> c \<and> c < nr_clusters vol \<and> \<not> in_use ps bm c} \<le> card (run_clusters (la_runs s))"
    by (intro card_mono) simp_all
  then show ?thesis using assms(1,2) by (simp add: taken_def)
qed

text \<open>The call, for a request that passes the checks at its beginning.\<close>

lemma cluster_alloc_cases:
  assumes "alloc_ok (la_io env)" "volume_ok vol" "full_pages (la_page_size env) bm"
    "nr_clusters vol \<le> 8 * int (la_data_size env)" "lcnbmp_data_size env = la_data_size env" "vnode_get_err env = EOK"
    "0 \<le> sv" "0 < count" "- 1 \<le> start_lcn" "start_lcn \<le> nr_clusters vol"
  obtains (all) s t g where "next_inv env zone bm vol sv count (Out EOK) s" "vcn t = sv + count" "rl_term t"
      "lcn t = (if ext then LCN_ENOENT else LCN_RL_NOT_MAPPED)"
      "ntfs_cluster_alloc env vol bm sv count start_lcn zone ext r = Some (EOK, la_vol s, la_bm s,
         \<lparr>rl = la_runs s @ t # g, elements = length (la_runs s) + 1, alloc_count = la_rlcount s\<rparr>)"
  | (none) err s where "err \<noteq> EOK" "next_inv env zone bm vol sv count (Out err) s" "la_runs s = []"
      "ntfs_cluster_alloc env vol bm sv count start_lcn zone ext r = Some (err, la_vol s, la_bm s, r)"
  | (some) err s t g where "err \<noteq> EOK" "next_inv env zone bm vol sv count (Out err) s" "la_runs s \<noteq> []"
      "vcn t = sv + (count - clusters s)" "rl_term t"
      "ntfs_cluster_alloc env vol bm sv count start_lcn zone ext r = do {
         (err2, vol, bm, n) \<leftarrow> ntfs_cluster_free_from_rl_nolock (la_page_size env) (clear_err env) (la_vol s) (la_bm s)
           (la_runs s @ t # g) 0 (- 1);
         Some (err, set_errors (err2 \<noteq> EOK) vol, bm, r) }"
proof -
  have "next_inv env zone bm vol sv count Again (first_zone zone vol bm count start_lcn)"
    using first_zone_inv [OF assms(2,3,4,8,10)] by (simp add: next_inv_def)
  then obtain err s where s: "search_clusters env zone sv Again (first_zone zone vol bm count start_lcn) = Some (err, s)"
      "next_inv env zone bm vol sv count (Out err) s"
    using search_clusters_spec [OF assms(1)] by blast
  have t: "taken (la_page_size env) bm vol sv count s" using s(2) by (simp add: next_inv_def)
  have run: "ntfs_cluster_alloc env vol bm sv count start_lcn zone ext r = do {
        xs \<leftarrow> la_terminate ext s;
        if err = EOK then
          Some (EOK, la_vol s, la_bm s, \<lparr>rl = xs, elements = la_rlpos s + 1, alloc_count = la_rlcount s\<rparr>)
        else if xs \<noteq> [] then do {
          (err2, vol, bm, freed) \<leftarrow>
            ntfs_cluster_free_from_rl_nolock (la_page_size env) (clear_err env) (la_vol s) (la_bm s) xs 0 (- 1);
          Some (err, set_errors (err2 \<noteq> EOK) vol, bm, r) }
        else Some (err, la_vol s, la_bm s, r) }"
    unfolding ntfs_cluster_alloc_def s(1) bind.bind_lunit prod.case using assms(5-9) by simp
  show thesis
  proof (rule la_terminate_spec [OF t, of ext], goal_cases)
    case 1
    then have "err \<noteq> EOK" using t s(2) assms(8) by (auto simp: next_inv_def taken_def)
    then show ?case using none s(2) 1 run by simp
  next
    case (2 t g)
    then show ?case
    proof (cases "err = EOK")
      case True
      then have "clusters s = 0" using s(2) by (simp add: next_inv_def)
      then show ?thesis using all [of s t g] s(2) True 2 run by simp
    next
      case False
      then show ?thesis using some [OF False s(2) 2(2,3,4)] 2(1) run by simp
    qed
  qed
qed

lemma taken_volume_ok:
  assumes "taken ps bm vol sv count s" "zones_ok (la_vol s)" "volume_ok vol"
  shows "volume_ok (la_vol s)"
proof -
  have "0 \<le> count - clusters s" using assms(1) unfolding taken_def by (metis of_nat_0_le_iff)
  then show ?thesis using assms by (auto simp: taken_def volume_ok_def zones_ok_def)
qed

text \<open>The rollback of an allocation from vcn 0: the runs are those of a whole runlist.\<close>

lemma rollback_spec:
  assumes "taken ps bm vol 0 count s" "la_runs s \<noteq> []" "vcn t = count - clusters s" "rl_term t" "nr_clusters vol < 2 ^ 63"
  shows "\<exists>err vol' bm' n. ntfs_cluster_free_from_rl_nolock ps map_err (la_vol s) (la_bm s) (la_runs s @ t # g) 0 (- 1) =
      Some (err, vol', bm', n) \<and> full_pages ps bm' \<and> vol_keeps (la_vol s) vol' \<and> (\<forall>c. in_use ps bm c \<longrightarrow> in_use ps bm' c) \<and>
      (err = EOK \<and> \<not> vol_errors vol' \<longrightarrow> (\<forall>c. in_use ps bm' c = in_use ps bm c))"
proof -
  have c: "rl_chain 0 (la_runs s) (vcn t)" "\<forall>e \<in> set (la_runs s). 0 \<le> lcn e" "full_pages ps (la_bm s)"
    "\<And>d. in_use ps (la_bm s) d \<longleftrightarrow> in_use ps bm d \<or> d \<in> run_clusters (la_runs s)"
    "\<And>d. d \<in> run_clusters (la_runs s) \<Longrightarrow> \<not> in_use ps bm d \<and> d < nr_clusters vol"
    using assms(1,3) by (auto simp: taken_def)
  have pos: "0 < rlen e" if "e \<in> set xs" "rl_chain a xs b" for e a b and xs :: "ntfs_rl_element list"
    using that by (induction xs arbitrary: a) auto
  have "lcn e + rlen e < 2 ^ 63" if "e \<in> set (la_runs s)" for e
  proof -
    have "lcn e + rlen e - 1 \<in> run_clusters (la_runs s)" using that pos [OF that c(1)] by (auto simp: run_clusters_def intro!: bexI [of _ e])
    then show ?thesis using c(5) assms(5) by force
  qed
  then have e: "\<forall>e \<in> set (la_runs s). LCN_HOLE \<le> lcn e \<and> lcn e + rlen e < 2 ^ 63" using c(2) by force
  have lt: "0 < vcn t" using c(1) assms(2) rl_chain_length [OF c(1)] by (cases "la_runs s") auto
  let ?C = "run_clusters (la_runs s)"
  obtain err vol' bm' n where f: "ntfs_cluster_free_from_rl_nolock ps map_err (la_vol s) (la_bm s) (la_runs s @ t # g) 0 (- 1) =
      Some (err, vol', bm', n)" "full_pages ps bm'" "vol_keeps (la_vol s) vol'" "\<And>d. d \<notin> ?C \<Longrightarrow> in_use ps bm' d = in_use ps (la_bm s) d"
    "err = EOK \<Longrightarrow> freed ps ?C (\<forall>l. map_err l False = (\<lambda>ofs. EOK)) (la_vol s) (la_bm s) vol' bm'"
    using free_from_rl_spec [OF c(3,1) assms(4) e order_refl order_refl lt, of "- 1" "vcn t" map_err "la_vol s" g]
    unfolding all_clusters(1) [OF c(1) assms(4) c(2)] by blast
  have keep: "in_use ps bm' d" if "in_use ps bm d" for d using f(4) [of d] c(4,5) [of d] that by blast
  have "in_use ps bm' d = in_use ps bm d" if "err = EOK" "\<not> vol_errors vol'" for d
    using keep [of d] f(5) [OF that(1)] that(2) c(4) [of d] unfolding freed_def by blast
  then show ?thesis using f(1-3) keep by blast
qed

text \<open>
  Elsewhere the rollback finds nothing to free, as the runlist does not begin at vcn 0.
\<close>

lemma rollback_above_0:
  assumes "taken ps bm vol sv count s" "la_runs s \<noteq> []" "0 < sv"
  shows "ntfs_cluster_free_from_rl_nolock ps map_err (la_vol s) (la_bm s) (la_runs s @ t # g) 0 (- 1) = Some (EOK, la_vol s, la_bm s, 0)"
proof -
  obtain e es where e: "la_runs s @ t # g = e # es" "vcn e = sv"
    using assms(1,2) by (cases "la_runs s") (auto simp: taken_def)
  then show ?thesis using assms(3) by (simp add: ntfs_cluster_free_from_rl_nolock_def ntfs_rl_find_vcn_nolock_def)
qed

lemma cluster_alloc_spec:
  assumes "alloc_ok (la_io env)" "volume_ok vol" "full_pages (la_page_size env) bm"
    "nr_clusters vol \<le> 8 * int (la_data_size env)" "nr_clusters vol < 2 ^ 63" "lcnbmp_data_size env = la_data_size env"
    "0 \<le> sv" "0 < count" "- 1 \<le> start_lcn" "start_lcn \<le> nr_clusters vol"
  shows "\<exists>err vol' bm' r'. ntfs_cluster_alloc env vol bm sv count start_lcn zone ext r = Some (err, vol', bm', r') \<and>
    volume_ok vol' \<and> full_pages (la_page_size env) bm' \<and>
    nr_clusters vol' = nr_clusters vol \<and> (vol_errors vol \<longrightarrow> vol_errors vol') \<and>
    (\<forall>c. in_use (la_page_size env) bm c \<longrightarrow> in_use (la_page_size env) bm' c) \<and>
    (err = EOK \<longrightarrow> gives_clusters (la_page_size env) vol bm bm' sv count (els r') \<and>
       lcn (last (els r')) = (if ext then LCN_ENOENT else LCN_RL_NOT_MAPPED) \<and>
       nr_free_clusters vol' = max 0 (nr_free_clusters vol - count)) \<and>
    (err \<noteq> EOK \<longrightarrow> r' = r \<and>
       (sv = 0 \<and> \<not> vol_errors vol' \<longrightarrow> (\<forall>c. in_use (la_page_size env) bm' c = in_use (la_page_size env) bm c)))"
proof (cases "vnode_get_err env = EOK")
  case False
  then show ?thesis using assms by (simp add: ntfs_cluster_alloc_def)
next
  case True
  let ?ps = "la_page_size env"
  have out: "taken ?ps bm vol sv count s" "volume_ok (la_vol s)" "full_pages ?ps (la_bm s)" "in_use ?ps bm c \<Longrightarrow> in_use ?ps (la_bm s) c"
      "nr_clusters (la_vol s) = nr_clusters vol" "vol_errors (la_vol s) = vol_errors vol"
    if "next_inv env zone bm vol sv count (Out err) s" for err s c
    using that taken_volume_ok [of ?ps bm vol sv count s, OF _ _ assms(2)] by (auto simp: next_inv_def taken_def)
  show ?thesis
  proof (rule cluster_alloc_cases [OF assms(1-4,6) True assms(7-10), of zone ext r], goal_cases)
    case (1 s t g)
    have z: "clusters s = 0" using 1(1) by (simp add: next_inv_def)
    have "nr_free_clusters (la_vol s) = max 0 (nr_free_clusters vol - count)" using out(1) [OF 1(1)] z by (simp add: taken_def)
    moreover define r' where "r' = \<lparr>rl = la_runs s @ t # g, elements = length (la_runs s) + 1, alloc_count = la_rlcount s\<rparr>"
    have "els \<lparr>rl = xs @ t # g, elements = length xs + 1, alloc_count = n\<rparr> = xs @ [t]" for xs n by simp
    then have "els r' = la_runs s @ [t]" unfolding r'_def .
    then have "gives_clusters ?ps vol bm (la_bm s) sv count (els r')" "lcn (last (els r')) = lcn t"
      using taken_gives_clusters [OF out(1) [OF 1(1)] z 1(2,3)] by simp_all
    ultimately show ?case using 1(4) out [OF 1(1)] unfolding 1(5) r'_def [symmetric] by simp
  next
    case (2 err s)
    then show ?case using out [OF 2(2)] by (auto simp: taken_def)
  next
    case (3 err s t g)
    show ?case
    proof (cases "sv = 0")
      case True
      have t: "vcn t = count - clusters s" using 3(4) True by simp
      obtain err2 vol' bm' n where f: "ntfs_cluster_free_from_rl_nolock ?ps (clear_err env) (la_vol s) (la_bm s) (la_runs s @ t # g) 0 (- 1) =
          Some (err2, vol', bm', n)" "full_pages ?ps bm'" "vol_keeps (la_vol s) vol'" "\<forall>c. in_use ?ps bm c \<longrightarrow> in_use ?ps bm' c"
        "err2 = EOK \<and> \<not> vol_errors vol' \<longrightarrow> (\<forall>c. in_use ?ps bm' c = in_use ?ps bm c)"
        using rollback_spec [OF out(1) [OF 3(2), unfolded True] 3(3) t 3(5) assms(5)] by blast
      have "volume_ok (set_errors (err2 \<noteq> EOK) vol')"
        using f(3) out(2) [OF 3(2)] vol_keeps_intros(3) by (auto simp: vol_keeps_def)
      moreover have "nr_clusters (set_errors (err2 \<noteq> EOK) vol') = nr_clusters vol" "vol_errors vol \<longrightarrow> vol_errors vol'"
        using f(3) out(5,6) [OF 3(2)] by (auto simp: vol_keeps_def set_errors_def)
      ultimately show ?thesis using 3(1,6) f by auto
    next
      case False
      then have "0 < sv" using assms(7) by simp
      note rollback_above_0 [OF out(1) [OF 3(2)] 3(3) this, of "clear_err env" t g]
      then show ?thesis using 3(1,6) out [OF 3(2)] False by (auto simp: set_errors_def)
    qed
  qed
qed

text \<open>
  C3. The cluster allocator. On a volume with consistent zones every request returns and keeps
  the volume consistent, and no cluster that is in use is given away or freed. A successful
  request gives the vcns clusters of the volume that were free, no two of them the same, and
  these are exactly the bits that are set in the bitmap. A request for the clusters of a whole
  file that fails leaves the bitmap as it was, unless the volume is marked as having errors.
  (The wait for the i/o of old buffers, \<open>buf_invalblkno\<close>, is taken to end.)
\<close>

theorem cluster_alloc_correct:
  assumes "alloc_ok (la_io env)" "volume_ok vol" "full_pages (la_page_size env) bm"
    "nr_clusters vol \<le> 8 * int (la_data_size env)" "nr_clusters vol < 2 ^ 63" "lcnbmp_data_size env = la_data_size env"
    "0 \<le> sv" "0 < count" "- 1 \<le> start_lcn" "start_lcn \<le> nr_clusters vol"
  shows "\<exists>err vol' bm' r'. ntfs_cluster_alloc env vol bm sv count start_lcn zone ext r = Some (err, vol', bm', r') \<and>
    volume_ok vol' \<and> full_pages (la_page_size env) bm' \<and>
    nr_clusters vol' = nr_clusters vol \<and> (vol_errors vol \<longrightarrow> vol_errors vol') \<and>
    (\<forall>c. in_use (la_page_size env) bm c \<longrightarrow> in_use (la_page_size env) bm' c) \<and>
    (err = EOK \<longrightarrow> gives_clusters (la_page_size env) vol bm bm' sv count (els r') \<and>
       lcn (last (els r')) = (if ext then LCN_ENOENT else LCN_RL_NOT_MAPPED) \<and>
       nr_free_clusters vol' = max 0 (nr_free_clusters vol - count)) \<and>
    (err \<noteq> EOK \<longrightarrow> r' = r \<and>
       (sv = 0 \<and> \<not> vol_errors vol' \<longrightarrow> (\<forall>c. in_use (la_page_size env) bm' c = in_use (la_page_size env) bm c)))"
  by (rule cluster_alloc_spec [OF assms])

text \<open>
  A volume of 32 clusters, of which 6, 28 and 29 are free, with a bitmap of two pages of two
  bytes. The mft zone has the clusters from 4 up to 12.
\<close>

definition small_env :: la_env where
  "small_env = \<lparr>la_page_size = 2, la_data_size = 4, lcnbmp_data_size = 4, vnode_get_err = EOK, map_page = (\<lambda>s. EOK),
     clear_err = (\<lambda>l rollback ofs. EOK), la_io = (\<lambda>n. if n \<le> 100 then Some (replicate n \<lparr>vcn = 0, lcn = 0, rlen = 0\<rparr>) else None)\<rparr>"

definition small_vol :: lcn_volume where
  "small_vol = \<lparr>nr_clusters = 32, nr_free_clusters = 3, mft_lcn = 4, mft_zone_start = 4, mft_zone_end = 12, mft_zone_pos = 4,
     data1_zone_pos = 20, data2_zone_pos = 0, mft_data_pos = 0, vol_errors = False\<rparr>"

definition small_bm :: bitmap where
  "small_bm ofs = (if ofs = 0 then [0xbf, 0xff] else [0xff, 0xcf])"

lemma small_ok:
  "alloc_ok (la_io small_env)" "volume_ok small_vol" "full_pages (la_page_size small_env) small_bm"
  "nr_clusters small_vol \<le> 8 * int (la_data_size small_env)" "nr_clusters small_vol < 2 ^ 63"
  "lcnbmp_data_size small_env = la_data_size small_env" "- 1 \<le> (- 1 :: int)" "- 1 \<le> nr_clusters small_vol"
  by (auto simp: small_env_def small_vol_def small_bm_def alloc_ok_def volume_ok_def zones_ok_def full_pages_def split: if_splits)

theorem cluster_alloc_correct_witness:
  "\<exists>vol' bm' r'. ntfs_cluster_alloc small_env small_vol small_bm 5 3 (- 1) DATA_ZONE True ntfs_rl_init = Some (EOK, vol', bm', r') \<and>
     els r' = [\<lparr>vcn = 5, lcn = 28, rlen = 2\<rparr>, \<lparr>vcn = 7, lcn = 6, rlen = 1\<rparr>, \<lparr>vcn = 8, lcn = - 3, rlen = 0\<rparr>] \<and>
     gives_clusters 2 small_vol small_bm bm' 5 3 (els r')"
proof -
  have "map_option (\<lambda>(err, vol, bm, r). (err, els r)) (ntfs_cluster_alloc small_env small_vol small_bm 5 3 (- 1) DATA_ZONE True ntfs_rl_init) =
      Some (EOK, [\<lparr>vcn = 5, lcn = 28, rlen = 2\<rparr>, \<lparr>vcn = 7, lcn = 6, rlen = 1\<rparr>, \<lparr>vcn = 8, lcn = - 3, rlen = 0\<rparr>])"
    by code_simp
  then show ?thesis
    using cluster_alloc_correct [OF small_ok(1-6) _ _ small_ok(7,8), of 5 3 DATA_ZONE True ntfs_rl_init]
    by (auto simp: small_env_def)
qed

text \<open>
  C4. Allocation succeeds whenever it can: a request for data clusters is satisfied if the volume
  has that many free clusters anywhere, in the data zones or in the mft zone, wherever the search
  begins, as long as the pages of the bitmap can be mapped and there is memory for the runs.
\<close>

theorem cluster_alloc_succeeds:
  assumes "alloc_ok (la_io env)" "volume_ok vol" "full_pages (la_page_size env) bm"
    "nr_clusters vol \<le> 8 * int (la_data_size env)" "lcnbmp_data_size env = la_data_size env"
    "0 \<le> sv" "0 < count" "- 1 \<le> start_lcn" "start_lcn \<le> nr_clusters vol"
    "vnode_get_err env = EOK" "\<forall>s. map_page env s = EOK" "\<forall>n. int n \<le> count + 43 \<longrightarrow> la_io env n \<noteq> None"
    "count \<le> int (card {c. 0 \<le> c \<and> c < nr_clusters vol \<and> \<not> in_use (la_page_size env) bm c})"
  shows "\<exists>vol' bm' r'. ntfs_cluster_alloc env vol bm sv count start_lcn DATA_ZONE ext r = Some (EOK, vol', bm', r')"
proof -
  have no_error: False if "err \<noteq> EOK" "next_inv env DATA_ZONE bm vol sv count (Out err) s" for err s
  proof -
    have s: "taken (la_page_size env) bm vol sv count s" "0 < clusters s" "filled (la_page_size env) s 0 (nr_clusters vol)"
      using that assms(11,12) by (auto simp: next_inv_def no_memory_def taken_def)
    show False using filled_no_space [OF s] assms(13) by simp
  qed
  show ?thesis
    by (rule cluster_alloc_cases [OF assms(1-5,10) assms(6-9), of DATA_ZONE ext r]) (use no_error in blast)+
qed

lemma small_free: "{c. 0 \<le> c \<and> c < nr_clusters small_vol \<and> \<not> in_use (la_page_size small_env) small_bm c} = {6, 28, 29}"
proof -
  have "{c. 0 \<le> c \<and> c < nr_clusters small_vol \<and> \<not> in_use (la_page_size small_env) small_bm c} =
      set (filter (\<lambda>c. \<not> in_use 2 small_bm c) [0..31])"
    by (auto simp: small_vol_def small_env_def)
  also have "\<dots> = {6, 28, 29}" by code_simp
  finally show ?thesis .
qed

theorem cluster_alloc_succeeds_witness:
  "\<exists>vol' bm' r'. ntfs_cluster_alloc small_env small_vol small_bm 7 3 10 DATA_ZONE False ntfs_rl_init = Some (EOK, vol', bm', r')"
  by (rule cluster_alloc_succeeds [OF small_ok(1-4,6)], unfold small_free) (simp_all add: small_env_def small_vol_def)

text \<open>
  C8. A request at a vcn above 0 for more data clusters than the volume has loses all of them: it
  returns \<open>ENOSPC\<close> with every cluster of the volume marked as in use and no runlist that has
  them, and the volume is not marked as having errors. The rollback looks for vcn 0, which is
  not in the runlist, and takes that for nothing to free.
\<close>

theorem cluster_alloc_loses_clusters:
  assumes "alloc_ok (la_io env)" "volume_ok vol" "full_pages (la_page_size env) bm"
    "nr_clusters vol \<le> 8 * int (la_data_size env)" "lcnbmp_data_size env = la_data_size env"
    "0 < sv" "0 < count" "- 1 \<le> start_lcn" "start_lcn \<le> nr_clusters vol"
    "vnode_get_err env = EOK" "\<forall>s. map_page env s = EOK" "\<forall>n. int n \<le> count + 43 \<longrightarrow> la_io env n \<noteq> None"
    "int (card {c. 0 \<le> c \<and> c < nr_clusters vol \<and> \<not> in_use (la_page_size env) bm c}) < count"
  shows "\<exists>vol' bm'. ntfs_cluster_alloc env vol bm sv count start_lcn DATA_ZONE ext r = Some (ENOSPC, vol', bm', r) \<and>
    (\<forall>c. 0 \<le> c \<and> c < nr_clusters vol \<longrightarrow> in_use (la_page_size env) bm' c) \<and> vol_errors vol' = vol_errors vol"
proof -
  let ?ps = "la_page_size env"
  have sv: "0 \<le> sv" using assms(6) by simp
  have out: "err = ENOSPC \<and> taken ?ps bm vol sv count s \<and> (\<forall>c. 0 \<le> c \<and> c < nr_clusters vol \<longrightarrow> in_use ?ps (la_bm s) c) \<and>
      vol_errors (la_vol s) = vol_errors vol"
    if "err \<noteq> EOK" "next_inv env DATA_ZONE bm vol sv count (Out err) s" for err s
    using that assms(11,12) by (auto simp: next_inv_def no_memory_def taken_def)
  show ?thesis
  proof (rule cluster_alloc_cases [OF assms(1-5,10) sv assms(7-9), of DATA_ZONE ext r], goal_cases)
    case (1 s t g)
    then have "gives_clusters ?ps vol bm (la_bm s) sv count (la_runs s @ [t])"
      by (intro taken_gives_clusters) (simp_all add: next_inv_def)
    then show ?case using gives_clusters_enough assms(7,13) by fastforce
  next
    case (2 err s)
    then show ?case using out [OF 2(1,2)] by simp
  next
    case (3 err s t g)
    have t: "taken ?ps bm vol sv count s" using out [OF 3(1,2)] by blast
    show ?case using 3(6) out [OF 3(1,2)] rollback_above_0 [OF t 3(3) assms(6), of "clear_err env" t g] by (simp add: set_errors_def)
  qed
qed

theorem cluster_alloc_loses_clusters_witness:
  "\<exists>vol' bm'. ntfs_cluster_alloc small_env small_vol small_bm 7 4 10 DATA_ZONE False ntfs_rl_init = Some (ENOSPC, vol', bm', ntfs_rl_init) \<and>
    (\<forall>c. 0 \<le> c \<and> c < 32 \<longrightarrow> in_use 2 bm' c) \<and> \<not> vol_errors vol'"
proof -
  have "int (card {c. 0 \<le> c \<and> c < nr_clusters small_vol \<and> \<not> in_use (la_page_size small_env) small_bm c}) < 4"
    unfolding small_free by simp
  then show ?thesis
    using cluster_alloc_loses_clusters [OF small_ok(1-4,6), of 7 4 10 False ntfs_rl_init]
    by (simp add: small_env_def small_vol_def)
qed

end
