(* ===== verification/NTFS_Bitcount.thy ===== *)
theory NTFS_Bitcount
  imports NTFS_Lcnalloc
begin

unbundle bit_operations_syntax

text \<open>
  Counting the free clusters of a volume at mount time, \<open>kext/ntfs_vfsops.c\<close>: the number of set bits
  of a word (\<open>ntfs_popcount32\<close>), of a bitmap (\<open>ntfs_get_nr_set_bits\<close>), and the number of free clusters
  (\<open>ntfs_set_nr_free_clusters\<close>).

  The bitmap and the errors of mapping its pages are as in the theory of bitmaps. A page that is
  mapped has zeroes behind the end of the attribute.
\<close>

section \<open>The code\<close>

definition ntfs_popcount32 :: "u32 \<Rightarrow> u32" where
  "ntfs_popcount32 v =
     (let w = v - (drop_bit 1 v AND 0x55555555);
          x = (w AND 0x33333333) + (drop_bit 2 w AND 0x33333333) in
      drop_bit 24 (((x + drop_bit 4 x) AND 0x0F0F0F0F) * 0x01010101))"

text \<open>The loop over \<open>n\<close> words of a page from word \<open>i\<close> on.\<close>

fun count_words :: "u8 list \<Rightarrow> nat \<Rightarrow> nat \<Rightarrow> nat \<Rightarrow> nat option" where
  "count_words p i 0 nr_set = Some nr_set"
| "count_words p i (Suc n) nr_set = do {
     w \<leftarrow> rd32 p (4 * i);
     count_words p (i + 1) n (nr_set + unat (ntfs_popcount32 (word_of_nat w))) }"

text \<open>The loop over the pages. A page with an i/o error counts as full, another error ends it.\<close>

function count_pages ::
  "nat \<Rightarrow> (nat \<Rightarrow> errno) \<Rightarrow> bitmap \<Rightarrow> nat \<Rightarrow> nat \<Rightarrow> nat \<Rightarrow> (errno + nat) option" where
  "count_pages page_size map_err bm max_ofs ofs nr_set =
     (if ofs < max_ofs \<and> page_size \<noteq> 0 then
        if map_err ofs = EOK then
          (case count_words (bm ofs) 0 (page_size div 4) nr_set of
             None \<Rightarrow> None
           | Some nr_set \<Rightarrow> count_pages page_size map_err bm max_ofs (ofs + page_size) nr_set)
        else if map_err ofs \<noteq> EIO then Some (Inl (map_err ofs))
        else count_pages page_size map_err bm max_ofs (ofs + page_size) (nr_set + page_size * 8)
      else Some (Inr nr_set))"
  by pat_completeness auto
termination
  by (relation "measure (\<lambda>(ps, me, bm, max_ofs, ofs, n). max_ofs - ofs)") auto

declare count_pages.simps [simp del]

definition ntfs_get_nr_set_bits ::
  "nat \<Rightarrow> errno \<Rightarrow> (nat \<Rightarrow> errno) \<Rightarrow> bitmap \<Rightarrow> int \<Rightarrow> (errno + nat) option" where
  "ntfs_get_nr_set_bits page_size vnode_err map_err bm nr_bits =
     (if vnode_err \<noteq> EOK then Some (Inl vnode_err)
      else count_pages page_size map_err bm (nat ((nr_bits + 7) div 8)) 0 0)"

definition ntfs_set_nr_free_clusters ::
  "nat \<Rightarrow> errno \<Rightarrow> (nat \<Rightarrow> errno) \<Rightarrow> bitmap \<Rightarrow> lcn_volume \<Rightarrow> (errno \<times> lcn_volume) option" where
  "ntfs_set_nr_free_clusters page_size vnode_err map_err bm vol = do {
     r \<leftarrow> ntfs_get_nr_set_bits page_size vnode_err map_err bm (nr_clusters vol);
     case r of
       Inl err \<Rightarrow> Some (err, vol)
     | Inr nr_set \<Rightarrow> do {
         let nr_free = nr_clusters vol - int nr_set;
         let nr_free = (if nr_clusters vol mod 64 \<noteq> 0 then nr_free + (64 - nr_clusters vol mod 64) else nr_free);
         Some (EOK, vol\<lparr>nr_free_clusters := max 0 nr_free\<rparr>) } }"

section \<open>Digits to the base 16\<close>

fun digits :: "nat list \<Rightarrow> nat" where
  "digits [] = 0"
| "digits (a # as) = a + 16 * digits as"

abbreviation nibbles :: "nat list \<Rightarrow> bool" where
  "nibbles as \<equiv> \<forall>a \<in> set as. a < 16"

lemma digits_exist: "v < 16 ^ n \<Longrightarrow> \<exists>as. length as = n \<and> nibbles as \<and> digits as = v"
proof (induction n arbitrary: v)
  case (Suc n)
  have "v div 16 < 16 ^ n" using Suc.prems by (simp add: less_mult_imp_div_less mult.commute)
  then obtain as where "length as = n" "nibbles as" "digits as = v div 16" using Suc.IH by blast
  then show ?case by (intro exI [of _ "v mod 16 # as"]) simp
qed simp

lemma digits_mono: "\<forall>a \<in> set as. a \<le> m \<Longrightarrow> digits as \<le> digits (replicate (length as) m)"
  by (induction as) (auto simp: add_mono)

lemma digits_less: "nibbles as \<Longrightarrow> digits as < 16 ^ length as"
  by (induction as) auto

lemma bit_less_exp: "a < 2 ^ s \<Longrightarrow> bit a m \<Longrightarrow> m < s" for a :: nat
  using take_bit_nat_eq_self_iff [of s a] bit_take_bit_iff [of s a m] by simp

lemma bit_joined: "a < 2 ^ s \<Longrightarrow> bit (a + 2 ^ s * b) n = (if n < s then bit a n else bit b (n - s))" for a b :: nat
proof -
  assume a: "a < 2 ^ s"
  have "bit (2 ^ s * b) m \<Longrightarrow> s \<le> m" for m using bit_push_bit_iff [of s b m] by (simp add: push_bit_eq_mult mult.commute)
  then have "a + 2 ^ s * b = a OR 2 ^ s * b" using bit_less_exp [OF a] by (intro disjunctive_add) fastforce
  then show ?thesis using bit_less_exp [OF a, of n] bit_push_bit_iff [of s b n] by (auto simp: bit_or_iff push_bit_eq_mult mult.commute)
qed

lemmas bit_nibble = bit_less_exp [of _ 4, simplified]
lemmas bit_digit = bit_joined [of _ 4, simplified]

text \<open>A mask that hides the bits that move from one digit to the one below.\<close>

lemma digit_drop_and:
  fixes a b m n :: nat
  assumes "a < 16" "m < 2 ^ (4 - k)" "k < 4"
  shows "drop_bit k (a + 16 * b) AND (m + 16 * n) = (drop_bit k a AND m) + 16 * (drop_bit k b AND n)"
proof (rule bit_eqI)
  fix i
  have m16: "m < 16" using assms(2) power_increasing [of "4 - k" 4 "2 :: nat"] by simp
  have "drop_bit k a \<le> a" by (simp add: drop_bit_eq_div)
  then have "take_bit 4 (drop_bit k a) = drop_bit k a" "take_bit 4 m = m" using assms(1) m16 by (simp_all add: take_bit_nat_eq_self)
  then have d16: "(drop_bit k a AND m) < 16" using take_bit_nat_less_exp [of 4 "drop_bit k a AND m"] by simp
  have low: "bit m i \<Longrightarrow> i + k < 4"
    using assms(2) take_bit_nat_eq_self_iff [of "4 - k" m] bit_take_bit_iff [of "4 - k" m i] by simp
  show "bit (drop_bit k (a + 16 * b) AND (m + 16 * n)) i = bit ((drop_bit k a AND m) + 16 * (drop_bit k b AND n)) i"
    using low bit_nibble [OF m16, of i] unfolding bit_digit [OF d16]
    by (auto simp: bit_and_iff bit_drop_bit_eq bit_digit [OF assms(1)] bit_digit [OF m16] add.commute)
qed

lemma digits_drop_and:
  assumes "nibbles as" "m < 2 ^ (4 - k)" "k < 4"
  shows "drop_bit k (digits as) AND digits (replicate (length as) m) = digits (map (\<lambda>a. drop_bit k a AND m) as)"
  using assms(1) by (induction as) (simp_all add: digit_drop_and [OF _ assms(2,3)])

lemma digits_and:
  assumes "nibbles as" "nibbles bs" "length as = length bs"
  shows "digits as AND digits bs = digits (map2 (AND) as bs)"
  using assms(3,1,2) by (induction as bs rule: list_induct2) (use digit_drop_and [of _ _ 0] in simp_all)

lemma digits_add: "digits (map f as) + digits (map g as) = digits (map (\<lambda>a. f a + g a) as)"
  by (induction as) simp_all

text \<open>The bits of a digit, as the first two lines of the function count them.\<close>

definition nibble_pairs :: "nat \<Rightarrow> nat" where
  "nibble_pairs a = a - (drop_bit 1 a AND 5)"

definition nibble_count :: "nat \<Rightarrow> nat" where
  "nibble_count a = (nibble_pairs a AND 3) + (drop_bit 2 (nibble_pairs a) AND 3)"

lemma nibble_table:
  assumes "a < 16"
  shows "(drop_bit 1 a AND 5) \<le> a" "nibble_pairs a < 16" "nibble_count a \<le> 4" "card {i. bit a i} = nibble_count a"
proof -
  have "\<forall>a \<in> set [0..<16]. (drop_bit 1 a AND 5) \<le> a \<and> nibble_pairs a < 16 \<and> nibble_count a \<le> 4 \<and>
      length (filter (bit a) [0..<4]) = nibble_count a"
    by code_simp
  moreover have "{i. bit a i} = set (filter (bit a) [0..<4])" using bit_nibble [OF assms] by auto
  moreover have "card (set (filter (bit a) [0..<4])) = length (filter (bit a) [0..<4])" by (rule distinct_card) simp
  ultimately show "(drop_bit 1 a AND 5) \<le> a" "nibble_pairs a < 16" "nibble_count a \<le> 4" "card {i. bit a i} = nibble_count a"
    using assms by auto
qed

lemma card_bits_digits: "nibbles as \<Longrightarrow> finite {i. bit (digits as) i} \<and> card {i. bit (digits as) i} = sum_list (map nibble_count as)"
proof (induction as)
  case (Cons a as)
  have a: "a < 16" using Cons.prems by simp
  let ?B = "(\<lambda>i. i + 4) ` {i. bit (digits as) i}"
  have "{i. bit (digits (a # as)) i} = {i. bit a i} \<union> ?B"
  proof (intro equalityI subsetI)
    fix i
    assume i: "i \<in> {i. bit (digits (a # as)) i}"
    then have "i \<in> ?B" if "\<not> i < 4" using that by (intro image_eqI [of _ _ "i - 4"]) (auto simp: bit_digit [OF a])
    then show "i \<in> {i. bit a i} \<union> ?B" using i by (cases "i < 4") (auto simp: bit_digit [OF a])
  qed (use bit_nibble [OF a] in \<open>auto simp: bit_digit [OF a]\<close>)
  moreover have "{i. bit a i} \<inter> ?B = {}" "finite {i. bit a i}" using bit_nibble [OF a] finite_subset [of "{i. bit a i}" "{..<4}"] by auto
  moreover have "card ?B = card {i. bit (digits as) i}" by (rule card_image) simp
  ultimately show ?case using Cons nibble_table(4) [OF a] by (simp add: card_Un_disjoint)
qed (simp add: bot_fun_def)

section \<open>The number of set bits of a word\<close>

lemma sum_bytes:
  fixes a b c d :: nat
  assumes "a \<le> 8" "b \<le> 8" "c \<le> 8" "d \<le> 8"
  shows "drop_bit 24 ((a + 256 * b + 65536 * c + 16777216 * d) * 16843009 mod 2 ^ 32) = a + b + c + d"
proof -
  have "(a + 256 * b + 65536 * c + 16777216 * d) * 16843009 =
      (a + 256 * (a + b) + 65536 * (a + b + c) + 16777216 * (a + b + c + d)) + 2 ^ 32 * ((b + c + d) + 256 * (c + d) + 65536 * d)"
    by simp
  moreover have "a + 256 * (a + b) + 65536 * (a + b + c) + 16777216 * (a + b + c + d) < 2 ^ 32" using assms by simp
  ultimately have "(a + 256 * b + 65536 * c + 16777216 * d) * 16843009 mod 2 ^ 32 =
      (a + 256 * (a + b) + 65536 * (a + b + c)) + 16777216 * (a + b + c + d)"
    by (simp only: mod_mult_self2 mod_less)
  then show ?thesis using assms by (simp add: drop_bit_eq_div)
qed

lemma list_of_8: "length xs = 8 \<Longrightarrow> \<exists>a b c d e f g h. xs = [a, b, c, d, e, f, g, h]"
  by (auto simp: numeral_eq_Suc length_Suc_conv)

lemma replicate_8: "replicate 8 x = [x, x, x, x, x, x, x, x]"
  by (simp add: numeral_eq_Suc)

lemma fold_digits:
  assumes "length cs = 8" "\<forall>c \<in> set cs. c \<le> 4"
  shows "drop_bit 24 (((digits cs + drop_bit 4 (digits cs)) AND 0x0F0F0F0F) * 16843009 mod 2 ^ 32) = sum_list cs"
proof -
  obtain a b c d e f g h where cs: "cs = [a, b, c, d, e, f, g, h]" using list_of_8 [OF assms(1)] by blast
  have le: "a \<le> 4" "b \<le> 4" "c \<le> 4" "d \<le> 4" "e \<le> 4" "f \<le> 4" "g \<le> 4" "h \<le> 4" using assms(2) by (simp_all add: cs)
  have "\<forall>n \<in> set [0..<9]. n AND 15 = n" by code_simp
  then have low: "n AND 15 = n" if "n \<le> 8" for n :: nat using that by simp
  have sum: "digits cs + drop_bit 4 (digits cs) = digits [a + b, b + c, c + d, d + e, e + f, f + g, g + h, h]"
    using le by (simp add: cs drop_bit_eq_div)
  have mask: "0x0F0F0F0F = digits [15, 0, 15, 0, 15, 0, 15, 0]" by simp
  have "digits [a + b, b + c, c + d, d + e, e + f, f + g, g + h, h] AND digits [15, 0, 15, 0, 15, 0, 15, 0] =
      digits [a + b, 0, c + d, 0, e + f, 0, g + h, 0]"
    using le by (subst digits_and) (simp_all add: low)
  also have "\<dots> = (a + b) + 256 * (c + d) + 65536 * (e + f) + 16777216 * (g + h)" by simp
  finally have bytes: "digits [a + b, b + c, c + d, d + e, e + f, f + g, g + h, h] AND digits [15, 0, 15, 0, 15, 0, 15, 0] =
      (a + b) + 256 * (c + d) + 65536 * (e + f) + 16777216 * (g + h)" .
  show ?thesis unfolding sum mask bytes by (subst sum_bytes) (use le in \<open>simp_all add: cs\<close>)
qed

lemma unat_popcount32: "unat (ntfs_popcount32 v) = card {i. bit v i}"
proof -
  obtain as where as: "length as = 8" "nibbles as" "digits as = unat v"
    using digits_exist [of "unat v" 8] unsigned_less [of v] by auto
  let ?ws = "map nibble_pairs as" and ?cs = "map nibble_count as"
  have ws: "length ?ws = 8" "nibbles ?ws" and cs: "length ?cs = 8" "\<forall>c \<in> set ?cs. c \<le> 4" "nibbles ?cs"
    using as nibble_table by fastforce+
  have rep: "digits (replicate 8 m) = m * 286331153" for m by (simp add: replicate_8)
  define w where "w = v - (drop_bit 1 v AND 0x55555555)"
  define x where "x = (w AND 0x33333333) + (drop_bit 2 w AND 0x33333333)"
  have dw: "unat (drop_bit 1 v AND 0x55555555) = digits (map (\<lambda>a. drop_bit 1 a AND 5) as)"
    using digits_drop_and [OF as(2), of 5 1] by (simp add: as(1,3) rep unat_drop_bit_eq unsigned_and_eq)
  have "digits ?ws + digits (map (\<lambda>a. drop_bit 1 a AND 5) as) = digits as"
    unfolding digits_add using nibble_table(1) as(2) by (induction as) (simp_all add: nibble_pairs_def)
  then have w: "unat w = digits ?ws" unfolding w_def using dw as(3) by (subst unat_sub) (simp_all add: word_le_nat_alt)
  have "unat (w AND 0x33333333) = digits (map (\<lambda>a. a AND 3) ?ws)" "unat (drop_bit 2 w AND 0x33333333) = digits (map (\<lambda>a. drop_bit 2 a AND 3) ?ws)"
    using digits_drop_and [OF ws(2), of 3 0] digits_drop_and [OF ws(2), of 3 2]
    by (simp_all add: ws(1) w rep unat_drop_bit_eq unsigned_and_eq del: map_map length_map)
  moreover have "digits (map (\<lambda>a. a AND 3) ?ws) + digits (map (\<lambda>a. drop_bit 2 a AND 3) ?ws) = digits ?cs"
    unfolding digits_add by (simp add: nibble_count_def [abs_def] comp_def)
  ultimately have x: "unat x = digits ?cs" unfolding x_def using digits_less [OF cs(3)] cs(1) by (simp add: unat_word_ariths)
  have "digits ?cs \<le> digits (replicate (length ?cs) 4)" using cs(2) by (rule digits_mono)
  then have less: "digits ?cs + drop_bit 4 (digits ?cs) < 2 ^ 32" by (simp only: cs(1) rep drop_bit_eq_div) simp
  have "ntfs_popcount32 v = drop_bit 24 (((x + drop_bit 4 x) AND 0x0F0F0F0F) * 0x01010101)"
    unfolding ntfs_popcount32_def Let_def w_def x_def by (rule refl)
  then have "unat (ntfs_popcount32 v) = drop_bit 24 (((digits ?cs + drop_bit 4 (digits ?cs)) AND 0x0F0F0F0F) * 16843009 mod 2 ^ 32)"
    using less by (simp add: unat_drop_bit_eq unsigned_and_eq unat_word_ariths x)
  also have "\<dots> = card {i. bit (digits as) i}" using fold_digits [OF cs(1,2)] card_bits_digits [OF as(2)] by simp
  also have "\<dots> = card {i. bit v i}" by (simp add: as(3) bit_unsigned_iff) 
  finally show ?thesis .
qed

section \<open>The number of set bits of a page\<close>

text \<open>Sets of positions in a range, moved to 0 and joined.\<close>

lemma card_range_shift: "card {j. a \<le> j \<and> j < a + n \<and> P j} = card {k. k < n \<and> P (a + k)}" for a n :: nat
proof -
  have "{j. a \<le> j \<and> j < a + n \<and> P j} = (\<lambda>k. a + k) ` {k. k < n \<and> P (a + k)}"
  proof (intro equalityI subsetI)
    fix j
    assume "j \<in> {j. a \<le> j \<and> j < a + n \<and> P j}"
    then show "j \<in> (\<lambda>k. a + k) ` {k. k < n \<and> P (a + k)}" by (intro image_eqI [of _ _ "j - a"]) auto
  qed auto
  then show ?thesis by (simp add: card_image)
qed

lemma card_range_join: "a \<le> b \<Longrightarrow> b \<le> c \<Longrightarrow>
  card {j. a \<le> j \<and> j < c \<and> P j} = card {j. a \<le> j \<and> j < b \<and> P j} + card {j. b \<le> j \<and> j < c \<and> P j}" for a b c :: nat
proof -
  assume le: "a \<le> b" "b \<le> c"
  let ?A = "{j. a \<le> j \<and> j < b \<and> P j}" and ?B = "{j. b \<le> j \<and> j < c \<and> P j}"
  have "{j. a \<le> j \<and> j < c \<and> P j} = ?A \<union> ?B" "?A \<inter> ?B = {}" using le by auto
  then show ?thesis by (simp add: card_Un_disjoint)
qed

definition page_bit :: "u8 list \<Rightarrow> nat \<Rightarrow> bool" where
  "page_bit p j = bit (p ! (j div 8)) (j mod 8)"

lemma rd32_bits:
  assumes "4 * i + 4 \<le> length p"
  obtains w where "rd32 p (4 * i) = Some w" "w < 2 ^ 32" "\<And>k. k < 32 \<Longrightarrow> bit w k = page_bit p (32 * i + k)"
proof -
  let ?b = "\<lambda>k. unat (p ! (4 * i + k))"
  let ?lo = "?b 0 + 2 ^ 8 * ?b 1" and ?hi = "?b 2 + 2 ^ 8 * ?b 3"
  have b: "?b k < 2 ^ 8" for k using unsigned_less [of "p ! (4 * i + k)"] by simp
  have lo: "?lo < 2 ^ 16" "?hi < 2 ^ 16" using b [of 0] b [of 1] b [of 2] b [of 3] by simp_all
  have idx: "Suc (Suc (Suc (4 * i))) = 4 * i + 3" by simp
  have "rd32 p (4 * i) = Some (?lo + 2 ^ 16 * ?hi)"
    using assms by (simp add: rd32_def rd16_def rd_def idx)
  moreover have "?lo + 2 ^ 16 * ?hi < 2 ^ 32" using lo by simp
  moreover have "bit (?lo + 2 ^ 16 * ?hi) k = page_bit p (32 * i + k)" if "k < 32" for k
  proof -
    have q: "(32 * i + k) div 8 = 4 * i + k div 8" "(32 * i + k) mod 8 = k mod 8" by simp_all presburger+
    have "bit (?lo + 2 ^ 16 * ?hi) k = bit (?b (k div 8)) (k mod 8)"
    proof -
      consider "k < 8" | "8 \<le> k" "k < 16" | "16 \<le> k" "k < 24" | "24 \<le> k" "k < 32" using \<open>k < 32\<close> by linarith
      then show ?thesis
      proof cases
        case 1
        then show ?thesis unfolding bit_joined [OF lo(1)] bit_joined [OF b] by simp
      next
        case 2
        then have "k div 8 = 1" "k mod 8 = k - 8" by presburger+
        then show ?thesis unfolding bit_joined [OF lo(1)] bit_joined [OF b] using 2 by simp
      next
        case 3
        then have "k div 8 = 2" "k mod 8 = k - 16" "k - 16 < 8" by presburger+
        then show ?thesis unfolding bit_joined [OF lo(1)] bit_joined [OF b] using 3 by simp
      next
        case 4
        then have "k div 8 = 3" "k mod 8 = k - 24" "\<not> k - 16 < 8" "k - 16 - 8 = k - 24" by presburger+
        then show ?thesis unfolding bit_joined [OF lo(1)] bit_joined [OF b] using 4 by simp
      qed
    qed
    then show ?thesis by (simp add: page_bit_def q bit_unsigned_iff)
  qed
  ultimately show thesis using that by blast
qed

lemma count_words_eq:
  assumes "4 * (i + n) \<le> length p"
  shows "count_words p i n nr = Some (nr + card {j. 32 * i \<le> j \<and> j < 32 * (i + n) \<and> page_bit p j})"
  using assms
proof (induction n arbitrary: i nr)
  case (Suc n)
  obtain w where w: "rd32 p (4 * i) = Some w" "w < 2 ^ 32" "\<And>k. k < 32 \<Longrightarrow> bit w k = page_bit p (32 * i + k)"
    using rd32_bits [of i p] Suc.prems by auto
  let ?v = "word_of_nat w :: u32" and ?A = "{j. 32 * i \<le> j \<and> j < 32 * i + 32 \<and> page_bit p j}"
  have "unat ?v = w" using w(2) by (simp add: unat_of_nat)
  then have "bit ?v k = bit w k" for k by (metis bit_unsigned_iff possible_bit_nat)
  then have "{k. bit ?v k} = {k. k < 32 \<and> page_bit p (32 * i + k)}" using w(3) bit_less_exp [OF w(2)] by auto
  then have c: "unat (ntfs_popcount32 ?v) = card ?A" unfolding unat_popcount32 card_range_shift by simp
  have "card {j. 32 * i \<le> j \<and> j < 32 * (i + Suc n) \<and> page_bit p j} =
      card ?A + card {j. 32 * (i + 1) \<le> j \<and> j < 32 * (i + 1 + n) \<and> page_bit p j}"
    using card_range_join [of "32 * i" "32 * i + 32" "32 * (i + Suc n)" "page_bit p"] by (simp add: algebra_simps)
  then show ?case using Suc.IH [of "i + 1" "nr + card ?A"] Suc.prems by (simp add: w(1) c)
qed simp

section \<open>The number of set bits of a bitmap\<close>

definition set_bits :: "nat \<Rightarrow> bitmap \<Rightarrow> nat \<Rightarrow> nat \<Rightarrow> nat" where
  "set_bits ps bm a b = card {c. a \<le> c \<and> c < b \<and> bm_bit ps bm c}"

lemma page_set_bits:
  assumes "0 < ps"
  shows "card {j. j < 8 * ps \<and> page_bit (bm (q * ps)) j} = set_bits ps bm (8 * ps * q) (8 * ps * (q + 1))"
proof -
  have "bm_bit ps bm (8 * ps * q + j) = page_bit (bm (q * ps)) j" if "j < 8 * ps" for j
  proof -
    have e: "8 * ps * q + j = j + 8 * (q * ps)" by simp
    have "(8 * ps * q + j) div 8 = q * ps + j div 8" "(8 * ps * q + j) mod 8 = j mod 8" unfolding e by simp_all
    moreover have "(q * ps + j div 8) div ps = q" "(q * ps + j div 8) mod ps = j div 8" using that assms by simp_all
    ultimately show ?thesis by (simp add: bm_bit_def bm_byte_def page_bit_def)
  qed
  then have "{j. j < 8 * ps \<and> page_bit (bm (q * ps)) j} = {j. j < 8 * ps \<and> bm_bit ps bm (8 * ps * q + j)}" by auto
  then show ?thesis unfolding set_bits_def using card_range_shift [of "8 * ps * q" "8 * ps" "bm_bit ps bm"] by (simp add: algebra_simps)
qed

lemma set_bits_le: "set_bits ps bm a b \<le> b - a"
  unfolding set_bits_def using card_mono [of "{a..<b}" "{c. a \<le> c \<and> c < b \<and> bm_bit ps bm c}"] by force

lemma count_pages_spec:
  assumes "full_pages ps bm" "4 dvd ps" "\<And>ofs. map_err ofs = EOK \<or> map_err ofs = EIO"
  shows "\<exists>n Q. count_pages ps map_err bm max_ofs (q * ps) nr = Some (Inr n) \<and> q \<le> Q \<and> max_ofs \<le> Q * ps \<and>
    nr + set_bits ps bm (8 * ps * q) (8 * ps * Q) \<le> n \<and>
    ((\<forall>ofs. map_err ofs = EOK) \<longrightarrow> n = nr + set_bits ps bm (8 * ps * q) (8 * ps * Q))"
proof (induction "max_ofs - q * ps" arbitrary: q nr rule: less_induct)
  case less
  have ps: "0 < ps" "length (bm (q * ps)) = ps" using assms(1) by (simp_all add: full_pages_def)
  show ?case
  proof (cases "q * ps < max_ofs")
    case False
    then show ?thesis by (intro exI [of _ nr] exI [of _ q]) (simp add: count_pages.simps set_bits_def)
  next
    case True
    let ?s = "set_bits ps bm (8 * ps * q) (8 * ps * (q + 1))"
    define m where "m = (if map_err (q * ps) = EOK then ?s else 8 * ps)"
    have "?s \<le> 8 * ps" using set_bits_le [of ps bm "8 * ps * q" "8 * ps * (q + 1)"] by simp
    then have m: "?s \<le> m" "(\<forall>ofs. map_err ofs = EOK) \<longrightarrow> m = ?s" by (simp_all add: m_def)
    have words: "count_words (bm (q * ps)) 0 (ps div 4) nr = Some (nr + ?s)" for nr
    proof -
      have n: "32 * (0 + ps div 4) = 8 * ps" "4 * (0 + ps div 4) \<le> length (bm (q * ps))" using assms(2) ps(2) by auto
      show ?thesis using count_words_eq [OF n(2), of nr] page_set_bits [OF ps(1), of bm q] unfolding n(1) by simp
    qed
    have step: "count_pages ps map_err bm max_ofs (q * ps) nr = count_pages ps map_err bm max_ofs ((q + 1) * ps) (nr + m)"
      unfolding count_pages.simps [of ps map_err bm max_ofs "q * ps" nr] m_def
      using True ps(1) assms(3) [of "q * ps"] words [of nr] by (auto simp: add.commute mult.commute [of ps 8])
    have "max_ofs - (q + 1) * ps < max_ofs - q * ps" using True ps by simp
    from less [OF this, of "nr + m"] obtain n Q where
      IH: "count_pages ps map_err bm max_ofs ((q + 1) * ps) (nr + m) = Some (Inr n)" "q + 1 \<le> Q" "max_ofs \<le> Q * ps"
        "nr + m + set_bits ps bm (8 * ps * (q + 1)) (8 * ps * Q) \<le> n"
        "(\<forall>ofs. map_err ofs = EOK) \<longrightarrow> n = nr + m + set_bits ps bm (8 * ps * (q + 1)) (8 * ps * Q)"
      by blast
    have "set_bits ps bm (8 * ps * q) (8 * ps * Q) = ?s + set_bits ps bm (8 * ps * (q + 1)) (8 * ps * Q)"
      unfolding set_bits_def using mult_le_mono2 [OF IH(2), of "8 * ps"] by (intro card_range_join) simp_all
    then show ?thesis using IH m step by (intro exI [of _ n] exI [of _ Q]) auto
  qed
qed

section \<open>The number of free clusters\<close>

definition free_clusters :: "nat \<Rightarrow> bitmap \<Rightarrow> int \<Rightarrow> int set" where
  "free_clusters ps bm nr = {c. 0 \<le> c \<and> c < nr \<and> \<not> in_use ps bm c}"

lemma card_free_clusters: "int (card (free_clusters ps bm (int n))) = int n - int (set_bits ps bm 0 n)"
proof -
  let ?F = "{c. c < n \<and> \<not> bm_bit ps bm c}" and ?U = "{c. c < n \<and> bm_bit ps bm c}"
  have "free_clusters ps bm (int n) = int ` ?F"
  proof (intro equalityI subsetI)
    fix c
    assume "c \<in> free_clusters ps bm (int n)"
    then show "c \<in> int ` ?F" by (intro image_eqI [of _ _ "nat c"]) (auto simp: free_clusters_def in_use_def)
  qed (auto simp: free_clusters_def in_use_def)
  then have "card (free_clusters ps bm (int n)) = card ?F" by (simp add: card_image)
  moreover have "?F \<union> ?U = {..<n}" "?F \<inter> ?U = {}" by auto
  then have "card ?F + card ?U = n" by (metis card_Un_disjoint card_lessThan finite_Un finite_lessThan)
  ultimately show ?thesis by (simp add: set_bits_def)
qed

text \<open>What the bitmap has behind the clusters of the volume: set bits up to a multiple of 64, then zeroes.\<close>

definition tail_ok :: "nat \<Rightarrow> bitmap \<Rightarrow> int \<Rightarrow> bool" where
  "tail_ok ps bm nr \<longleftrightarrow> (\<forall>c \<ge> nr. in_use ps bm c \<longleftrightarrow> c < (nr + 63) div 64 * 64)"

lemma round_up_64: "(k + 63) div 64 * 64 - k = (if k mod 64 = 0 then 0 else 64 - k mod 64)" for k :: nat
proof -
  define q r where "q = k div 64" and "r = k mod 64"
  have k: "k = 64 * q + r" "r < 64" by (simp_all add: q_def r_def)
  show ?thesis
  proof (cases "r = 0")
    case False
    then have "k + 63 = 64 * (q + 1) + (r - 1)" "r - 1 < 64" using k by simp_all
    then have "(k + 63) div 64 = q + 1" by (metis add.commute div_less div_mult_self4 add_cancel_right_right zero_neq_numeral)
    then show ?thesis using False k by (simp add: r_def [symmetric])
  qed (use k in \<open>simp add: r_def [symmetric]\<close>)
qed

lemma set_bits_tail:
  assumes "tail_ok ps bm (int n)" "(n + 63) div 64 * 64 \<le> m"
  shows "set_bits ps bm 0 m = set_bits ps bm 0 n + ((n + 63) div 64 * 64 - n)"
proof -
  let ?e = "(n + 63) div 64 * 64"
  have n: "n \<le> ?e" by presburger
  have bit: "bm_bit ps bm c \<longleftrightarrow> c < ?e" if "n \<le> c" for c
  proof -
    have "in_use ps bm (int c) \<longleftrightarrow> int c < (int n + 63) div 64 * 64" using assms(1) that by (simp add: tail_ok_def)
    moreover have "(int n + 63) div 64 * 64 = int ?e" by (simp add: zdiv_int)
    ultimately have "bm_bit ps bm c \<longleftrightarrow> int c < int ?e" by (simp add: in_use_def)
    then show ?thesis by (simp only: of_nat_less_iff)
  qed
  have "{c. n \<le> c \<and> c < m \<and> bm_bit ps bm c} = {n..<?e}" using bit assms(2) by auto
  then have "set_bits ps bm n m = ?e - n" by (simp add: set_bits_def)
  moreover have "set_bits ps bm 0 m = set_bits ps bm 0 n + set_bits ps bm n m"
    unfolding set_bits_def using n assms(2) by (intro card_range_join) auto
  ultimately show ?thesis by simp
qed

lemma set_nr_free_clusters_spec:
  assumes "full_pages ps bm" "8 dvd ps" "0 \<le> nr_clusters vol" "tail_ok ps bm (nr_clusters vol)"
    "\<And>ofs. map_err ofs = EOK \<or> map_err ofs = EIO"
  shows "\<exists>n. ntfs_set_nr_free_clusters ps EOK map_err bm vol = Some (EOK, vol\<lparr>nr_free_clusters := n\<rparr>) \<and>
    0 \<le> n \<and> n \<le> int (card (free_clusters ps bm (nr_clusters vol))) \<and>
    ((\<forall>ofs. map_err ofs = EOK) \<longrightarrow> n = int (card (free_clusters ps bm (nr_clusters vol))))"
proof -
  obtain k where k: "nr_clusters vol = int k" using assms(3) nonneg_int_cases by blast
  let ?e = "(k + 63) div 64 * 64" and ?top = "nat ((int k + 7) div 8)"
  have "4 dvd ps" using assms(2) by (rule dvd_trans [rotated]) simp
  from count_pages_spec [where map_err = map_err and max_ofs = ?top and q = 0 and nr = 0, OF assms(1) this assms(5)] obtain n Q where
    n: "count_pages ps map_err bm ?top 0 0 = Some (Inr n)" "?top \<le> Q * ps" "set_bits ps bm 0 (8 * ps * Q) \<le> n"
      "(\<forall>ofs. map_err ofs = EOK) \<longrightarrow> n = set_bits ps bm 0 (8 * ps * Q)"
    by auto
  have "k \<le> 8 * ?top" by linarith
  then have "k \<le> 8 * ps * Q" using n(2) by (simp add: algebra_simps)
  moreover obtain j where "8 * ps * Q = 64 * j" using assms(2) by (auto elim!: dvdE)
  ultimately have "?e \<le> 8 * ps * Q" by simp
  note tail = set_bits_tail [OF assms(4) [unfolded k] this]
  have pad: "(if int k mod 64 \<noteq> 0 then x + (64 - int k mod 64) else x) = x + int (?e - k)" for x
  proof -
    have m: "int k mod 64 = int (k mod 64)" "k mod 64 < 64" by (simp_all add: zmod_int)
    show ?thesis unfolding round_up_64 m(1) using m(2) by (simp only: of_nat_eq_0_iff split: if_splits) (simp add: of_nat_diff)
  qed
  have free: "int (card (free_clusters ps bm (int k))) = int k - int (set_bits ps bm 0 k)" by (rule card_free_clusters)
  define x F where "x = int k - int n + int (?e - k)" and "F = int k - int (set_bits ps bm 0 k)"
  have "ntfs_set_nr_free_clusters ps EOK map_err bm vol = Some (EOK, vol\<lparr>nr_free_clusters := max 0 x\<rparr>)"
    unfolding ntfs_set_nr_free_clusters_def ntfs_get_nr_set_bits_def k Let_def pad x_def using n(1) by simp
  moreover have "x \<le> F" unfolding x_def F_def using n(3) unfolding tail by linarith
  moreover have "(\<forall>ofs. map_err ofs = EOK) \<longrightarrow> x = F" unfolding x_def F_def using n(4) unfolding tail by (intro impI) simp
  moreover have "0 \<le> F" unfolding F_def using set_bits_le [of ps bm 0 k] by linarith
  ultimately show ?thesis unfolding k free F_def [symmetric] by (intro exI [of _ "max 0 x"]) auto
qed

text \<open>
  C29. The number of free clusters that is computed at mount time is exact: it is the number of
  clusters of the volume whose bit is clear, counted 32 bits at a time by shifts and masks, with the
  bits behind the end of the volume discounted. If pages of the bitmap cannot be read, it is never
  more than that.
\<close>

theorem free_clusters_counted:
  assumes "full_pages ps bm" "8 dvd ps" "0 \<le> nr_clusters vol" "tail_ok ps bm (nr_clusters vol)"
    "\<forall>ofs. map_err ofs = EOK \<or> map_err ofs = EIO"
  shows "\<exists>n. ntfs_set_nr_free_clusters ps EOK map_err bm vol = Some (EOK, vol\<lparr>nr_free_clusters := n\<rparr>) \<and>
    0 \<le> n \<and> n \<le> int (card {c. 0 \<le> c \<and> c < nr_clusters vol \<and> \<not> in_use ps bm c}) \<and>
    ((\<forall>ofs. map_err ofs = EOK) \<longrightarrow> n = int (card {c. 0 \<le> c \<and> c < nr_clusters vol \<and> \<not> in_use ps bm c}))"
  using set_nr_free_clusters_spec [where map_err = map_err, OF assms(1-4)] assms(5) unfolding free_clusters_def by blast

text \<open>A volume of 70 clusters, of which 4 are free, with a bitmap of 16 bytes in a page.\<close>

definition count_bm :: bitmap where
  "count_bm ofs = (if ofs = 0 then [0xff, 0xdb, 0xff, 0xff, 0xff, 0x7f, 0xff, 0xff, 0xfe, 0xff, 0xff, 0xff, 0xff, 0xff, 0xff, 0xff]
     else replicate 16 0)"

definition count_vol :: lcn_volume where
  "count_vol = \<lparr>nr_clusters = 70, nr_free_clusters = 0, mft_lcn = 4, mft_zone_start = 0, mft_zone_end = 0, mft_zone_pos = 0,
     data1_zone_pos = 0, data2_zone_pos = 0, mft_data_pos = 0, vol_errors = False\<rparr>"

lemma count_bm_pages: "full_pages 16 count_bm"
  by (auto simp: full_pages_def count_bm_def)

lemma count_bm_tail: "tail_ok 16 count_bm (nr_clusters count_vol)"
proof -
  have "in_use 16 count_bm c \<longleftrightarrow> c < 128" if "70 \<le> c" for c
  proof (cases "c < 128")
    case True
    have "\<forall>c \<in> set [70..127]. in_use 16 count_bm c" by code_simp
    moreover have "c \<in> set [70..127]" unfolding set_upto using True that by simp
    ultimately show ?thesis using True by blast
  next
    case False
    then have n: "0 < nat c div 8 div 16" "nat c div 8 mod 16 < 16" by simp_all
    then have "count_bm (nat c div 8 div 16 * 16) = replicate 16 0" unfolding count_bm_def by simp
    then have "bm_byte 16 count_bm (nat c div 8) = 0" unfolding bm_byte_def using n(2) by (simp only: nth_replicate)
    then show ?thesis using False by (simp add: in_use_def bm_bit_def)
  qed
  then show ?thesis by (simp add: tail_ok_def count_vol_def)
qed

theorem free_clusters_counted_witness:
  "map_option (\<lambda>(err, vol). (err, nr_free_clusters vol)) (ntfs_set_nr_free_clusters 16 EOK (\<lambda>ofs. EOK) count_bm count_vol) =
     Some (EOK, int (card {c. 0 \<le> c \<and> c < 70 \<and> \<not> in_use 16 count_bm c}))"
  using free_clusters_counted [OF count_bm_pages _ _ count_bm_tail, of "\<lambda>ofs. EOK"] by (auto simp: count_vol_def)

end
