(* ===== verification/NTFS_Lcnalloc_Owner.thy ===== *)
theory NTFS_Lcnalloc_Owner
  imports NTFS_Lcnalloc_Correct NTFS_Bitcount
begin

text \<open>
  The allocator in use: the states a volume goes through from mount on, in any order of
  allocations and frees for any number of files, with errors of page mapping and of memory at
  any point. The clusters of a file stay its own.
\<close>

section \<open>The zones at mount time\<close>

lemma cap_zone_returns:
  assumes "mlcn < nr" "0 \<le> zsize"
  shows "\<exists>z. cap_zone nr mlcn zsize = Some z \<and> 0 \<le> z \<and> mlcn + z < nr"
  using assms(2)
proof (induction "nat zsize" arbitrary: zsize rule: less_induct)
  case less
  show ?case
  proof (cases "nr \<le> mlcn + zsize")
    case True
    then have "nat (zsize div 2) < nat zsize" "0 \<le> zsize div 2" using assms(1) less.prems by simp_all
    then show ?thesis using less.hyps True by (simp add: cap_zone.simps [of _ _ zsize])
  qed (use less.prems in \<open>simp add: cap_zone.simps\<close>)
qed

lemma setup_allocators_ok:
  assumes "0 \<le> mft_lcn vol" "mft_lcn vol < nr_clusters vol" "0 < cluster_size"
  obtains vol' where "ntfs_setup_allocators multiplier cluster_size vol = Some vol'" "zones_ok vol'"
    "nr_clusters vol' = nr_clusters vol" "vol_errors vol' = vol_errors vol"
proof -
  have "0 \<le> mft_zone_share multiplier (nr_clusters vol)" using assms(1,2) by (auto simp: mft_zone_share_def)
  then obtain z where z: "cap_zone (nr_clusters vol) (mft_lcn vol) (mft_zone_share multiplier (nr_clusters vol)) = Some z"
      "0 \<le> z" "mft_lcn vol + z < nr_clusters vol"
    using cap_zone_returns [OF assms(2)] by blast
  show thesis
    by (rule that, simp add: ntfs_setup_allocators_def z(1) Let_def) (use assms z in \<open>auto simp: zones_ok_def\<close>)
qed

text \<open>The volume after a mount: the zones are set up, then the free clusters are counted.\<close>

lemma mount_ok:
  assumes "0 \<le> mft_lcn vol" "mft_lcn vol < nr_clusters vol" "0 < cluster_size"
    "full_pages ps bm" "8 dvd ps" "tail_ok ps bm (nr_clusters vol)" "\<And>ofs. map_err ofs = EOK \<or> map_err ofs = EIO"
  obtains vol1 vol' where "ntfs_setup_allocators multiplier cluster_size vol = Some vol1"
    "ntfs_set_nr_free_clusters ps EOK map_err bm vol1 = Some (EOK, vol')" "volume_ok vol'"
    "nr_clusters vol' = nr_clusters vol" "vol_errors vol' = vol_errors vol"
    "(\<forall>ofs. map_err ofs = EOK) \<longrightarrow> nr_free_clusters vol' = int (card (free_clusters ps bm (nr_clusters vol)))"
proof -
  obtain vol1 where v: "ntfs_setup_allocators multiplier cluster_size vol = Some vol1" "zones_ok vol1"
      "nr_clusters vol1 = nr_clusters vol" "vol_errors vol1 = vol_errors vol"
    using setup_allocators_ok [OF assms(1-3)] by metis
  have nr: "0 \<le> nr_clusters vol1" "tail_ok ps bm (nr_clusters vol1)" using assms(1,2,6) by (simp_all add: v(3))
  obtain n where n: "ntfs_set_nr_free_clusters ps EOK map_err bm vol1 = Some (EOK, vol1\<lparr>nr_free_clusters := n\<rparr>)"
      "0 \<le> n" "n \<le> int (card (free_clusters ps bm (nr_clusters vol1)))"
      "(\<forall>ofs. map_err ofs = EOK) \<longrightarrow> n = int (card (free_clusters ps bm (nr_clusters vol1)))"
    using set_nr_free_clusters_spec [where map_err = map_err, OF assms(4,5) nr assms(7)] by blast
  obtain k where k: "nr_clusters vol1 = int k" using nr(1) nonneg_int_cases by blast
  have "int (card (free_clusters ps bm (nr_clusters vol1))) \<le> nr_clusters vol1" unfolding k card_free_clusters by simp
  then have "volume_ok (vol1\<lparr>nr_free_clusters := n\<rparr>)" using v(2) n(2,3) by (simp add: volume_ok_def zones_ok_def)
  then show thesis using that [OF v(1) n(1)] v(3,4) n(4) by simp
qed

section \<open>Pools of clusters\<close>

text \<open>
  What the clients of an allocator rely on. \<open>grab s C s'\<close>: the clusters \<open>C\<close>, none if the request has
  failed, have been handed out. \<open>release s C fin s'\<close>: the clusters \<open>C\<close> have been given back, and
  \<open>fin\<close> says if with success. Nothing is promised of a pool that is \<open>damaged\<close>.
\<close>

locale cluster_pool =
  fixes good :: "'s \<Rightarrow> bool" and damaged :: "'s \<Rightarrow> bool" and used :: "'s \<Rightarrow> 'c \<Rightarrow> bool"
    and grab :: "'s \<Rightarrow> 'c set \<Rightarrow> 's \<Rightarrow> bool" and release :: "'s \<Rightarrow> 'c set \<Rightarrow> bool \<Rightarrow> 's \<Rightarrow> bool"
  assumes grab: "good s \<Longrightarrow> grab s C s' \<Longrightarrow> good s' \<and> (damaged s \<longrightarrow> damaged s') \<and>
      (\<forall>c. used s c \<longrightarrow> used s' c) \<and> (\<forall>c \<in> C. used s' c \<and> \<not> used s c)"
    and release: "good s \<Longrightarrow> release s C fin s' \<Longrightarrow> good s' \<and> (damaged s \<longrightarrow> damaged s') \<and>
      (\<forall>c. c \<notin> C \<longrightarrow> used s' c = used s c) \<and>
      (\<not> fin \<and> \<not> damaged s' \<and> (\<forall>c \<in> C. used s c) \<longrightarrow> (\<forall>c. used s' c = used s c))"
begin

definition owned :: "'s \<Rightarrow> ('k \<rightharpoonup> 'c set) \<Rightarrow> bool" where
  "owned s F \<longleftrightarrow> good s \<and> (\<not> damaged s \<longrightarrow> (\<forall>k C. F k = Some C \<longrightarrow> (\<forall>c \<in> C. used s c)) \<and>
     (\<forall>k k' C C'. F k = Some C \<and> F k' = Some C' \<and> k \<noteq> k' \<longrightarrow> C \<inter> C' = {}))"

lemma ownedD:
  assumes "owned s F" "\<not> damaged s" "F k = Some C"
  shows "c \<in> C \<Longrightarrow> used s c" "F k' = Some C' \<Longrightarrow> k \<noteq> k' \<Longrightarrow> C \<inter> C' = {}"
  using assms unfolding owned_def by blast+

lemma owned_less:
  assumes "owned s F" "good s'" "damaged s \<Longrightarrow> damaged s'" "\<And>k C. G k = Some C \<Longrightarrow> F k = Some C"
    and "\<And>k C c. \<not> damaged s \<Longrightarrow> \<not> damaged s' \<Longrightarrow> G k = Some C \<Longrightarrow> c \<in> C \<Longrightarrow> used s' c"
  shows "owned s' G"
  unfolding owned_def
proof (intro conjI impI allI ballI)
  show "C \<inter> C' = {}" if "\<not> damaged s'" "G k = Some C \<and> G k' = Some C' \<and> k \<noteq> k'" for k k' C C'
    using assms(1,3) assms(4) [of k C] assms(4) [of k' C'] that unfolding owned_def by blast
qed (use assms(2,3,5) in blast)+

lemma owned_failed:
  assumes "owned s F" "grab s C s'"
  shows "owned s' F"
proof -
  have "good s" using assms(1) by (simp add: owned_def)
  note g = grab [OF this assms(2)]
  show ?thesis by (rule owned_less [OF assms(1)]) (use g assms(1) in \<open>auto simp: owned_def\<close>)
qed

lemma owned_grab:
  assumes "owned s F" "grab s C s'"
  shows "owned s' (F(k \<mapsto> C))"
proof -
  have old: "good s'" "owned s' F" using owned_failed [OF assms] by (simp_all add: owned_def)
  have "good s" using assms(1) by (simp add: owned_def)
  note g = grab [OF this assms(2)]
  have new: "C \<inter> C' = {}" if "\<not> damaged s'" "F k' = Some C'" for k' C'
    using g assms(1) that unfolding owned_def by blast
  show ?thesis
    unfolding owned_def
  proof (intro conjI impI allI ballI old(1))
    show "used s' c" if "\<not> damaged s'" "(F(k \<mapsto> C)) j = Some D" "c \<in> D" for j D c
      using that g old(2) by (auto simp: owned_def split: if_splits)
    show "D \<inter> D' = {}" if "\<not> damaged s'" "(F(k \<mapsto> C)) j = Some D \<and> (F(k \<mapsto> C)) j' = Some D' \<and> j \<noteq> j'" for j j' D D'
      using that new [OF that(1)] old(2) by (simp add: owned_def split: if_splits) blast+
  qed
qed

lemma owned_release:
  assumes "owned s F" "F k = Some C" "release s C fin s'"
  shows "owned s' (if fin then F(k := None) else F)"
proof -
  have good: "good s" using assms(1) by (simp add: owned_def)
  note r = release [OF good assms(3)]
  show ?thesis
  proof (rule owned_less [OF assms(1)])
    fix j D c
    assume c: "\<not> damaged s" "\<not> damaged s'" "(if fin then F(k := None) else F) j = Some D" "c \<in> D"
    then have j: "F j = Some D" "fin \<Longrightarrow> j \<noteq> k" by (auto split: if_splits)
    have used: "used s c" "\<forall>c \<in> C. used s c" using assms(1,2) c(1,4) j(1) unfolding owned_def by blast+
    have "c \<notin> C" if fin using assms(1,2) c(1,4) j(1) j(2) [OF that] unfolding owned_def by blast
    then show "used s' c" using r c(2) used by blast
  qed (use r in \<open>auto split: if_splits\<close>)
qed

end

section \<open>The states of a volume\<close>

definition file_clusters :: "ntfs_rl_element list \<Rightarrow> int set" where
  "file_clusters es = rl_lookup es ` {vcn (hd es)..<vcn (last es)}"

definition file_ok :: "int \<Rightarrow> ntfs_rl_element list \<Rightarrow> bool" where
  "file_ok nr es \<longleftrightarrow> rl_from (vcn (hd es)) es \<and> 0 \<le> vcn (hd es) \<and> vcn (hd es) < vcn (last es) \<and>
     inj_on (rl_lookup es) {vcn (hd es)..<vcn (last es)} \<and> (\<forall>c \<in> file_clusters es. 0 \<le> c \<and> c < nr)"

definition env_ok :: "nat \<Rightarrow> lcn_volume \<Rightarrow> la_env \<Rightarrow> bool" where
  "env_ok ps vol env \<longleftrightarrow> alloc_ok (la_io env) \<and> la_page_size env = ps \<and>
     nr_clusters vol \<le> 8 * int (la_data_size env) \<and> lcnbmp_data_size env = la_data_size env"

text \<open>
  \<open>files\<close> holds the runlists that have been allocated and not freed. A file is freed as a whole;
  what is behind its runlist in memory (\<open>g\<close>) does not matter.
\<close>

inductive volume_state :: "nat \<Rightarrow> lcn_volume \<Rightarrow> bitmap \<Rightarrow> (nat \<rightharpoonup> ntfs_rl_element list) \<Rightarrow> bool" for ps where
  mount: "ntfs_setup_allocators multiplier cluster_size vol0 = Some vol1 \<Longrightarrow>
    ntfs_set_nr_free_clusters ps EOK map_err bm vol1 = Some (EOK, vol) \<Longrightarrow>
    0 \<le> mft_lcn vol0 \<Longrightarrow> mft_lcn vol0 < nr_clusters vol0 \<Longrightarrow> nr_clusters vol0 < 2 ^ 63 \<Longrightarrow> 0 < cluster_size \<Longrightarrow>
    full_pages ps bm \<Longrightarrow> 8 dvd ps \<Longrightarrow> tail_ok ps bm (nr_clusters vol0) \<Longrightarrow>
    (\<And>ofs. map_err ofs = EOK \<or> map_err ofs = EIO) \<Longrightarrow> volume_state ps vol bm Map.empty"
| alloc: "volume_state ps vol bm files \<Longrightarrow> env_ok ps vol env \<Longrightarrow> files k = None \<Longrightarrow>
    0 \<le> sv \<Longrightarrow> 0 < count \<Longrightarrow> - 1 \<le> start_lcn \<Longrightarrow> start_lcn \<le> nr_clusters vol \<Longrightarrow>
    ntfs_cluster_alloc env vol bm sv count start_lcn zone ext r = Some (err, vol', bm', r') \<Longrightarrow>
    volume_state ps vol' bm' (if err = EOK then files(k \<mapsto> els r') else files)"
| free: "volume_state ps vol bm files \<Longrightarrow> files k = Some es \<Longrightarrow>
    ntfs_cluster_free_from_rl ps vnode_err map_err vol bm (es @ g) (vcn (hd es)) (- 1) = Some (err, vol', bm', n) \<Longrightarrow>
    volume_state ps vol' bm' (if err = EOK then files(k := None) else files)"

lemma gives_clusters_file:
  assumes "gives_clusters ps vol bm bm' sv count es" "0 \<le> sv" "0 < count"
  shows "file_ok (nr_clusters vol) es" "file_clusters es = rl_lookup es ` {sv..<sv + count}"
proof -
  have g: "rl_from sv es" "vcn (last es) = sv + count" using assms(1) by (simp_all add: gives_clusters_def)
  then have hd: "vcn (hd es) = sv" using assms(3) by (cases es) (auto simp: rl_from_def rl_simps split: if_splits)
  then show f: "file_clusters es = rl_lookup es ` {sv..<sv + count}" using g(2) by (simp add: file_clusters_def)
  show "file_ok (nr_clusters vol) es" unfolding file_ok_def hd f g(2) using assms g by (auto simp: gives_clusters_def)
qed

text \<open>The runs of a file have clusters of the volume.\<close>

lemma file_runs:
  assumes "file_ok nr (xs @ [t])" "e \<in> set xs"
  shows "0 \<le> lcn e" "lcn e + rlen e \<le> nr"
proof -
  let ?s = "vcn (hd (xs @ [t]))"
  obtain pre post where xs: "xs = pre @ e # post" using assms(2) by (meson split_list)
  have chain: "rl_chain ?s xs (vcn t)" using assms(1) by (simp add: file_ok_def rl_from_def)
  then have c: "rl_chain ?s pre (vcn e)" "0 < rlen e" "rl_chain (vcn e + rlen e) post (vcn t)" using xs by (simp_all add: rl_simps)
  have look: "rl_lookup (xs @ [t]) v = run_lcn e v" if "vcn e \<le> v" "v < vcn e + rlen e" for v
    using that rl_lookup_append [OF c(1), of "e # post @ [t]" v] rl_chain_le [OF c(1)] by (simp add: xs rl_lookup_Cons)
  have "run_lcn e v \<in> file_clusters (xs @ [t])" if "vcn e \<le> v" "v < vcn e + rlen e" for v
    unfolding file_clusters_def look [OF that, symmetric] using that rl_chain_le [OF c(1)] rl_chain_le [OF c(3)] by simp
  then have "0 \<le> run_lcn e v \<and> run_lcn e v < nr" if "vcn e \<le> v" "v < vcn e + rlen e" for v
    using assms(1) that unfolding file_ok_def by blast
  from this [of "vcn e"] this [of "vcn e + rlen e - 1"] show "0 \<le> lcn e" "lcn e + rlen e \<le> nr"
    using c(2) by (auto simp: run_lcn_def split: if_splits)
qed


lemma file_split:
  assumes "file_ok nr es"
  obtains xs t where "es = xs @ [t]" "rl_chain (vcn (hd es)) xs (vcn t)" "rl_term t" "vcn (hd es) < vcn t" "0 \<le> vcn (hd es)"
    "\<forall>e \<in> set xs. 0 \<le> lcn e \<and> lcn e + rlen e \<le> nr" "range_clusters es (vcn (hd es)) (vcn t) \<subseteq> file_clusters es"
proof -
  have f: "rl_from (vcn (hd es)) es" "0 \<le> vcn (hd es)" "vcn (hd es) < vcn (last es)" using assms by (simp_all add: file_ok_def)
  then have es: "es = butlast es @ [last es]" by (auto simp: rl_from_def)
  show thesis
  proof (rule that [OF es])
    show "\<forall>e \<in> set (butlast es). 0 \<le> lcn e \<and> lcn e + rlen e \<le> nr"
      using file_runs [of nr "butlast es" "last es"] assms es by simp
    show "range_clusters es (vcn (hd es)) (vcn (last es)) \<subseteq> file_clusters es"
      by (auto simp: range_clusters_def file_clusters_def real_clusters_def)
  qed (use f in \<open>simp_all add: rl_from_def\<close>)
qed

section \<open>The volume as a pool of clusters\<close>

definition vol_good :: "nat \<Rightarrow> int \<Rightarrow> lcn_volume \<times> bitmap \<Rightarrow> bool" where
  "vol_good ps nr = (\<lambda>(vol, bm). volume_ok vol \<and> nr_clusters vol = nr \<and> nr < 2 ^ 63 \<and> full_pages ps bm)"

definition vol_grab :: "nat \<Rightarrow> lcn_volume \<times> bitmap \<Rightarrow> int set \<Rightarrow> lcn_volume \<times> bitmap \<Rightarrow> bool" where
  "vol_grab ps = (\<lambda>(vol, bm) C (vol', bm'). \<exists>env sv count start_lcn zone ext r err r'.
     env_ok ps vol env \<and> 0 \<le> sv \<and> 0 < count \<and> - 1 \<le> start_lcn \<and> start_lcn \<le> nr_clusters vol \<and>
     ntfs_cluster_alloc env vol bm sv count start_lcn zone ext r = Some (err, vol', bm', r') \<and>
     C = (if err = EOK then file_clusters (els r') else {}))"

definition vol_release :: "nat \<Rightarrow> int \<Rightarrow> lcn_volume \<times> bitmap \<Rightarrow> int set \<Rightarrow> bool \<Rightarrow> lcn_volume \<times> bitmap \<Rightarrow> bool" where
  "vol_release ps nr = (\<lambda>(vol, bm) C fin (vol', bm'). \<exists>es g vnode_err map_err err n.
     file_ok nr es \<and> C = file_clusters es \<and> fin = (err = EOK) \<and>
     ntfs_cluster_free_from_rl ps vnode_err map_err vol bm (es @ g) (vcn (hd es)) (- 1) = Some (err, vol', bm', n))"

lemma alloc_call:
  assumes "volume_ok vol" "nr_clusters vol < 2 ^ 63" "full_pages ps bm" "env_ok ps vol env"
    "0 \<le> sv" "0 < count" "- 1 \<le> start_lcn" "start_lcn \<le> nr_clusters vol"
    "ntfs_cluster_alloc env vol bm sv count start_lcn zone ext r = Some (err, vol', bm', r')"
  shows "volume_ok vol'" "full_pages ps bm'" "nr_clusters vol' = nr_clusters vol" "vol_errors vol \<longrightarrow> vol_errors vol'"
    "\<forall>c. in_use ps bm c \<longrightarrow> in_use ps bm' c" "err = EOK \<Longrightarrow> file_ok (nr_clusters vol) (els r')"
    "err = EOK \<Longrightarrow> c \<in> file_clusters (els r') \<Longrightarrow> in_use ps bm' c \<and> \<not> in_use ps bm c"
proof -
  have env: "alloc_ok (la_io env)" "la_page_size env = ps" "nr_clusters vol \<le> 8 * int (la_data_size env)" "lcnbmp_data_size env = la_data_size env"
    using assms(4) by (simp_all add: env_ok_def)
  note spec = cluster_alloc_spec [of env vol bm sv count start_lcn zone ext r, unfolded env(2),
      OF env(1) assms(1,3) env(3) assms(2) env(4) assms(5-8), unfolded assms(9)]
  show "volume_ok vol'" "full_pages ps bm'" "nr_clusters vol' = nr_clusters vol" "vol_errors vol \<longrightarrow> vol_errors vol'"
    "\<forall>c. in_use ps bm c \<longrightarrow> in_use ps bm' c"
    using spec by simp_all
  assume ok: "err = EOK"
  then have g: "gives_clusters ps vol bm bm' sv count (els r')" using spec by simp
  note f = gives_clusters_file [OF g assms(5,6)]
  show "file_ok (nr_clusters vol) (els r')" by (rule f(1))
  show "in_use ps bm' c \<and> \<not> in_use ps bm c" if "c \<in> file_clusters (els r')"
    using g that unfolding gives_clusters_def f(2) by blast
qed

lemma alloc_call_runs:
  assumes "volume_ok vol" "nr_clusters vol < 2 ^ 63" "full_pages ps bm" "env_ok ps vol env"
    "0 \<le> sv" "0 < count" "- 1 \<le> start_lcn" "start_lcn \<le> nr_clusters vol"
    "ntfs_cluster_alloc env vol bm sv count start_lcn zone ext r = Some (EOK, vol', bm', r')"
  obtains xs t where "els r' = xs @ [t]" "rl_chain sv xs (vcn t)" "rl_term t" "vcn t = sv + count"
    "\<forall>e \<in> set xs. 0 \<le> lcn e \<and> lcn e + rlen e \<le> nr_clusters vol" "gives_clusters ps vol bm bm' sv count (els r')"
proof -
  have env: "alloc_ok (la_io env)" "la_page_size env = ps" "nr_clusters vol \<le> 8 * int (la_data_size env)" "lcnbmp_data_size env = la_data_size env"
    using assms(4) by (simp_all add: env_ok_def)
  have g: "gives_clusters ps vol bm bm' sv count (els r')"
    using cluster_alloc_spec [of env vol bm sv count start_lcn zone ext r, unfolded env(2),
        OF env(1) assms(1,3) env(3) assms(2) env(4) assms(5-8), unfolded assms(9)] by simp
  then have "rl_from sv (els r')" by (simp add: gives_clusters_def)
  then have e: "els r' = butlast (els r') @ [last (els r')]" "rl_chain sv (butlast (els r')) (vcn (last (els r')))" "rl_term (last (els r'))"
    by (simp_all add: rl_from_def)
  have n: "vcn (last (els r')) = sv + count" using g by (simp add: gives_clusters_def)
  have f: "file_ok (nr_clusters vol) (butlast (els r') @ [last (els r')])" using gives_clusters_file(1) [OF g assms(5,6)] e(1) by simp
  show thesis by (rule that [OF e n _ g]) (use file_runs [OF f] in blast)
qed

lemma free_call:
  assumes "volume_ok vol" "nr_clusters vol = nr" "nr < 2 ^ 63" "full_pages ps bm" "file_ok nr es"
    "ntfs_cluster_free_from_rl ps vnode_err map_err vol bm (es @ g) (vcn (hd es)) (- 1) = Some (err, vol', bm', n)"
  shows "volume_ok vol' \<and> full_pages ps bm' \<and> nr_clusters vol' = nr \<and> (vol_errors vol \<longrightarrow> vol_errors vol') \<and>
      (\<forall>c. c \<notin> file_clusters es \<longrightarrow> in_use ps bm' c = in_use ps bm c) \<and>
      (err \<noteq> EOK \<and> \<not> vol_errors vol' \<and> (\<forall>c \<in> file_clusters es. in_use ps bm c) \<longrightarrow> (\<forall>c. in_use ps bm' c = in_use ps bm c))"
proof (cases "vnode_err = EOK")
  case False
  then show ?thesis
    using assms by (auto simp: ntfs_cluster_free_from_rl_def)
next
  case True
  obtain xs t where es: "es = xs @ [t]" "rl_chain (vcn (hd es)) xs (vcn t)" "rl_term t" "vcn (hd es) < vcn t" "0 \<le> vcn (hd es)"
      "\<forall>e \<in> set xs. 0 \<le> lcn e \<and> lcn e + rlen e \<le> nr" "range_clusters es (vcn (hd es)) (vcn t) \<subseteq> file_clusters es"
    using file_split [OF assms(5)] by metis
  have runs: "\<forall>e \<in> set xs. LCN_HOLE \<le> lcn e \<and> lcn e + rlen e < 2 ^ 63"
    using es(6) assms(3) by (meson dual_order.trans le_less_trans le_minus_one_simps(1))
  obtain n' where call: "ntfs_cluster_free_from_rl_nolock ps map_err vol bm (xs @ t # g) (vcn (hd es)) (- 1) = Some (err, vol', bm', n')"
    using assms(6) True es(1) by (auto simp: ntfs_cluster_free_from_rl_def)
  let ?F = "range_clusters es (vcn (hd es)) (vcn t)"
  have out: "full_pages ps bm'" "vol_keeps vol vol'" "\<forall>d. d \<notin> ?F \<longrightarrow> in_use ps bm' d = in_use ps bm d"
      "err \<noteq> EOK \<and> \<not> vol_errors vol' \<and> (\<forall>d \<in> ?F. in_use ps bm d) \<longrightarrow> (\<forall>d. in_use ps bm' d = in_use ps bm d)"
    using free_from_rl_spec [OF assms(4) es(2,3) runs es(5) order.refl es(4), of "- 1" "vcn t" map_err vol g]
    unfolding call es(1) [symmetric] by simp_all
  show ?thesis
    using out es(7) assms(1,2) unfolding vol_keeps_def by blast
qed

interpretation pool: cluster_pool "vol_good ps nr" "\<lambda>s. vol_errors (fst s)" "\<lambda>s. in_use ps (snd s)" "vol_grab ps" "vol_release ps nr" for ps nr
proof
  fix s C s'
  assume good: "vol_good ps nr s" and "vol_grab ps s C s'"
  then obtain vol bm vol' bm' env sv count start_lcn zone ext r err r' where
    s: "s = (vol, bm)" "s' = (vol', bm')" "C = (if err = EOK then file_clusters (els r') else {})" and
    call: "env_ok ps vol env" "0 \<le> sv" "0 < count" "- 1 \<le> start_lcn" "start_lcn \<le> nr_clusters vol"
      "ntfs_cluster_alloc env vol bm sv count start_lcn zone ext r = Some (err, vol', bm', r')"
    unfolding vol_grab_def by (cases s; cases s') (simp, blast)
  have vol: "volume_ok vol" "nr_clusters vol = nr" "nr_clusters vol < 2 ^ 63" "full_pages ps bm" using good s(1) by (simp_all add: vol_good_def)
  note out = alloc_call [OF vol(1,3,4) call]
  show "vol_good ps nr s' \<and> (vol_errors (fst s) \<longrightarrow> vol_errors (fst s')) \<and> (\<forall>c. in_use ps (snd s) c \<longrightarrow> in_use ps (snd s') c) \<and>
      (\<forall>c \<in> C. in_use ps (snd s') c \<and> \<not> in_use ps (snd s) c)"
    using out(1-5,7) vol(2,3) unfolding s vol_good_def by simp
next
  fix s C fin s'
  assume good: "vol_good ps nr s" and "vol_release ps nr s C fin s'"
  then obtain vol bm vol' bm' es g vnode_err map_err err n where
    s: "s = (vol, bm)" "s' = (vol', bm')" "C = file_clusters es" "fin = (err = EOK)" and
    call: "file_ok nr es" "ntfs_cluster_free_from_rl ps vnode_err map_err vol bm (es @ g) (vcn (hd es)) (- 1) = Some (err, vol', bm', n)"
    unfolding vol_release_def by (cases s; cases s') (simp, blast)
  have vol: "volume_ok vol" "nr_clusters vol = nr" "nr < 2 ^ 63" "full_pages ps bm" using good s(1) by (simp_all add: vol_good_def)
  show "vol_good ps nr s' \<and> (vol_errors (fst s) \<longrightarrow> vol_errors (fst s')) \<and> (\<forall>c. c \<notin> C \<longrightarrow> in_use ps (snd s') c = in_use ps (snd s) c) \<and>
      (\<not> fin \<and> \<not> vol_errors (fst s') \<and> (\<forall>c \<in> C. in_use ps (snd s) c) \<longrightarrow> (\<forall>c. in_use ps (snd s') c = in_use ps (snd s) c))"
    using free_call [OF vol call] vol(3) unfolding s vol_good_def by simp
qed

text \<open>The ownership of clusters by files, and that of their runlists.\<close>

definition volume_inv :: "nat \<Rightarrow> lcn_volume \<Rightarrow> bitmap \<Rightarrow> (nat \<rightharpoonup> ntfs_rl_element list) \<Rightarrow> bool" where
  "volume_inv ps vol bm files \<longleftrightarrow> pool.owned ps (nr_clusters vol) (vol, bm) (\<lambda>k. map_option file_clusters (files k)) \<and>
     (\<forall>k es. files k = Some es \<longrightarrow> file_ok (nr_clusters vol) es)"

lemma volume_invD:
  assumes "volume_inv ps vol bm files"
  shows "volume_ok vol" "nr_clusters vol < 2 ^ 63" "full_pages ps bm" "files k = Some es \<Longrightarrow> file_ok (nr_clusters vol) es"
  using assms unfolding volume_inv_def pool.owned_def by (simp_all add: vol_good_def)

lemma map_option_upd:
  "(\<lambda>j. map_option f ((m(k \<mapsto> x)) j)) = (\<lambda>j. map_option f (m j))(k \<mapsto> f x)"
  "(\<lambda>j. map_option f ((m(k := None)) j)) = (\<lambda>j. map_option f (m j))(k := None)"
  by auto

lemma volume_inv_alloc:
  assumes "volume_inv ps vol bm files" "env_ok ps vol env"
    "0 \<le> sv" "0 < count" "- 1 \<le> start_lcn" "start_lcn \<le> nr_clusters vol"
    "ntfs_cluster_alloc env vol bm sv count start_lcn zone ext r = Some (err, vol', bm', r')"
  shows "volume_inv ps vol' bm' (if err = EOK then files(k \<mapsto> els r') else files)"
proof -
  note inv = volume_invD [OF assms(1)]
  note out = alloc_call [OF inv(1-3) assms(2-7)]
  have own: "pool.owned ps (nr_clusters vol) (vol, bm) (\<lambda>k. map_option file_clusters (files k))"
    using assms(1) by (simp add: volume_inv_def)
  have grab: "vol_grab ps (vol, bm) (if err = EOK then file_clusters (els r') else {}) (vol', bm')"
    unfolding vol_grab_def prod.case using assms(2-7) by blast
  show ?thesis
  proof (cases "err = EOK")
    case True
    then have "volume_inv ps vol' bm' (files(k \<mapsto> els r'))"
      unfolding volume_inv_def map_option_upd out(3) using pool.owned_grab [OF own grab, of k] inv(4) out(6) by simp
    then show ?thesis using True by simp
  next
    case False
    then show ?thesis using pool.owned_failed [OF own grab] inv(4) by (simp add: volume_inv_def out(3))
  qed
qed

lemma volume_inv_free:
  assumes "volume_inv ps vol bm files" "files k = Some es"
    "ntfs_cluster_free_from_rl ps vnode_err map_err vol bm (es @ g) (vcn (hd es)) (- 1) = Some (err, vol', bm', n)"
  shows "volume_inv ps vol' bm' (if err = EOK then files(k := None) else files)"
proof -
  note inv = volume_invD [OF assms(1)]
  note es = inv(4) [OF assms(2)]
  have nr: "nr_clusters vol' = nr_clusters vol" using free_call [OF inv(1) refl inv(2,3) es assms(3)] by blast
  have own: "pool.owned ps (nr_clusters vol) (vol, bm) (\<lambda>k. map_option file_clusters (files k))"
    using assms(1) by (simp add: volume_inv_def)
  have "vol_release ps (nr_clusters vol) (vol, bm) (file_clusters es) (err = EOK) (vol', bm')"
    unfolding vol_release_def prod.case using assms(3) es by blast
  note rel = pool.owned_release [OF own _ this, of k]
  show ?thesis
  proof (cases "err = EOK")
    case True
    then have "volume_inv ps vol' bm' (files(k := None))"
      unfolding volume_inv_def map_option_upd nr using rel assms(2) inv(4) by simp
    then show ?thesis using True by simp
  next
    case False
    then show ?thesis using rel assms(2) inv(4) by (simp add: volume_inv_def nr)
  qed
qed

lemma volume_state_inv: "volume_state ps vol bm files \<Longrightarrow> volume_inv ps vol bm files"
proof (induction rule: volume_state.induct)
  case (mount multiplier cluster_size vol0 vol1 map_err bm vol)
  obtain v v' where v: "ntfs_setup_allocators multiplier cluster_size vol0 = Some v"
      "ntfs_set_nr_free_clusters ps EOK map_err bm v = Some (EOK, v')" "volume_ok v'" "nr_clusters v' = nr_clusters vol0"
    by (rule mount_ok [where map_err = map_err, OF mount(3,4,6,7,8,9,10)])
  have "v = vol1" using v(1) mount(1) by simp
  then have "v' = vol" using v(2) mount(2) by simp
  then have "volume_ok vol" "nr_clusters vol = nr_clusters vol0" using v(3,4) by simp_all
  then show ?case using mount(5,7) unfolding volume_inv_def pool.owned_def by (simp add: vol_good_def)
qed (rule volume_inv_alloc volume_inv_free; assumption)+

lemma volume_inv_disjoint:
  assumes "volume_inv ps vol bm files" "\<not> vol_errors vol" "files k = Some es" "files k' = Some es'" "k \<noteq> k'"
  shows "file_clusters es \<inter> file_clusters es' = {}"
proof -
  have own: "pool.owned ps (nr_clusters vol) (vol, bm) (\<lambda>k. map_option file_clusters (files k))" using assms(1) by (simp add: volume_inv_def)
  show ?thesis using pool.ownedD(2) [OF own, of k "file_clusters es" k' "file_clusters es'"] assms(2-5) by simp
qed

section \<open>Ownership\<close>

text \<open>
  C2. Clusters are never shared. In every state a volume can reach from mount on, by allocating
  clusters for files and freeing files, whatever fails on the way, the clusters of a file are
  marked as in use and no two files have a cluster in common, as long as the volume has not been
  marked as having errors.
\<close>

theorem no_shared_clusters:
  assumes "volume_state ps vol bm files" "\<not> vol_errors vol"
  shows "(\<forall>k es c. files k = Some es \<and> c \<in> file_clusters es \<longrightarrow> in_use ps bm c \<and> 0 \<le> c \<and> c < nr_clusters vol) \<and>
    (\<forall>k k' es es'. files k = Some es \<and> files k' = Some es' \<and> k \<noteq> k' \<longrightarrow> file_clusters es \<inter> file_clusters es' = {})"
proof -
  have inv: "volume_inv ps vol bm files" by (rule volume_state_inv [OF assms(1)])
  then have own: "pool.owned ps (nr_clusters vol) (vol, bm) (\<lambda>k. map_option file_clusters (files k))" by (simp add: volume_inv_def)
  have "in_use ps bm c \<and> 0 \<le> c \<and> c < nr_clusters vol" if "files k = Some es" "c \<in> file_clusters es" for k es c
    using pool.ownedD(1) [OF own, of k "file_clusters es" c] volume_invD(4) [OF inv that(1)] that assms(2) by (simp add: file_ok_def)
  then show ?thesis using volume_inv_disjoint [OF inv assms(2)] by blast
qed

text \<open>
  The volume of 32 clusters again, with a bitmap in pages of 8 bytes, which is mounted and then has
  two files.
\<close>

definition pool_env :: la_env where
  "pool_env = small_env\<lparr>la_page_size := 8, la_data_size := 8, lcnbmp_data_size := 8\<rparr>"

definition pool_bm :: bitmap where
  "pool_bm ofs = (if ofs = 0 then [0xbf, 0xff, 0xff, 0xcf, 0xff, 0xff, 0xff, 0xff] else replicate 8 0)"

lemma pool_bm_pages: "full_pages 8 pool_bm"
  by (auto simp: full_pages_def pool_bm_def)

lemma pool_bm_tail: "tail_ok 8 pool_bm 32"
proof -
  have "in_use 8 pool_bm c \<longleftrightarrow> c < 64" if "32 \<le> c" for c
  proof (cases "c < 64")
    case True
    have "\<forall>c \<in> set [32..63]. in_use 8 pool_bm c" by code_simp
    moreover have "c \<in> set [32..63]" unfolding set_upto using True that by simp
    ultimately show ?thesis using True by blast
  next
    case False
    then have n: "0 < nat c div 8 div 8" "nat c div 8 mod 8 < 8" by simp_all
    then have "pool_bm (nat c div 8 div 8 * 8) = replicate 8 0" unfolding pool_bm_def by simp
    then have "bm_byte 8 pool_bm (nat c div 8) = 0" unfolding bm_byte_def using n(2) by (simp only: nth_replicate)
    then show ?thesis using False by (simp add: in_use_def bm_bit_def)
  qed
  then show ?thesis by (simp add: tail_ok_def)
qed

lemma pool_free: "free_clusters 8 pool_bm 32 = {6, 28, 29}"
proof -
  have "free_clusters 8 pool_bm 32 = set (filter (\<lambda>c. \<not> in_use 8 pool_bm c) [0..31])" by (auto simp: free_clusters_def)
  also have "\<dots> = {6, 28, 29}" by code_simp
  finally show ?thesis .
qed

lemma pool_count:
  assumes "nr_clusters vol = 32"
  shows "ntfs_set_nr_free_clusters 8 EOK (\<lambda>ofs. EOK) pool_bm vol = Some (EOK, vol\<lparr>nr_free_clusters := 3\<rparr>)"
  using set_nr_free_clusters_spec [of 8 pool_bm vol "\<lambda>ofs. EOK"] pool_bm_pages pool_bm_tail assms by (simp add: pool_free)

definition two_files :: "(lcn_volume \<times> errno \<times> lcn_volume \<times> bitmap \<times> ntfs_runlist \<times> errno \<times> lcn_volume \<times> bitmap \<times> ntfs_runlist) option" where
  "two_files = do {
     vol \<leftarrow> ntfs_setup_allocators 1 512 small_vol;
     (err, vol1, bm1, r) \<leftarrow> ntfs_cluster_alloc pool_env (vol\<lparr>nr_free_clusters := 3\<rparr>) pool_bm 0 2 (- 1) DATA_ZONE True ntfs_rl_init;
     (err', vol2, bm2, r') \<leftarrow> ntfs_cluster_alloc pool_env vol1 bm1 0 1 (- 1) DATA_ZONE True ntfs_rl_init;
     Some (vol, err, vol1, bm1, r, err', vol2, bm2, r') }"

lemma two_files_run:
  "map_option (\<lambda>(vol, err, vol1, bm1, r, err', vol2, bm2, r').
     (nr_clusters vol, err, els r, nr_clusters vol1, err', els r', vol_errors vol2)) two_files =
   Some (32, EOK, [\<lparr>vcn = 0, lcn = 28, rlen = 2\<rparr>, \<lparr>vcn = 2, lcn = LCN_ENOENT, rlen = 0\<rparr>], 32, EOK, [\<lparr>vcn = 0, lcn = 6, rlen = 1\<rparr>, \<lparr>vcn = 1, lcn = LCN_ENOENT, rlen = 0\<rparr>], False)"
  by code_simp

lemma two_files_state:
  obtains vol bm where "volume_state 8 vol bm
      [1 \<mapsto> [\<lparr>vcn = 0, lcn = 28, rlen = 2\<rparr>, \<lparr>vcn = 2, lcn = LCN_ENOENT, rlen = 0\<rparr>],
       2 \<mapsto> [\<lparr>vcn = 0, lcn = 6, rlen = 1\<rparr>, \<lparr>vcn = 1, lcn = LCN_ENOENT, rlen = 0\<rparr>]]" "\<not> vol_errors vol"
proof -
  obtain vol vol1 bm1 r vol2 bm2 r' where run: "ntfs_setup_allocators 1 512 small_vol = Some vol"
      "nr_clusters vol = 32" "nr_clusters (vol\<lparr>nr_free_clusters := 3\<rparr>) = 32"
      "ntfs_cluster_alloc pool_env (vol\<lparr>nr_free_clusters := 3\<rparr>) pool_bm 0 2 (- 1) DATA_ZONE True ntfs_rl_init = Some (EOK, vol1, bm1, r)" "nr_clusters vol1 = 32"
      "ntfs_cluster_alloc pool_env vol1 bm1 0 1 (- 1) DATA_ZONE True ntfs_rl_init = Some (EOK, vol2, bm2, r')" "\<not> vol_errors vol2"
      "els r = [\<lparr>vcn = 0, lcn = 28, rlen = 2\<rparr>, \<lparr>vcn = 2, lcn = LCN_ENOENT, rlen = 0\<rparr>]"
      "els r' = [\<lparr>vcn = 0, lcn = 6, rlen = 1\<rparr>, \<lparr>vcn = 1, lcn = LCN_ENOENT, rlen = 0\<rparr>]"
    using two_files_run unfolding two_files_def by (auto split: bind_splits)
  have env: "env_ok 8 v pool_env" if "nr_clusters v = 32" for v
    using small_ok(1) that by (simp add: env_ok_def pool_env_def)
  have vol: "0 \<le> mft_lcn small_vol" "mft_lcn small_vol < nr_clusters small_vol" "nr_clusters small_vol < 2 ^ 63"
    "tail_ok 8 pool_bm (nr_clusters small_vol)" using pool_bm_tail by (simp_all add: small_vol_def)
  have "volume_state 8 (vol\<lparr>nr_free_clusters := 3\<rparr>) pool_bm Map.empty"
    by (rule volume_state.mount [OF run(1) pool_count [OF run(2)] vol(1-3) _ pool_bm_pages _ vol(4)]) simp_all
  from volume_state.alloc [OF this env [OF run(3)] _ _ _ _ _ run(4), of 1] run(3) have "volume_state 8 vol1 bm1 [1 \<mapsto> els r]" by simp
  from volume_state.alloc [OF this env [OF run(5)] _ _ _ _ _ run(6), of 2] run(5) have "volume_state 8 vol2 bm2 [1 \<mapsto> els r, 2 \<mapsto> els r']" by simp
  then show thesis using that [OF _ run(7)] unfolding run(8,9) by blast
qed

theorem no_shared_clusters_witness:
  "\<exists>vol bm files. volume_state 8 vol bm files \<and> in_use 8 bm 29 \<and> in_use 8 bm 6 \<and>
     file_clusters (the (files 1)) \<inter> file_clusters (the (files 2)) = {}"
proof -
  let ?a = "[\<lparr>vcn = 0, lcn = 28, rlen = 2\<rparr>, \<lparr>vcn = 2, lcn = LCN_ENOENT, rlen = 0\<rparr>]"
  let ?b = "[\<lparr>vcn = 0, lcn = 6, rlen = 1\<rparr>, \<lparr>vcn = 1, lcn = LCN_ENOENT, rlen = 0\<rparr>]"
  obtain vol bm where s: "volume_state 8 vol bm [1 \<mapsto> ?a, 2 \<mapsto> ?b]" "\<not> vol_errors vol" by (rule two_files_state)
  have c: "29 \<in> file_clusters ?a" "6 \<in> file_clusters ?b"
    by (auto simp: file_clusters_def rl_lookup_Cons run_lcn_def image_iff intro: bexI [of _ 1] bexI [of _ 0])
  note disj = no_shared_clusters [OF s]
  have "in_use 8 bm 29" "in_use 8 bm 6"
    using conjunct1 [OF disj, rule_format, of 1 ?a 29] conjunct1 [OF disj, rule_format, of 2 ?b 6] c by simp_all
  moreover have "file_clusters ?a \<inter> file_clusters ?b = {}" using conjunct2 [OF disj, rule_format, of 1 ?a 2 ?b] by simp
  ultimately show ?thesis using s(1) by (intro exI [of _ vol] exI [of _ bm] exI [of _ "[1 \<mapsto> ?a, 2 \<mapsto> ?b]"]) simp
qed

section \<open>Freeing\<close>

text \<open>
  The number of freed clusters is not the number of bits that have been cleared: a run behind the
  first one that cannot be cleared is counted as well. Here the last two of three clusters are lost.
\<close>

lemma free_counts_lost_clusters:
  "map_option (\<lambda>(err, vol, bm, n). (err, vol_errors vol, n, nr_free_clusters vol - nr_free_clusters small_vol,
       map (in_use 2 bm) [4, 14, 15]))
     (ntfs_cluster_free_from_rl 2 EOK (\<lambda>l rollback ofs. if l = 14 then EIO else EOK) small_vol (\<lambda>ofs. [0xff, 0xff])
       [\<lparr>vcn = 0, lcn = 3, rlen = 2\<rparr>, \<lparr>vcn = 2, lcn = LCN_HOLE, rlen = 3\<rparr>, \<lparr>vcn = 5, lcn = 14, rlen = 4\<rparr>,
        \<lparr>vcn = 9, lcn = LCN_ENOENT, rlen = 0\<rparr>] 1 6) =
   Some (EOK, True, Some 3, 1, [False, True, True])"
  by code_simp

text \<open>
  C5. Freeing a range of a runlist, or the runlist from a vcn to its end, returns without a panic.
  It never changes a bit of a cluster outside of the range. On success the count that is returned is
  the number of real clusters of the range, without the holes. If the volume is then not marked as
  having errors, exactly the clusters of the range have been cleared; if it is, a run behind the first
  one may not have been cleared although it is counted. On failure all bits are as
  before, if the volume is not marked as having errors and every cluster of the range was in use.
  When every page of the bitmap can be mapped the call succeeds and does not mark the volume.
\<close>

theorem cluster_free_from_rl_correct:
  assumes "full_pages ps bm" "rl_chain s xs (vcn t)" "rl_term t" "\<forall>e \<in> set xs. LCN_HOLE \<le> lcn e \<and> lcn e + rlen e < 2 ^ 63"
    "0 \<le> v" "s \<le> v" "v < vcn t" "count = - 1 \<and> b = vcn t \<or> 0 < count \<and> b = v + count \<and> b \<le> vcn t"
  shows "\<exists>err vol' bm' n. ntfs_cluster_free_from_rl ps EOK map_err vol bm (xs @ t # g) v count = Some (err, vol', bm', Some n) \<and>
    (volume_ok vol \<longrightarrow> volume_ok vol') \<and>
    (\<forall>c. c \<notin> range_clusters (xs @ [t]) v b \<longrightarrow> in_use ps bm' c = in_use ps bm c) \<and>
    (err = EOK \<longrightarrow> n = int (card (real_clusters (xs @ [t]) v b)) \<and>
       (\<not> vol_errors vol' \<longrightarrow> (\<forall>c. in_use ps bm' c \<longleftrightarrow> in_use ps bm c \<and> c \<notin> range_clusters (xs @ [t]) v b))) \<and>
    (err \<noteq> EOK \<and> \<not> vol_errors vol' \<and> (\<forall>c \<in> range_clusters (xs @ [t]) v b. in_use ps bm c) \<longrightarrow>
       (\<forall>c. in_use ps bm' c = in_use ps bm c)) \<and>
    ((\<forall>l ofs. map_err l False ofs = EOK) \<longrightarrow> err = EOK \<and> vol_errors vol' = vol_errors vol)"
proof -
  let ?F = "range_clusters (xs @ [t]) v b"
  obtain err vol' bm' n where out: "ntfs_cluster_free_from_rl_nolock ps map_err vol bm (xs @ t # g) v count = Some (err, vol', bm', n)"
      "vol_keeps vol vol'" "\<forall>d. d \<notin> ?F \<longrightarrow> in_use ps bm' d = in_use ps bm d"
      "err = EOK \<longrightarrow> freed ps ?F (\<forall>l. map_err l False = (\<lambda>ofs. EOK)) vol bm vol' bm' \<and> n = int (card (real_clusters (xs @ [t]) v b))"
      "err \<noteq> EOK \<and> \<not> vol_errors vol' \<and> (\<forall>d \<in> ?F. in_use ps bm d) \<longrightarrow> (\<forall>d. in_use ps bm' d = in_use ps bm d)"
      "(\<forall>l. map_err l False = (\<lambda>ofs. EOK)) \<longrightarrow> err = EOK"
    using free_from_rl_spec [OF assms, of map_err vol g] by blast
  have m: "(\<forall>l ofs. map_err l False ofs = EOK) \<longleftrightarrow> (\<forall>l. map_err l False = (\<lambda>ofs. EOK))" by (auto simp: fun_eq_iff)
  have call: "ntfs_cluster_free_from_rl ps EOK map_err vol bm (xs @ t # g) v count = Some (err, vol', bm', Some n)"
    by (simp add: ntfs_cluster_free_from_rl_def out(1))
  have clear: "in_use ps bm' c \<longleftrightarrow> in_use ps bm c \<and> c \<notin> ?F" if "err = EOK" "\<not> vol_errors vol'" for c
    using out(3,4) that unfolding freed_def by blast
  have "(\<forall>l. map_err l False = (\<lambda>ofs. EOK)) \<longrightarrow> err = EOK \<and> vol_errors vol' = vol_errors vol"
    using out(4,6) unfolding freed_def by blast
  then show ?thesis
    unfolding m call using out(2-5) clear unfolding vol_keeps_def by blast
qed

theorem cluster_free_from_rl_correct_witness:
  "\<exists>vol' bm'. ntfs_cluster_free_from_rl 2 EOK (\<lambda>l rollback ofs. EOK) small_vol small_bm
     [\<lparr>vcn = 0, lcn = 3, rlen = 2\<rparr>, \<lparr>vcn = 2, lcn = LCN_HOLE, rlen = 3\<rparr>, \<lparr>vcn = 5, lcn = 14, rlen = 4\<rparr>, \<lparr>vcn = 9, lcn = LCN_ENOENT, rlen = 0\<rparr>] 1 6 =
     Some (EOK, vol', bm', Some 3) \<and> volume_ok vol' \<and>
     (\<forall>c. c \<notin> range_clusters [\<lparr>vcn = 0, lcn = 3, rlen = 2\<rparr>, \<lparr>vcn = 2, lcn = LCN_HOLE, rlen = 3\<rparr>, \<lparr>vcn = 5, lcn = 14, rlen = 4\<rparr>, \<lparr>vcn = 9, lcn = LCN_ENOENT, rlen = 0\<rparr>] 1 7 \<longrightarrow>
        in_use 2 bm' c = in_use 2 small_bm c)"
proof -
  let ?xs = "[\<lparr>vcn = 0, lcn = 3, rlen = 2\<rparr>, \<lparr>vcn = 2, lcn = LCN_HOLE, rlen = 3\<rparr>, \<lparr>vcn = 5, lcn = 14, rlen = 4\<rparr>]"
  have "map_option (\<lambda>(err, vol, bm, n). n) (ntfs_cluster_free_from_rl 2 EOK (\<lambda>l rollback ofs. EOK) small_vol small_bm
      (?xs @ [\<lparr>vcn = 9, lcn = LCN_ENOENT, rlen = 0\<rparr>]) 1 6) = Some (Some 3)"
    by code_simp
  then show ?thesis
    using cluster_free_from_rl_correct [of 2 small_bm 0 ?xs "\<lparr>vcn = 9, lcn = LCN_ENOENT, rlen = 0\<rparr>" 1 6 7 "\<lambda>l rollback ofs. EOK" small_vol "[]"]
      small_ok(2,3) by (auto simp: rl_simps small_env_def rl_term_def)
qed

end
