(* ===== verification/NTFS_Runlist_IO.thy ===== *)
theory NTFS_Runlist_IO
  imports NTFS_Runlist
begin

text \<open>
  Data on disk described by a runlist, \<open>kext/ntfs_runlist.c\<close>: reading it (\<open>ntfs_rl_read\<close>), writing it
  (\<open>ntfs_rl_write\<close>) and filling it with a value (\<open>ntfs_rl_set\<close>).

  The device is a function from block numbers to the bytes of a sector. The buffer cache of
  the kernel is a parameter: which error reading, mapping or writing the buffer of a block
  returns. A buffer that is obtained for writing is filled completely before it is written,
  so what it held before does not matter. Errors of \<open>buf_unmap\<close> are only logged and do not appear.
\<close>

section \<open>The code\<close>

record rl_volume =
  v_sector_size :: nat
  v_sector_size_shift :: nat
  v_cluster_size_shift :: nat

record blk_io =
  bread_err :: "int \<Rightarrow> errno"
  bmap_err :: "int \<Rightarrow> errno"
  bwrite_err :: "int \<Rightarrow> errno"

type_synonym device = "int \<Rightarrow> u8 list"

text \<open>
  The blocks of one run, read until the destination is full or the run ends. The result is
  an error, or the memory, the destination and whether it is full.
\<close>

function rl_read_blocks ::
  "blk_io \<Rightarrow> device \<Rightarrow> nat \<Rightarrow> nat \<Rightarrow> u8 list \<Rightarrow> nat \<Rightarrow> int \<Rightarrow> int \<Rightarrow> ((errno \<times> u8 list) + u8 list \<times> nat \<times> bool) option" where
  "rl_read_blocks io dev block_size dst_end mem dst block max_block =
     (if bread_err io block \<noteq> EOK then Some (Inl (bread_err io block, mem))
      else if bmap_err io block \<noteq> EOK then Some (Inl (bmap_err io block, mem))
      else let n = (if dst_end < dst + block_size then dst_end - dst else block_size) in do {
        mem \<leftarrow> copy_els mem dst (dev block) 0 n;
        if dst_end \<le> dst + n then Some (Inr (mem, dst + n, True))
        else if block + 1 < max_block
        then rl_read_blocks io dev block_size dst_end mem (dst + n) (block + 1) max_block
        else Some (Inr (mem, dst + n, False)) })"
  by pat_completeness auto
termination
  by (relation "measure (\<lambda>(io, dev, bs, e, mem, dst, block, max_block). nat (max_block - block))") auto

declare rl_read_blocks.simps [simp del]

text \<open>The runs, from the given element on.\<close>

fun rl_read_runs ::
  "blk_io \<Rightarrow> device \<Rightarrow> nat \<Rightarrow> nat \<Rightarrow> nat \<Rightarrow> ntfs_rl_element list \<Rightarrow> u8 list \<Rightarrow> nat \<Rightarrow> ((errno \<times> u8 list) + u8 list \<times> nat) option" where
  "rl_read_runs io dev block_size shift dst_end [] mem dst = None"
| "rl_read_runs io dev block_size shift dst_end (e # es) mem dst =
     (if rlen e = 0 then Some (Inr (mem, dst))
      else if lcn e < 0 then Some (Inl (EIO, mem))
      else let block = lcn e * 2 ^ shift; max_block = block + rlen e * 2 ^ shift in do {
        r \<leftarrow> rl_read_blocks io dev block_size dst_end mem dst block max_block;
        case r of
          Inl err \<Rightarrow> Some (Inl err)
        | Inr (mem, dst, full) \<Rightarrow>
            if full then Some (Inr (mem, dst))
            else rl_read_runs io dev block_size shift dst_end es mem dst })"

definition ntfs_rl_read ::
  "blk_io \<Rightarrow> rl_volume \<Rightarrow> device \<Rightarrow> ntfs_runlist \<Rightarrow> u8 list \<Rightarrow> int \<Rightarrow> int \<Rightarrow> (errno \<times> u8 list) option" where
  "ntfs_rl_read io vol dev r mem len initialized_size =
     (if len \<le> 0 \<or> initialized_size < 0 \<or> len < initialized_size then Some (EINVAL, mem)
      else if initialized_size = 0 then do {
        mem \<leftarrow> bzero mem 0 (nat len);
        Some (EOK, mem) }
      else if rl r = [] then Some (EIO, mem)
      else let dst_end = nat initialized_size; shift = v_cluster_size_shift vol - v_sector_size_shift vol in do {
        res \<leftarrow> rl_read_runs io dev (v_sector_size vol) shift dst_end (rl r) mem 0;
        case res of
          Inl (err, mem) \<Rightarrow> Some (err, mem)
        | Inr (mem, dst) \<Rightarrow> do {
            mem \<leftarrow> (if dst < dst_end then bzero mem dst (dst_end - dst) else Some mem);
            mem \<leftarrow> (if initialized_size < len then bzero mem dst_end (nat len - dst_end) else Some mem);
            Some (EOK, mem) } })"

text \<open>
  The blocks of one cluster, written until the end of the data: the error if there is one,
  the device, the position in the source and whether the end was reached. The source buffer
  has \<open>sz\<close> bytes.
\<close>

function rl_write_blocks ::
  "blk_io \<Rightarrow> nat \<Rightarrow> u8 list \<Rightarrow> nat \<Rightarrow> nat \<Rightarrow> device \<Rightarrow> nat \<Rightarrow> int \<Rightarrow> int \<Rightarrow> (bool \<times> device \<times> nat \<times> bool) option" where
  "rl_write_blocks io block_size mem sz src_stop dev src block end_block =
     (if bmap_err io block \<noteq> EOK then Some (True, dev, src, False)
      else let n = (if sz < src + block_size then sz - src else block_size) in do {
        buf \<leftarrow> copy_els (replicate block_size 0) 0 mem src n;
        if bwrite_err io block \<noteq> EOK then Some (True, dev, src, False)
        else let dev = dev(block := buf) in
        if src_stop \<le> src + n then Some (False, dev, src + n, True)
        else if block + 1 < end_block
        then rl_write_blocks io block_size mem sz src_stop dev (src + n) (block + 1) end_block
        else Some (False, dev, src + n, False) })"
  by pat_completeness auto
termination
  by (relation "measure (\<lambda>(io, bs, mem, sz, stop, dev, src, block, end_block). nat (end_block - block))") auto

declare rl_write_blocks.simps [simp del]

text \<open>
  The loop over the clusters, with the runlist from the current element on. It ends with
  the data or with the runlist; an error becomes \<open>EIO\<close>.
\<close>

partial_function (option) rl_write_clusters ::
  "blk_io \<Rightarrow> rl_volume \<Rightarrow> u8 list \<Rightarrow> nat \<Rightarrow> nat \<Rightarrow> device \<Rightarrow> nat \<Rightarrow> ntfs_rl_element list \<Rightarrow> int \<Rightarrow> nat \<Rightarrow>
   (errno \<times> device) option" where
  "rl_write_clusters io vol mem sz src_stop dev src es v vcn_ofs = do {
     (l, clusters) \<leftarrow> ntfs_rl_vcn_to_lcn es v;
     if l < 0 then None
     else do {
       let block = (l * 2 ^ v_cluster_size_shift vol + int vcn_ofs) div 2 ^ v_sector_size_shift vol;
       let end_block = (l + 1) * 2 ^ (v_cluster_size_shift vol - v_sector_size_shift vol);
       (failed, dev, src, finished) \<leftarrow> rl_write_blocks io (v_sector_size vol) mem sz src_stop dev src block end_block;
       if failed then Some (EIO, dev)
       else if finished then Some (EOK, dev)
       else do {
         e \<leftarrow> rd es 1;
         if vcn e \<le> v + 1 then
           if rlen e = 0 then Some (EOK, dev)
           else rl_write_clusters io vol mem sz src_stop dev src (drop 1 es) (v + 1) 0
         else rl_write_clusters io vol mem sz src_stop dev src es (v + 1) 0 } } }"

text \<open>
  The sector size is a power of two, and a buffer is at least \<open>size\<close> bytes long. Where \<open>EIO\<close> is
  returned the code also marks the volume as having errors (\<open>NVolSetErrors\<close>), a flag of the volume
  that is not part of the state here. \<open>buf_getblk\<close> is taken to return a buffer; the code panics if it
  does not.
\<close>

definition ntfs_rl_write ::
  "blk_io \<Rightarrow> rl_volume \<Rightarrow> device \<Rightarrow> u8 list \<Rightarrow> int \<Rightarrow> ntfs_runlist \<Rightarrow> int \<Rightarrow> int \<Rightarrow> (errno \<times> device) option" where
  "ntfs_rl_write io vol dev mem len r ofs cnt =
     (if len \<le> 0 \<or> elements r = 0 \<or> ofs < 0 \<or> cnt < 0 \<or> len < ofs + cnt then Some (EINVAL, dev)
      else let
        src_stop = (if cnt \<noteq> 0 then nat (ofs + cnt) else nat len);
        ofs = ofs - ofs mod int (v_sector_size vol);
        v = ofs div 2 ^ v_cluster_size_shift vol;
        vcn_ofs = nat (ofs mod 2 ^ v_cluster_size_shift vol) in do {
        found \<leftarrow> ntfs_rl_find_vcn_nolock (rl r) v;
        case found of
          None \<Rightarrow> None
        | Some i \<Rightarrow> do {
            e \<leftarrow> rd (rl r) i;
            if rlen e = 0 then None
            else rl_write_clusters io vol mem (nat len) src_stop dev (nat ofs) (drop i (rl r)) v vcn_ofs } })"

function rl_set_blocks ::
  "blk_io \<Rightarrow> u8 list \<Rightarrow> device \<Rightarrow> int \<Rightarrow> int \<Rightarrow> errno \<times> device" where
  "rl_set_blocks io buf dev block end_block =
     (if bmap_err io block \<noteq> EOK then (bmap_err io block, dev)
      else if bwrite_err io block \<noteq> EOK then (bwrite_err io block, dev)
      else if block + 1 < end_block then rl_set_blocks io buf (dev(block := buf)) (block + 1) end_block
      else (EOK, dev(block := buf)))"
  by pat_completeness auto
termination
  by (relation "measure (\<lambda>(io, buf, dev, block, end_block). nat (end_block - block))") auto

declare rl_set_blocks.simps [simp del]

fun rl_set_runs :: "blk_io \<Rightarrow> u8 list \<Rightarrow> nat \<Rightarrow> device \<Rightarrow> ntfs_rl_element list \<Rightarrow> (errno \<times> device) option" where
  "rl_set_runs io buf shift dev [] = None"
| "rl_set_runs io buf shift dev (e # es) =
     (if vcn e < 0 then None
      else if lcn e < 0 \<and> lcn e \<noteq> LCN_HOLE \<and> lcn e \<noteq> LCN_RL_NOT_MAPPED then Some (EIO, dev)
      else let (err, dev) =
        (if lcn e < 0 then (EOK, dev)
         else rl_set_blocks io buf dev (lcn e * 2 ^ shift) ((lcn e + rlen e) * 2 ^ shift)) in
      if err \<noteq> EOK then Some (err, dev)
      else case es of
        [] \<Rightarrow> None
      | e' # _ \<Rightarrow> if rlen e' = 0 then Some (EOK, dev) else rl_set_runs io buf shift dev es)"

definition ntfs_rl_set :: "blk_io \<Rightarrow> rl_volume \<Rightarrow> device \<Rightarrow> ntfs_rl_element list \<Rightarrow> u8 \<Rightarrow> (errno \<times> device) option" where
  "ntfs_rl_set io vol dev xs val =
     (case xs of
        [] \<Rightarrow> Some (EINVAL, dev)
      | e # _ \<Rightarrow>
          if rlen e = 0 then Some (EINVAL, dev)
          else rl_set_runs io (replicate (v_sector_size vol) val)
            (v_cluster_size_shift vol - v_sector_size_shift vol) dev xs)"

section \<open>Data in blocks\<close>

text \<open>The data \<open>d\<close> on a list of blocks: sector by sector, the last one filled up with zeroes.\<close>

fun write_seq :: "nat \<Rightarrow> u8 list \<Rightarrow> int list \<Rightarrow> device \<Rightarrow> device" where
  "write_seq bs d [] dev = dev"
| "write_seq bs d (b # bl) dev =
     (if d = [] then dev
      else write_seq bs (drop bs d) bl (dev(b := take bs d @ replicate (bs - length d) 0)))"

lemma write_seq_Nil [simp]: "write_seq bs [] bl dev = dev"
  by (cases bl) simp_all

lemma write_seq_append: "write_seq bs d (xs @ ys) dev = write_seq bs (drop (bs * length xs) d) ys (write_seq bs d xs dev)"
  by (induction xs arbitrary: d dev) (auto simp: add.commute)

lemma write_seq_other: "b \<notin> set bl \<Longrightarrow> write_seq bs d bl dev b = dev b"
  by (induction bl arbitrary: d dev) auto

lemma read_write_seq:
  assumes "distinct bl" "length d \<le> bs * length bl" "0 < bs"
  shows "take (length d) (concat (map (write_seq bs d bl dev) bl)) = d"
  using assms
proof (induction bl arbitrary: d dev)
  case (Cons b bl)
  show ?case
  proof (cases "d = []")
    case False
    let ?dev = "dev(b := take bs d @ replicate (bs - length d) 0)"
    have "write_seq bs (drop bs d) bl ?dev b = take bs d @ replicate (bs - length d) 0"
      using Cons.prems(1) by (subst write_seq_other) auto
    moreover have "take (length (drop bs d)) (concat (map (write_seq bs (drop bs d) bl ?dev) bl)) = drop bs d"
      by (rule Cons.IH) (use Cons.prems in auto)
    ultimately show ?thesis using False by (cases "bs \<le> length d") auto
  qed simp
qed simp

definition no_errors :: "blk_io \<Rightarrow> bool" where
  "no_errors io \<longleftrightarrow> (\<forall>b. bread_err io b = EOK \<and> bmap_err io b = EOK \<and> bwrite_err io b = EOK)"

lemma rl_write_blocks_eq:
  assumes "no_errors io" "0 < bs" "src < sz" "sz \<le> length mem" "b < e"
  defines "d \<equiv> drop src (take sz mem)"
  shows "rl_write_blocks io bs mem sz sz dev src b e = Some (False, write_seq bs d [b..e - 1] dev,
    min sz (src + bs * nat (e - b)), sz \<le> src + bs * nat (e - b))"
  using assms(3,5) unfolding d_def
proof (induction "nat (e - b)" arbitrary: b dev src rule: less_induct)
  case less
  let ?n = "if sz < src + bs then sz - src else bs"
  let ?d = "drop src (take sz mem)" and ?buf = "take bs (drop src (take sz mem)) @ replicate (bs - (sz - src)) 0"
  have "copy_els (replicate bs 0) 0 mem src ?n = Some ?buf"
    using less.prems assms(2,4) by (auto simp: copy_els_def take_drop min_def)
  then have step: "rl_write_blocks io bs mem sz sz dev src b e =
    (if sz \<le> src + ?n then Some (False, dev(b := ?buf), src + ?n, True)
     else if b + 1 < e then rl_write_blocks io bs mem sz sz (dev(b := ?buf)) (src + ?n) (b + 1) e
     else Some (False, dev(b := ?buf), src + ?n, False))"
    using assms(1) by (subst rl_write_blocks.simps) (simp add: no_errors_def Let_def)
  have bl: "[b..e - 1] = b # [b + 1..e - 1]" using less.prems by (simp add: upto_rec1)
  have k: "nat (e - b) = Suc (nat (e - (b + 1)))" using less.prems by simp
  have ne: "?d \<noteq> []" "length ?d = sz - src" using less.prems assms(4) by auto
  show ?case
  proof (cases "sz \<le> src + bs")
    case True
    then have "drop bs ?d = []" using assms(4) by simp
    moreover have "sz \<le> src + bs * nat (e - b)" using True unfolding k by simp
    ultimately show ?thesis using step True less.prems ne unfolding bl by auto
  next
    case False
    then have n: "?n = bs" "src + bs < sz" by auto
    have w: "write_seq bs ?d [b..e - 1] dev = write_seq bs (drop (src + bs) (take sz mem)) [b + 1..e - 1] (dev(b := ?buf))"
      using ne less.prems(1) unfolding bl by (simp add: add.commute)
    show ?thesis
    proof (cases "b + 1 < e")
      case True
      have "rl_write_blocks io bs mem sz sz (dev(b := ?buf)) (src + bs) (b + 1) e =
        Some (False, write_seq bs (drop (src + bs) (take sz mem)) [b + 1..e - 1] (dev(b := ?buf)),
          min sz (src + bs + bs * nat (e - (b + 1))), sz \<le> src + bs + bs * nat (e - (b + 1)))"
        by (rule less.hyps) (use True n in auto)
      then show ?thesis using step n True w unfolding k by (simp add: add.assoc)
    next
      case last: False
      then have "e = b + 1" using less.prems by simp
      then show ?thesis using step n w by simp
    qed
  qed
qed

section \<open>Writing a runlist\<close>

text \<open>The blocks of a run from a vcn on, and of the runs.\<close>

definition run_blocks :: "nat \<Rightarrow> ntfs_rl_element \<Rightarrow> int \<Rightarrow> int list" where
  "run_blocks s e v = [(lcn e + (v - vcn e)) * 2 ^ s..(lcn e + rlen e) * 2 ^ s - 1]"

definition rl_blocks :: "nat \<Rightarrow> ntfs_rl_element list \<Rightarrow> int list" where
  "rl_blocks s xs = concat (map (\<lambda>e. run_blocks s e (vcn e)) xs)"

lemma run_blocks_step:
  assumes "vcn e \<le> v" "v < vcn e + rlen e"
  shows "run_blocks s e v = [(lcn e + (v - vcn e)) * 2 ^ s..(lcn e + (v - vcn e) + 1) * 2 ^ s - 1] @ run_blocks s e (v + 1)"
proof -
  let ?l = "lcn e + (v - vcn e)"
  have "?l * 2 ^ s \<le> (?l + 1) * 2 ^ s - 1 + 1" "?l + 1 \<le> lcn e + rlen e" using assms by simp_all
  moreover from this(2) have "(?l + 1) * 2 ^ s \<le> (lcn e + rlen e) * 2 ^ s" by (intro mult_right_mono) auto
  ultimately show ?thesis
    using upto_split2 [of "?l * 2 ^ s" "(?l + 1) * 2 ^ s - 1" "(lcn e + rlen e) * 2 ^ s - 1"]
    by (simp add: run_blocks_def algebra_simps)
qed

lemma vcn_to_lcn_head:
  assumes "vcn e \<le> v" "v < vcn e + rlen e" "0 \<le> v" "0 \<le> lcn e" "es \<noteq> []" "vcn (hd es) = vcn e + rlen e"
  shows "\<exists>c. ntfs_rl_vcn_to_lcn (e # es) v = Some (lcn e + (v - vcn e), c)"
  using assms by (cases es) (auto simp: ntfs_rl_vcn_to_lcn_def Let_def)

definition vol_ok :: "rl_volume \<Rightarrow> bool" where
  "vol_ok vol \<longleftrightarrow> v_sector_size vol = 2 ^ v_sector_size_shift vol \<and> v_sector_size_shift vol \<le> v_cluster_size_shift vol"

abbreviation blk_shift :: "rl_volume \<Rightarrow> nat" where
  "blk_shift vol \<equiv> v_cluster_size_shift vol - v_sector_size_shift vol"

lemma rl_write_clusters_eq:
  assumes "no_errors io" "vol_ok vol" "sz \<le> length mem" "rlen t = 0"
    and "rl_chain (vcn e) (e # xs) (vcn t)" "\<forall>x \<in> set (e # xs). 0 \<le> lcn x" "vcn e \<le> v" "v < vcn e + rlen e" "0 \<le> v"
    and "src < sz" "sz - src \<le> v_sector_size vol * length (run_blocks (blk_shift vol) e v @ rl_blocks (blk_shift vol) xs)"
  shows "rl_write_clusters io vol mem sz sz dev src (e # xs @ t # g) v 0 =
    Some (EOK, write_seq (v_sector_size vol) (drop src (take sz mem))
      (run_blocks (blk_shift vol) e v @ rl_blocks (blk_shift vol) xs) dev)"
  using assms(5-11)
proof (induction "nat (vcn t - v)" arbitrary: e xs v src dev rule: less_induct)
  case less
  let ?s = "blk_shift vol" and ?bs = "v_sector_size vol" and ?l = "lcn e + (v - vcn e)"
  let ?b = "?l * 2 ^ ?s" and ?e = "(?l + 1) * 2 ^ ?s" and ?d = "drop src (take sz mem)"
  let ?cl = "[?b..?e - 1]" and ?rest = "run_blocks ?s e (v + 1) @ rl_blocks ?s xs"
  have vt: "v < vcn t" using less.prems(1,4) rl_chain_le by fastforce
  have split: "run_blocks ?s e v @ rl_blocks ?s xs = ?cl @ ?rest" using run_blocks_step [OF less.prems(3,4)] by simp
  have l: "0 \<le> ?l" using less.prems(2,3) by simp
  obtain c where lcn: "ntfs_rl_vcn_to_lcn (e # xs @ t # g) v = Some (?l, c)"
    using vcn_to_lcn_head [OF less.prems(3,4,5), of "xs @ t # g"] less.prems(1,2) by (cases xs) auto
  have "(2 :: int) ^ v_cluster_size_shift vol = 2 ^ ?s * 2 ^ v_sector_size_shift vol"
    using assms(2) by (simp add: vol_ok_def flip: power_add)
  then have block: "(?l * 2 ^ v_cluster_size_shift vol + int 0) div 2 ^ v_sector_size_shift vol = ?b" by simp
  have n: "nat (?e - ?b) = 2 ^ ?s" "length ?cl = 2 ^ ?s" "?b < ?e" by (simp_all add: algebra_simps)
  have bs: "0 < ?bs" using assms(2) by (simp add: vol_ok_def)
  note blocks = rl_write_blocks_eq [OF assms(1) bs less.prems(6) assms(3) n(3), of dev, unfolded n(1)]
  define e' where "e' = hd (xs @ [t])"
  have e': "rd (e # xs @ t # g) 1 = Some e'" "vcn e' = vcn e + rlen e"
    using less.prems(1) by (cases xs; simp add: rd_def e'_def)+
  have step: "rl_write_clusters io vol mem sz sz dev src (e # xs @ t # g) v 0 =
    (let dev' = write_seq ?bs ?d ?cl dev in
     if sz \<le> src + ?bs * 2 ^ ?s then Some (EOK, dev')
     else if vcn e' \<le> v + 1 then
       if rlen e' = 0 then Some (EOK, dev')
       else rl_write_clusters io vol mem sz sz dev' (src + ?bs * 2 ^ ?s) (xs @ t # g) (v + 1) 0
     else rl_write_clusters io vol mem sz sz dev' (src + ?bs * 2 ^ ?s) (e # xs @ t # g) (v + 1) 0)"
    using lcn l block blocks e'(1) by (subst rl_write_clusters.simps) (auto simp: Let_def min_def)
  have w: "write_seq ?bs ?d (?cl @ ?rest) dev =
      write_seq ?bs (drop (src + ?bs * 2 ^ ?s) (take sz mem)) ?rest (write_seq ?bs ?d ?cl dev)"
    unfolding write_seq_append n(2) by (simp add: add.commute)
  have room: "sz - (src + ?bs * 2 ^ ?s) \<le> ?bs * length ?rest"
    using less.prems(7) unfolding split length_append n(2) by (simp add: algebra_simps)
  show ?case unfolding split w
  proof (cases "sz \<le> src + ?bs * 2 ^ ?s")
    case True
    then have "drop (src + ?bs * 2 ^ ?s) (take sz mem) = []" by simp
    then show "rl_write_clusters io vol mem sz sz dev src (e # xs @ t # g) v 0 =
      Some (EOK, write_seq ?bs (drop (src + ?bs * 2 ^ ?s) (take sz mem)) ?rest (write_seq ?bs ?d ?cl dev))"
      using step True by simp
  next
    case False
    show "rl_write_clusters io vol mem sz sz dev src (e # xs @ t # g) v 0 =
      Some (EOK, write_seq ?bs (drop (src + ?bs * 2 ^ ?s) (take sz mem)) ?rest (write_seq ?bs ?d ?cl dev))"
    proof (cases "v + 1 < vcn e + rlen e")
      case True
      have "rl_write_clusters io vol mem sz sz (write_seq ?bs ?d ?cl dev) (src + ?bs * 2 ^ ?s) (e # xs @ t # g) (v + 1) 0 =
        Some (EOK, write_seq ?bs (drop (src + ?bs * 2 ^ ?s) (take sz mem)) ?rest (write_seq ?bs ?d ?cl dev))"
        by (rule less.hyps) (use less.prems vt True False room in auto)
      then show ?thesis using step False True e'(2) by simp
    next
      case last: False
      then have v1: "v + 1 = vcn e + rlen e" using less.prems(4) by simp
      then have "run_blocks ?s e (v + 1) = []" by (simp add: run_blocks_def)
      then have rest: "?rest = rl_blocks ?s xs" by simp
      then obtain y ys where xs: "xs = y # ys" using room False by (cases xs) (auto simp: rl_blocks_def)
      have "rl_write_clusters io vol mem sz sz (write_seq ?bs ?d ?cl dev) (src + ?bs * 2 ^ ?s) (y # ys @ t # g) (v + 1) 0 =
        Some (EOK, write_seq ?bs (drop (src + ?bs * 2 ^ ?s) (take sz mem)) (run_blocks ?s y (v + 1) @ rl_blocks ?s ys)
          (write_seq ?bs ?d ?cl dev))"
        by (rule less.hyps) (use less.prems vt v1 False room rest in \<open>auto simp: xs rl_blocks_def\<close>)
      then show ?thesis using step False v1 e' less.prems(1) unfolding rest by (auto simp: xs e'_def rl_blocks_def)
    qed
  qed
qed

section \<open>Reading a runlist\<close>

lemma length_concat_blocks: "(\<And>b. length (dev b) = bs) \<Longrightarrow> length (concat (map dev bl)) = bs * length bl" for dev :: device
  by (induction bl) simp_all

lemma rl_read_blocks_eq:
  assumes "no_errors io" "\<And>b. length (dev b) = bs" "0 < bs"
    and "R \<noteq> []" "dst_end = length dn + length R" "b < e"
  defines "D \<equiv> concat (map dev [b..e - 1])"
  shows "rl_read_blocks io dev bs dst_end (dn @ R @ S) (length dn) b e =
    Some (Inr (dn @ take (length R) D @ drop (length D) R @ S, length dn + min (length R) (length D), length R \<le> length D))"
  using assms(4-6) unfolding D_def
proof (induction "nat (e - b)" arbitrary: b dn R rule: less_induct)
  case less
  let ?n = "min (length R) bs" and ?D = "concat (map dev [b + 1..e - 1])"
  have n: "(if dst_end < length dn + bs then dst_end - length dn else bs) = ?n" using less.prems(2) by auto
  have cp: "copy_els (dn @ R @ S) (length dn) (dev b) 0 ?n = Some (dn @ take ?n (dev b) @ drop ?n R @ S)"
    using less.prems(1) assms(2,3) by (simp add: copy_els_def)
  have step: "rl_read_blocks io dev bs dst_end (dn @ R @ S) (length dn) b e =
    (let mem = dn @ take ?n (dev b) @ drop ?n R @ S in
     if length R \<le> bs then Some (Inr (mem, length dn + ?n, True))
     else if b + 1 < e then rl_read_blocks io dev bs dst_end mem (length dn + ?n) (b + 1) e
     else Some (Inr (mem, length dn + ?n, False)))"
    using assms(1) cp less.prems(2) by (subst rl_read_blocks.simps) (auto simp: no_errors_def Let_def n)
  have bl: "[b..e - 1] = b # [b + 1..e - 1]" using less.prems(3) by (simp add: upto_rec1)
  show ?case
  proof (cases "length R \<le> bs")
    case True
    then show ?thesis using step assms(2) unfolding bl by (simp add: Let_def)
  next
    case False
    then have dl: "?n = bs" "length (take ?n (dev b)) = bs" using assms(2) by auto
    show ?thesis
    proof (cases "b + 1 < e")
      case True
      have "rl_read_blocks io dev bs dst_end ((dn @ dev b) @ drop bs R @ S) (length (dn @ dev b)) (b + 1) e =
        Some (Inr ((dn @ dev b) @ take (length (drop bs R)) ?D @ drop (length ?D) (drop bs R) @ S,
          length (dn @ dev b) + min (length (drop bs R)) (length ?D), length (drop bs R) \<le> length ?D))"
        by (rule less.hyps) (use less.prems False True assms(2) in auto)
      then show ?thesis using step False True dl assms(2) unfolding bl
        by (auto simp: Let_def add.commute min_def)
    next
      case last: False
      then have "[b + 1..e - 1] = []" by simp
      then show ?thesis using step False last dl assms(2) unfolding bl by (simp add: Let_def)
    qed
  qed
qed

lemma rl_read_runs_eq:
  assumes "no_errors io" "\<And>b. length (dev b) = bs" "0 < bs" "rlen t = 0"
    and "\<forall>x \<in> set xs. 0 \<le> lcn x \<and> 0 < rlen x"
    and "R \<noteq> []" "dst_end = length dn + length R" "length R \<le> bs * length (rl_blocks s xs)"
  shows "rl_read_runs io dev bs s dst_end (xs @ t # g) (dn @ R @ S) (length dn) =
    Some (Inr (dn @ take (length R) (concat (map dev (rl_blocks s xs))) @ S, dst_end))"
  using assms(5-8)
proof (induction xs arbitrary: dn R)
  case Nil
  then show ?case by (simp add: rl_blocks_def)
next
  case (Cons e xs)
  let ?b = "lcn e * 2 ^ s" and ?e = "lcn e * 2 ^ s + rlen e * 2 ^ s" and ?D = "concat (map dev (run_blocks s e (vcn e)))"
  have lt: "?b < ?e" and ok: "rlen e \<noteq> 0" "\<not> lcn e < 0" using Cons.prems(1) by auto
  have run: "run_blocks s e (vcn e) = [?b..?e - 1]" by (simp add: run_blocks_def algebra_simps)
  have blocks: "rl_blocks s (e # xs) = run_blocks s e (vcn e) @ rl_blocks s xs" by (simp add: rl_blocks_def)
  note rd = rl_read_blocks_eq [where dev = dev, OF assms(1,2,3) Cons.prems(2,3) lt, of S, folded run]
  have len: "length ?D = bs * length (run_blocks s e (vcn e))" by (rule length_concat_blocks [OF assms(2)])
  show ?case
  proof (cases "length R \<le> length ?D")
    case True
    then show ?thesis using rd ok Cons.prems(3) unfolding blocks by (simp add: Let_def)
  next
    case False
    have "rl_read_runs io dev bs s dst_end (xs @ t # g) ((dn @ ?D) @ drop (length ?D) R @ S) (length (dn @ ?D)) =
      Some (Inr ((dn @ ?D) @ take (length (drop (length ?D) R)) (concat (map dev (rl_blocks s xs))) @ S, dst_end))"
      by (rule Cons.IH) (use Cons.prems False len blocks in \<open>auto simp: algebra_simps\<close>)
    then show ?thesis using rd ok False unfolding blocks by (simp add: Let_def)
  qed
qed

lemma write_seq_length: "(\<And>b. length (dev b) = bs) \<Longrightarrow> length (write_seq bs d bl dev b) = bs"
proof (induction bl arbitrary: d dev)
  case (Cons a bl)
  let ?dev = "dev(a := take bs d @ replicate (bs - length d) 0)"
  have "length (?dev b') = bs" for b' using Cons.prems by (simp add: min_def)
  then show ?case using Cons.IH [of ?dev "drop bs d"] Cons.prems by (simp add: fun_upd_def)
qed simp

lemma rl_chain_pos: "rl_chain s xs t \<Longrightarrow> \<forall>x \<in> set xs. 0 < rlen x"
  by (induction xs arbitrary: s) auto

section \<open>Properties\<close>

lemma rl_write_read_spec:
  assumes "no_errors io" and "vol_ok vol" and "\<And>b. length (dev b) = v_sector_size vol"
    and "rl r = xs @ t # g" and "elements r \<noteq> 0" and "rl_chain 0 xs (vcn t)" and "rl_term t"
    and "\<forall>x \<in> set xs. 0 \<le> lcn x" and "distinct (rl_blocks (blk_shift vol) xs)"
    and "0 < sz" and "sz \<le> v_sector_size vol * length (rl_blocks (blk_shift vol) xs)"
    and "sz \<le> length mem" and "sz \<le> length out"
  shows "\<exists>dev'. ntfs_rl_write io vol dev mem (int sz) r 0 0 = Some (EOK, dev') \<and>
    ntfs_rl_read io vol dev' r out (int sz) (int sz) = Some (EOK, take sz mem @ drop sz out) \<and>
    (\<forall>b. b \<notin> set (rl_blocks (blk_shift vol) xs) \<longrightarrow> dev' b = dev b)"
proof -
  let ?s = "blk_shift vol" and ?bs = "v_sector_size vol"
  obtain e ys where xs: "xs = e # ys" using assms(10,11) by (cases xs) (auto simp: rl_blocks_def)
  have e: "vcn e = 0" "0 < rlen e" "0 \<le> lcn e" using assms(6,8) by (auto simp: xs)
  have bs: "0 < ?bs" using assms(2) by (simp add: vol_ok_def)
  define dev' where "dev' = write_seq ?bs (take sz mem) (rl_blocks ?s xs) dev"
  have blocks: "rl_blocks ?s xs = run_blocks ?s e 0 @ rl_blocks ?s ys" using e by (simp add: xs rl_blocks_def)
  have "rl_write_clusters io vol mem sz sz dev 0 (rl r) 0 0 = Some (EOK, dev')"
    using rl_write_clusters_eq [OF assms(1,2,12), where t = t and e = e and xs = ys and v = 0 and src = 0 and dev = dev and g = g]
      assms(4,6,7,8,10,11) e unfolding dev'_def blocks by (simp add: xs rl_term_def)
  moreover have "ntfs_rl_find_vcn_nolock (rl r) 0 = Some (Some 0)" "rd (rl r) 0 = Some e"
    using e assms(4,6) by (cases ys; auto simp: xs ntfs_rl_find_vcn_nolock_def rd_def)+
  ultimately have "ntfs_rl_write io vol dev mem (int sz) r 0 0 = Some (EOK, dev')"
    using assms(5,10) e(2) by (simp add: ntfs_rl_write_def Let_def)
  moreover have "ntfs_rl_read io vol dev' r out (int sz) (int sz) = Some (EOK, take sz mem @ drop sz out)"
  proof -
    have len: "length (dev' b) = ?bs" for b unfolding dev'_def by (rule write_seq_length [OF assms(3)])
    have pos: "\<forall>x \<in> set xs. 0 \<le> lcn x \<and> 0 < rlen x"
      using assms(8) rl_chain_pos [OF assms(6)] by blast
    have "rl_read_runs io dev' ?bs ?s sz (xs @ t # g) ([] @ take sz out @ drop sz out) (length ([] :: u8 list)) =
      Some (Inr ([] @ take (length (take sz out)) (concat (map dev' (rl_blocks ?s xs))) @ drop sz out, sz))"
      by (rule rl_read_runs_eq [OF assms(1) len bs _ pos]) (use assms(7,10,11,13) in \<open>auto simp: rl_term_def\<close>)
    moreover have "take sz (concat (map dev' (rl_blocks ?s xs))) = take sz mem"
      using read_write_seq [OF assms(9) _ bs, of "take sz mem" dev] assms(11,12) by (simp add: dev'_def min_absorb2)
    ultimately show ?thesis using assms(4,10,13) by (simp add: ntfs_rl_read_def Let_def min_def)
  qed
  moreover have "\<forall>b. b \<notin> set (rl_blocks ?s xs) \<longrightarrow> dev' b = dev b" by (simp add: dev'_def write_seq_other)
  ultimately show ?thesis by blast
qed

section \<open>Filling a runlist\<close>

lemma rl_set_blocks_eq:
  assumes "no_errors io" "b < e"
  shows "rl_set_blocks io buf dev b e = (EOK, \<lambda>x. if b \<le> x \<and> x < e then buf else dev x)"
  using assms(2)
proof (induction "nat (e - b)" arbitrary: b dev rule: less_induct)
  case less
  show ?case
  proof (cases "b + 1 < e")
    case True
    have "rl_set_blocks io buf (dev(b := buf)) (b + 1) e =
        (EOK, \<lambda>x. if b + 1 \<le> x \<and> x < e then buf else (dev(b := buf)) x)"
      by (rule less.hyps) (use True in auto)
    moreover have "(\<lambda>x. if b + 1 \<le> x \<and> x < e then buf else (dev(b := buf)) x) =
        (\<lambda>x. if b \<le> x \<and> x < e then buf else dev x)"
      using True by (auto simp: fun_eq_iff)
    ultimately show ?thesis using assms(1) True by (subst rl_set_blocks.simps) (simp add: no_errors_def)
  next
    case False
    then have "dev(b := buf) = (\<lambda>x. if b \<le> x \<and> x < e then buf else dev x)"
      using less.prems by (auto simp: fun_eq_iff)
    then show ?thesis using assms(1) False by (subst rl_set_blocks.simps) (simp add: no_errors_def)
  qed
qed

text \<open>The blocks of the runs that have clusters.\<close>

definition real_blocks :: "nat \<Rightarrow> ntfs_rl_element list \<Rightarrow> int set" where
  "real_blocks s xs = set (rl_blocks s (filter (\<lambda>e. 0 \<le> lcn e) xs))"

lemma real_blocks_Cons:
  "real_blocks s (e # xs) =
     (if 0 \<le> lcn e then {lcn e * 2 ^ s..<(lcn e + rlen e) * 2 ^ s} else {}) \<union> real_blocks s xs"
  by (auto simp: real_blocks_def rl_blocks_def run_blocks_def)

lemma rl_set_runs_eq:
  assumes "no_errors io" "rl_chain v xs (vcn t)" "0 \<le> v" "rlen t = 0" "xs \<noteq> []"
    "\<forall>x \<in> set xs. 0 \<le> lcn x \<or> lcn x = LCN_HOLE \<or> lcn x = LCN_RL_NOT_MAPPED"
  shows "rl_set_runs io buf s dev (xs @ t # g) = Some (EOK, \<lambda>b. if b \<in> real_blocks s xs then buf else dev b)"
  using assms(2,3,5,6)
proof (induction xs arbitrary: v dev)
  case (Cons e xs)
  let ?dev = "\<lambda>b. if b \<in> real_blocks s [e] then buf else dev b"
  have lt: "lcn e * 2 ^ s < (lcn e + rlen e) * 2 ^ s" using Cons.prems(1) by simp
  have blocks: "(if lcn e < 0 then (EOK, dev) else rl_set_blocks io buf dev (lcn e * 2 ^ s) ((lcn e + rlen e) * 2 ^ s)) = (EOK, ?dev)"
    using rl_set_blocks_eq [OF assms(1) lt, of buf dev] by (auto simp: real_blocks_Cons) (auto simp: real_blocks_def rl_blocks_def)
  have step: "rl_set_runs io buf s dev ((e # xs) @ t # g) =
      (if xs = [] then Some (EOK, ?dev) else rl_set_runs io buf s ?dev (xs @ t # g))"
    using blocks Cons.prems assms(4) by (cases xs) (auto simp: Let_def)
  show ?case
  proof (cases "xs = []")
    case False
    have "rl_set_runs io buf s ?dev (xs @ t # g) = Some (EOK, \<lambda>b. if b \<in> real_blocks s xs then buf else ?dev b)"
      by (rule Cons.IH [of "v + rlen e"]) (use Cons.prems False in auto)
    moreover have "real_blocks s (e # xs) = real_blocks s [e] \<union> real_blocks s xs"
      unfolding real_blocks_Cons [of s e xs] real_blocks_Cons [of s e "[]"] by (auto simp: real_blocks_def rl_blocks_def)
    ultimately show ?thesis using step False by (auto simp: fun_eq_iff)
  qed (use step in simp)
qed simp

text \<open>
  \<open>ntfs_rl_set\<close> on a well-formed runlist, without i/o errors: every block of a run that has
  clusters is filled with the value, sparse and unmapped runs are skipped, and every other
  block of the device stays as it was.
\<close>

lemma ntfs_rl_set_correct:
  assumes "no_errors io" and "rl_chain 0 xs (vcn t)" and "rl_term t" and "xs \<noteq> []"
    and "\<forall>x \<in> set xs. 0 \<le> lcn x \<or> lcn x = LCN_HOLE \<or> lcn x = LCN_RL_NOT_MAPPED"
  shows "ntfs_rl_set io vol dev (xs @ t # g) val =
    Some (EOK, \<lambda>b. if b \<in> real_blocks (blk_shift vol) xs then replicate (v_sector_size vol) val else dev b)"
proof -
  obtain e ys where "xs = e # ys" "rlen e \<noteq> 0" using assms(2,4) by (cases xs) auto
  then show ?thesis using rl_set_runs_eq [OF assms(1,2) _ _ assms(4,5)] assms(3)
    by (simp add: ntfs_rl_set_def rl_term_def)
qed

end
