(* ===== verification/NTFS_Files.thy ===== *)
theory NTFS_Files
  imports NTFS_Lcnalloc_Owner NTFS_Runlist_IO
begin

text \<open>
  The data of the files of a volume: what the ownership of clusters means for the blocks that
  \<open>ntfs_rl_write\<close> writes and \<open>ntfs_rl_read\<close> reads through the runlists of files.
\<close>

section \<open>Blocks of clusters\<close>

lemma le_block: "a * 2 ^ s \<le> b \<longleftrightarrow> a \<le> b div 2 ^ s" for a b :: int
proof
  show "a \<le> b div 2 ^ s" if "a * 2 ^ s \<le> b" using zdiv_mono1 [OF that, of "2 ^ s"] by simp
  assume "a \<le> b div 2 ^ s"
  then have "a * 2 ^ s \<le> b div 2 ^ s * 2 ^ s" by (intro mult_right_mono) simp_all
  also have "\<dots> \<le> b" by (simp add: minus_mod_eq_div_mult [symmetric])
  finally show "a * 2 ^ s \<le> b" .
qed

lemma mem_run_blocks: "b \<in> set (run_blocks s e (vcn e)) \<longleftrightarrow> b div 2 ^ s \<in> {lcn e..<lcn e + rlen e}"
  using le_block [of "lcn e" s b] le_block [of "lcn e + rlen e" s b] by (auto simp: run_blocks_def)

lemma set_rl_blocks: "set (rl_blocks s xs) = {b. b div 2 ^ s \<in> run_clusters xs}"
  by (auto simp: rl_blocks_def run_clusters_def mem_run_blocks)

lemma card_blocks:
  assumes "finite C"
  shows "finite {b :: int. b div 2 ^ s \<in> C} \<and> card {b :: int. b div 2 ^ s \<in> C} = 2 ^ s * card C"
  using assms
proof (induction C)
  case (insert c C)
  have "b div 2 ^ s = c \<longleftrightarrow> b \<in> {c * 2 ^ s..<(c + 1) * 2 ^ s}" for b :: int
    using le_block [of c s b] le_block [of "c + 1" s b] by auto
  then have c: "{b :: int. b div 2 ^ s = c} = {c * 2 ^ s..<(c + 1) * 2 ^ s}" by blast
  have "{b :: int. b div 2 ^ s \<in> insert c C} = {b. b div 2 ^ s = c} \<union> {b. b div 2 ^ s \<in> C}" by blast
  moreover have "{b :: int. b div 2 ^ s = c} \<inter> {b. b div 2 ^ s \<in> C} = {}" using insert(2) by blast
  moreover have "finite {b :: int. b div 2 ^ s = c}" "card {b :: int. b div 2 ^ s = c} = 2 ^ s"
    unfolding c by (simp_all add: algebra_simps nat_power_eq)
  ultimately show ?case using insert(1,2,3) by (simp add: card_Un_disjoint)
qed simp

lemma length_rl_blocks: "rl_chain v xs w \<Longrightarrow> int (length (rl_blocks s xs)) = (w - v) * 2 ^ s"
proof (induction xs arbitrary: v)
  case (Cons e xs)
  then have "int (length (rl_blocks s xs)) = (w - (v + rlen e)) * 2 ^ s" "0 < rlen e" by (simp_all add: rl_simps)
  then show ?case by (simp add: rl_blocks_def run_blocks_def algebra_simps)
qed (simp add: rl_blocks_def)

lemma rl_blocks_distinct:
  assumes "rl_chain v xs w" "int (card (run_clusters xs)) = w - v"
  shows "distinct (rl_blocks s xs)"
proof (rule card_distinct)
  have "int (card (set (rl_blocks s xs))) = int (length (rl_blocks s xs))"
    using card_blocks [of "run_clusters xs" s] assms(2) unfolding set_rl_blocks length_rl_blocks [OF assms(1)] by simp
  then show "card (set (rl_blocks s xs)) = length (rl_blocks s xs)" by simp
qed

section \<open>Files as runlists\<close>

lemma file_runlist:
  assumes "file_ok nr (els r)" "vcn (hd (els r)) = 0"
  obtains xs t g where "rl r = xs @ t # g" "els r = xs @ [t]" "elements r \<noteq> 0" "rl_chain 0 xs (vcn t)" "rl_term t"
    "\<forall>x \<in> set xs. 0 \<le> lcn x" "run_clusters xs = file_clusters (els r)" "int (card (run_clusters xs)) = vcn t"
proof -
  obtain xs t where es: "els r = xs @ [t]" "rl_chain 0 xs (vcn t)" "rl_term t" "0 < vcn t"
      "\<forall>e \<in> set xs. 0 \<le> lcn e \<and> lcn e + rlen e \<le> nr"
    using file_split [OF assms(1)] assms(2) by metis
  have lcns: "\<forall>x \<in> set xs. 0 \<le> lcn x" using es(5) by blast
  note all = all_clusters [OF es(2,3) lcns]
  have clusters: "run_clusters xs = file_clusters (els r)"
    unfolding all(1) [symmetric] range_clusters_def all(2) file_clusters_def assms(2) by (simp add: es(1))
  have "card (file_clusters (els r)) = card {0..<vcn t}"
    unfolding file_clusters_def assms(2) using assms(1) unfolding file_ok_def assms(2) by (simp add: es(1) card_image)
  then have "int (card (run_clusters xs)) = vcn t" using es(4) by (simp add: clusters)
  moreover have "rl r = xs @ t # drop (elements r) (rl r)" using append_take_drop_id [of "elements r" "rl r"] es(1) by simp
  moreover have "elements r \<noteq> 0" using es(1) by (cases "elements r") auto
  ultimately show thesis using that es lcns clusters by blast
qed

section \<open>What a read depends on\<close>

lemma rl_read_blocks_cong:
  assumes "\<And>b. block \<le> b \<Longrightarrow> b < max_block \<Longrightarrow> dev' b = dev b" "block < max_block"
  shows "rl_read_blocks io dev' bs dst_end mem dst block max_block = rl_read_blocks io dev bs dst_end mem dst block max_block"
  using assms
proof (induction io dev bs dst_end mem dst block max_block rule: rl_read_blocks.induct)
  case (1 io dev bs dst_end mem dst block max_block)
  have "dev' block = dev block" using 1(2,3) by simp
  then show ?case
    unfolding rl_read_blocks.simps [of io dev' bs dst_end mem] rl_read_blocks.simps [of io dev bs dst_end mem] Let_def
    using 1(2) by (intro if_cong refl Option.bind_cong 1(1)) (simp_all add: Let_def split: if_splits)
qed

lemma rl_read_runs_cong:
  assumes "\<And>b. b \<in> set (rl_blocks s xs) \<Longrightarrow> dev' b = dev b" "\<forall>x \<in> set xs. 0 < rlen x" "rlen t = 0"
  shows "rl_read_runs io dev' bs s dst_end (xs @ t # g) mem dst = rl_read_runs io dev bs s dst_end (xs @ t # g) mem dst"
  using assms(1,2)
proof (induction xs arbitrary: mem dst)
  case (Cons e xs)
  have IH: "rl_read_runs io dev' bs s dst_end (xs @ t # g) mem dst = rl_read_runs io dev bs s dst_end (xs @ t # g) mem dst" for mem dst
    using Cons.IH Cons.prems by (simp add: rl_blocks_def)
  have "rl_read_blocks io dev' bs dst_end mem dst (lcn e * 2 ^ s) (lcn e * 2 ^ s + rlen e * 2 ^ s) =
      rl_read_blocks io dev bs dst_end mem dst (lcn e * 2 ^ s) (lcn e * 2 ^ s + rlen e * 2 ^ s)"
    using Cons.prems by (intro rl_read_blocks_cong) (auto simp: rl_blocks_def run_blocks_def algebra_simps)
  then show ?case by (auto simp: IH Let_def split: sum.split intro!: Option.bind_cong)
qed (use assms(3) in simp)

lemma rl_read_cong:
  assumes "rl r = xs @ t # g" "rlen t = 0" "\<forall>x \<in> set xs. 0 < rlen x"
    "\<And>b. b \<in> set (rl_blocks (blk_shift vol) xs) \<Longrightarrow> dev' b = dev b"
  shows "ntfs_rl_read io vol dev' r out len init = ntfs_rl_read io vol dev r out len init"
  by (simp add: ntfs_rl_read_def Let_def assms(1) rl_read_runs_cong [OF assms(4,3,2)])

end
