(* ===== verification/NTFS_Boot.thy ===== *)
theory NTFS_Boot
  imports NTFS_Runlist_IO
begin

unbundle bit_operations_syntax

text \<open>
  Reading and interpreting the boot sector at mount time, \<open>kext/ntfs_vfsops.c\<close>:
  \<open>ntfs_boot_sector_read\<close> with its recovery from the backup boot sectors,
  \<open>ntfs_boot_sector_is_valid\<close> and \<open>ntfs_boot_sector_parse\<close>.

  The boot sector is untrusted data. Its fields are read from the bytes of the sector as the
  packed structure has them; numbers keep the width of their fields. The checksum and the end
  marker only lead to warnings and do not appear.
\<close>

section \<open>The boot sector\<close>

text \<open>The fields of \<open>NTFS_BOOT_SECTOR\<close> that the code looks at.\<close>

record ntfs_boot_sector =
  oem_id :: int
  bytes_per_sector :: nat
  sectors_per_cluster :: nat
  reserved_sectors :: nat
  fats :: nat
  root_entries :: nat
  bpb_sectors :: nat
  sectors_per_fat :: nat
  large_sectors :: nat
  number_of_sectors :: int
  bs_mft_lcn :: int
  bs_mftmirr_lcn :: int
  clusters_per_mft_record :: int
  clusters_per_index_block :: int
  volume_serial_number :: nat

definition boot_sector_at :: "u8 list \<Rightarrow> ntfs_boot_sector option" where
  "boot_sector_at b = do {
     oem \<leftarrow> rd64 b 3;
     bps \<leftarrow> rd16 b 11;
     spc \<leftarrow> rd b 13;
     res \<leftarrow> rd16 b 14;
     fat \<leftarrow> rd b 16;
     root \<leftarrow> rd16 b 17;
     sec \<leftarrow> rd16 b 19;
     spf \<leftarrow> rd16 b 22;
     large \<leftarrow> rd32 b 32;
     nsec \<leftarrow> rd64 b 40;
     mft \<leftarrow> rd64 b 48;
     mirr \<leftarrow> rd64 b 56;
     cpm \<leftarrow> rd b 64;
     cpi \<leftarrow> rd b 68;
     slo \<leftarrow> rd32 b 72;
     shi \<leftarrow> rd32 b 76;
     Some \<lparr>oem_id = oem, bytes_per_sector = bps, sectors_per_cluster = unat spc, reserved_sectors = res,
       fats = unat fat, root_entries = root, bpb_sectors = sec, sectors_per_fat = spf, large_sectors = large,
       number_of_sectors = nsec, bs_mft_lcn = mft, bs_mftmirr_lcn = mirr,
       clusters_per_mft_record = s8 (uint cpm), clusters_per_index_block = s8 (uint cpi),
       volume_serial_number = slo + 4294967296 * shi\<rparr> }"

definition NTFS_MAX_SECTOR_SIZE :: nat where "NTFS_MAX_SECTOR_SIZE = 4096"

definition NTFS_MAX_CLUSTER_SIZE :: nat where "NTFS_MAX_CLUSTER_SIZE = 65536"

text \<open>A size given as a number of clusters, or from -31 to -9 as a negated logarithm.\<close>

definition record_clusters_valid :: "int \<Rightarrow> bool" where
  "record_clusters_valid c \<longleftrightarrow> \<not> (c mod 256 < 0xe1 \<or> 0xf7 < c mod 256) \<or> c \<in> {1, 2, 4, 8, 16, 32, 64}"

definition ntfs_boot_sector_is_valid :: "ntfs_boot_sector \<Rightarrow> bool" where
  "ntfs_boot_sector_is_valid b \<longleftrightarrow>
     oem_id b = 0x202020205346544e \<and>
     \<not> (bytes_per_sector b < 0x100 \<or> NTFS_MAX_SECTOR_SIZE < bytes_per_sector b) \<and>
     sectors_per_cluster b \<in> {1, 2, 4, 8, 16, 32, 64, 128} \<and>
     \<not> NTFS_MAX_CLUSTER_SIZE < bytes_per_sector b * sectors_per_cluster b \<and>
     \<not> (reserved_sectors b \<noteq> 0 \<or> root_entries b \<noteq> 0 \<or> bpb_sectors b \<noteq> 0 \<or> sectors_per_fat b \<noteq> 0 \<or>
        large_sectors b \<noteq> 0 \<or> fats b \<noteq> 0) \<and>
     record_clusters_valid (clusters_per_mft_record b) \<and>
     record_clusters_valid (clusters_per_index_block b)"

section \<open>Reading it\<close>

text \<open>
  Reading and mapping the block with a boot sector: an error, or the sector and whether it is valid.
\<close>

definition read_boot_block :: "blk_io \<Rightarrow> device \<Rightarrow> int \<Rightarrow> (errno + u8 list \<times> bool) option" where
  "read_boot_block io dev n =
     (if bread_err io n \<noteq> EOK then Some (Inl (bread_err io n))
      else if bmap_err io n \<noteq> EOK then Some (Inl (bmap_err io n))
      else do { b \<leftarrow> boot_sector_at (dev n); Some (Inr (dev n, ntfs_boot_sector_is_valid b)) })"

text \<open>
  The label \<open>hotfix_primary_boot_sector\<close>: the backup replaces a primary boot sector that could be
  read. An error of the write is only logged.
\<close>

definition hotfix_primary :: "blk_io \<Rightarrow> bool \<Rightarrow> bool \<Rightarrow> device \<Rightarrow> u8 list \<Rightarrow> device" where
  "hotfix_primary io read_only mapped dev bs =
     (if mapped \<and> \<not> read_only \<and> bwrite_err io 0 = EOK then dev(0 := bs) else dev)"

text \<open>
  The boot sector that is found, or the error, and the device. The buffer of the primary boot sector
  is held while the backups are read, so that asking for block 0 again would wait for it forever.
\<close>

definition ntfs_boot_sector_read ::
  "blk_io \<Rightarrow> bool \<Rightarrow> bool \<Rightarrow> int \<Rightarrow> device \<Rightarrow> ((errno + u8 list) \<times> device) option" where
  "ntfs_boot_sector_read io recover read_only nr_blocks dev = do {
     p \<leftarrow> read_boot_block io dev 0;
     case p of
       Inr (bs1, True) \<Rightarrow> Some (Inr bs1, dev)
     | _ \<Rightarrow> do {
         let err = (case p of Inl e \<Rightarrow> e | Inr _ \<Rightarrow> EIO);
         let mapped = (case p of Inl _ \<Rightarrow> False | Inr _ \<Rightarrow> True);
         if \<not> recover then Some (Inl err, dev)
         else if nr_blocks - 1 = 0 then None
         else do {
           q \<leftarrow> read_boot_block io dev (nr_blocks - 1);
           case q of
             Inr (bs2, True) \<Rightarrow> Some (Inr bs2, hotfix_primary io read_only mapped dev bs2)
           | _ \<Rightarrow>
               if nr_blocks div 2 = 0 then None
               else do {
                 q \<leftarrow> read_boot_block io dev (nr_blocks div 2);
                 case q of
                   Inr (bs2, True) \<Rightarrow> Some (Inr bs2, hotfix_primary io read_only mapped dev bs2)
                 | Inr (bs2, False) \<Rightarrow> Some (Inl EIO, dev)
                 | Inl err \<Rightarrow> Some (Inl err, dev) } } } }"

section \<open>The geometry of the volume\<close>

text \<open>\<open>ffs\<close> of the standard library: the position of the lowest bit that is set, from 1 on.\<close>

fun ffs :: "nat \<Rightarrow> nat" where
  "ffs n = (if n = 0 then 0 else if odd n then 1 else Suc (ffs (n div 2)))"

declare ffs.simps [simp del]

text \<open>The base 2 logarithm of a power of two as the code computes it, \<open>ffs (n) - 1\<close> in a byte.\<close>

definition ffs_shift :: "nat \<Rightarrow> nat" where
  "ffs_shift n = (ffs n + 255) mod 256"

record ntfs_geometry =
  sector_size :: nat
  sector_size_mask :: nat
  sector_size_shift :: nat
  cluster_size :: nat
  cluster_size_mask :: nat
  cluster_size_shift :: nat
  mft_record_size :: nat
  mft_record_size_mask :: nat
  mft_record_size_shift :: nat
  mft_records_per_sector_mask :: nat
  index_block_size :: nat
  index_block_size_mask :: nat
  index_block_size_shift :: nat
  blocks_per_index_block :: nat
  geo_nr_clusters :: int
  geo_mft_lcn :: int
  geo_mftmirr_lcn :: int
  mftmirr_size :: nat
  serial_no :: nat

text \<open>
  The size of an mft record or index block. The shift is one of an \<open>int\<close>, without a value from 32
  on; the sign bit becomes part of the unsigned size.
\<close>

definition record_size :: "nat \<Rightarrow> int \<Rightarrow> nat option" where
  "record_size csize c =
     (if 0 < c then Some (uwrap (csize * nat c))
      else if 32 \<le> - c then None
      else Some (uwrap (2 ^ nat (- c))))"

text \<open>A shift by a negative distance has no value either.\<close>

definition records_per_sector_mask :: "nat \<Rightarrow> nat \<Rightarrow> nat \<Rightarrow> nat \<Rightarrow> nat option" where
  "records_per_sector_mask ssize sshift msize mshift =
     (if ssize \<le> msize then Some 0
      else if sshift < mshift then None
      else Some (2 ^ (sshift - mshift) - 1))"

text \<open>
  \<open>dev_block_size\<close> is \<open>vfs_devblocksize\<close>. The result is the error or the fields of the volume, of which
  the caller does not use any after an error. Without sectors or clusters there is a division by
  zero or a shift by -1. The check for mft records below the sector size is not compiled, since
  \<open>ntfs.h\<close> sets \<open>NTFS_SUB_SECTOR_MFT_RECORD_SIZE_RW\<close>.
\<close>

definition ntfs_boot_sector_parse ::
  "nat \<Rightarrow> nat \<Rightarrow> ntfs_boot_sector \<Rightarrow> (errno + ntfs_geometry) option" where
  "ntfs_boot_sector_parse page_size dev_block_size b = do {
     let ssize = bytes_per_sector b;
     let sshift = ffs_shift ssize;
     if ssize < dev_block_size then Some (Inl ENOTSUP)
     else if ssize = 0 \<or> sectors_per_cluster b = 0 then None
     else do {
       let spc_shift = ffs (sectors_per_cluster b) - 1;
       let csize = uwrap (ssize * 2 ^ spc_shift);
       if csize < ssize then Some (Inl ENOTSUP)
       else do {
         msize \<leftarrow> record_size csize (clusters_per_mft_record b);
         let mshift = ffs_shift msize;
         rmask \<leftarrow> records_per_sector_mask ssize sshift msize mshift;
         if page_size < msize then Some (Inl ENOTSUP)
         else do {
           isize \<leftarrow> record_size csize (clusters_per_index_block b);
           let blocks = (if 0 < clusters_per_index_block b then nat (clusters_per_index_block b) else isize div ssize);
           if isize < ssize then Some (Inl ENOTSUP)
           else do {
             let nr = number_of_sectors b div 2 ^ spc_shift;
             if nr < 0 \<or> 2 ^ 32 \<le> nr then Some (Inl EINVAL)
             else if nr \<le> bs_mft_lcn b then Some (Inl EINVAL)
             else if nr \<le> bs_mftmirr_lcn b then Some (Inl EINVAL)
             else Some (Inr \<lparr>sector_size = ssize, sector_size_mask = usub ssize 1, sector_size_shift = sshift,
               cluster_size = csize, cluster_size_mask = usub csize 1, cluster_size_shift = ffs_shift csize,
               mft_record_size = msize, mft_record_size_mask = usub msize 1, mft_record_size_shift = mshift,
               mft_records_per_sector_mask = rmask,
               index_block_size = isize, index_block_size_mask = usub isize 1, index_block_size_shift = ffs_shift isize,
               blocks_per_index_block = blocks mod 256,
               geo_nr_clusters = nr, geo_mft_lcn = bs_mft_lcn b, geo_mftmirr_lcn = bs_mftmirr_lcn b,
               mftmirr_size = 4, serial_no = volume_serial_number b\<rparr>) } } } } }"


section \<open>Powers of two\<close>

lemma ffs_power [simp]: "ffs (2 ^ k) = Suc k"
proof (induction k)
  case 0
  then show ?case by (simp add: ffs.simps)
next
  case (Suc k)
  then show ?case by (simp add: ffs.simps [of "2 * 2 ^ k"])
qed

lemma ffs_shift_power [simp]: "k < 256 \<Longrightarrow> ffs_shift (2 ^ k) = k"
  by (simp add: ffs_shift_def)

lemma usub_power: "k < 32 \<Longrightarrow> usub (2 ^ k) (Suc 0) = 2 ^ k - Suc 0"
  using power_strict_increasing [of k 32 "2 :: nat"] by (intro usub_le) simp_all

lemma uwrap_power: "k < 32 \<Longrightarrow> uwrap (2 ^ k) = 2 ^ k"
  using power_strict_increasing [of k 32 "2 :: nat"] by simp

lemma few_powers: "c \<in> {1, 2, 4, 8, 16, 32, 64 :: int} \<Longrightarrow> \<exists>i \<le> 6. c = 2 ^ i"
  by (elim insertE emptyE) (rule exI [of _ 0] exI [of _ 1] exI [of _ 2] exI [of _ 3] exI [of _ 4] exI [of _ 5] exI [of _ 6]; simp; fail)+

lemma spc_power: "c \<in> {1, 2, 4, 8, 16, 32, 64, 128 :: nat} \<Longrightarrow> \<exists>i \<le> 7. c = 2 ^ i"
  by (elim insertE emptyE) (rule exI [of _ 0] exI [of _ 1] exI [of _ 2] exI [of _ 3] exI [of _ 4] exI [of _ 5] exI [of _ 6] exI [of _ 7]; simp; fail)+

lemma record_size_power:
  assumes "record_clusters_valid c" "- 128 \<le> c" "c < 128" "8 \<le> n" "n \<le> 16"
  obtains i where "record_size (2 ^ n) c = Some (2 ^ i)" "8 \<le> i" "i < 32"
proof (cases "c \<in> {1, 2, 4, 8, 16, 32, 64}")
  case True
  then obtain i where i: "i \<le> 6" "c = 2 ^ i" using few_powers by blast
  then have "record_size (2 ^ n) c = Some (2 ^ (n + i))"
    using assms(5) by (simp add: record_size_def nat_power_eq power_add [symmetric] uwrap_power)
  then show thesis using that assms(4,5) i(1) by simp
next
  case False
  then have m: "0xe1 \<le> c mod 256" "c mod 256 \<le> 0xf7" using assms(1) by (auto simp: record_clusters_valid_def)
  have "c < 0" using m(1) assms(3) by (cases "c < 0") simp_all
  then have "c mod 256 = c + 256" using assms(2) by (intro mod_pos_pos_trivial [of "c + 256" 256, simplified]) simp_all
  then have "- 31 \<le> c" "c \<le> - 9" using m by simp_all
  then show thesis using that [of "nat (- c)"] by (simp add: record_size_def uwrap_power)
qed

section \<open>A volume that can be used\<close>

definition geometry_ok :: "nat \<Rightarrow> nat \<Rightarrow> ntfs_geometry \<Rightarrow> bool" where
  "geometry_ok page_size dev_block_size g \<longleftrightarrow>
     sector_size g = 2 ^ sector_size_shift g \<and> 256 \<le> sector_size g \<and> sector_size g \<le> 4096 \<and> dev_block_size \<le> sector_size g \<and>
     cluster_size g = 2 ^ cluster_size_shift g \<and> sector_size_shift g \<le> cluster_size_shift g \<and> cluster_size g \<le> 65536 \<and>
     mft_record_size g = 2 ^ mft_record_size_shift g \<and> 256 \<le> mft_record_size g \<and> mft_record_size g \<le> page_size \<and>
     (if sector_size g \<le> mft_record_size g then mft_records_per_sector_mask g = 0
      else (mft_records_per_sector_mask g + 1) * mft_record_size g = sector_size g) \<and>
     index_block_size g = 2 ^ index_block_size_shift g \<and> sector_size g \<le> index_block_size g \<and>
     sector_size_mask g = sector_size g - 1 \<and> cluster_size_mask g = cluster_size g - 1 \<and>
     mft_record_size_mask g = mft_record_size g - 1 \<and> index_block_size_mask g = index_block_size g - 1 \<and>
     0 \<le> geo_nr_clusters g \<and> geo_nr_clusters g < 2 ^ 32 \<and> geo_mft_lcn g < geo_nr_clusters g \<and> geo_mftmirr_lcn g < geo_nr_clusters g"

lemma s8_range: "- 128 \<le> s8 x \<and> s8 x < 128"
  using signed_take_bit_int_greater_eq_minus_exp [of 7 x] signed_take_bit_int_less_exp [of 7 x] by (simp add: s8_def)

lemma boot_sector_at_s8:
  assumes "boot_sector_at bytes = Some b"
  shows "- 128 \<le> clusters_per_mft_record b" "clusters_per_mft_record b < 128"
    "- 128 \<le> clusters_per_index_block b" "clusters_per_index_block b < 128"
proof -
  have "\<exists>x y. clusters_per_mft_record b = s8 x \<and> clusters_per_index_block b = s8 y"
    using assms unfolding boot_sector_at_def Option.bind_eq_Some_conv option.inject by (elim exE conjE) force
  then show "- 128 \<le> clusters_per_mft_record b" "clusters_per_mft_record b < 128"
    "- 128 \<le> clusters_per_index_block b" "clusters_per_index_block b < 128"
    using s8_range by auto
qed

lemma parse_geometry:
  assumes "ntfs_boot_sector_is_valid b" "bytes_per_sector b = 2 ^ k"
    "- 128 \<le> clusters_per_mft_record b" "clusters_per_mft_record b < 128"
    "- 128 \<le> clusters_per_index_block b" "clusters_per_index_block b < 128"
  shows "\<exists>r. ntfs_boot_sector_parse page_size dev_block_size b = Some r \<and>
    (case r of Inl err \<Rightarrow> err = ENOTSUP \<or> err = EINVAL
     | Inr g \<Rightarrow> geometry_ok page_size dev_block_size g \<and>
         geo_nr_clusters g = number_of_sectors b div int (sectors_per_cluster b) \<and> geo_mft_lcn g = bs_mft_lcn b)"
proof -
  have v: "256 \<le> (2 :: nat) ^ k" "(2 :: nat) ^ k \<le> 4096" "sectors_per_cluster b \<in> {1, 2, 4, 8, 16, 32, 64, 128}"
      "2 ^ k * sectors_per_cluster b \<le> 65536" "record_clusters_valid (clusters_per_mft_record b)"
      "record_clusters_valid (clusters_per_index_block b)"
    using assms(1,2) by (auto simp: ntfs_boot_sector_is_valid_def NTFS_MAX_SECTOR_SIZE_def NTFS_MAX_CLUSTER_SIZE_def)
  obtain j where j: "j \<le> 7" "sectors_per_cluster b = 2 ^ j" using spc_power [OF v(3)] by blast
  have k: "8 \<le> k" "k \<le> 12" "k + j \<le> 16"
    using v(1,2,4) power_le_imp_le_exp [of "2 :: nat" 8 k] power_le_imp_le_exp [of "2 :: nat" k 12]
      power_le_imp_le_exp [of "2 :: nat" "k + j" 16] by (simp_all add: j(2) power_add)
  obtain m where m: "record_size (2 ^ (k + j)) (clusters_per_mft_record b) = Some (2 ^ m)" "8 \<le> m" "m < 32"
    using record_size_power [OF v(5) assms(3,4), of "k + j"] k by auto
  obtain i where i: "record_size (2 ^ (k + j)) (clusters_per_index_block b) = Some (2 ^ i)" "8 \<le> i" "i < 32"
    using record_size_power [OF v(6) assms(5,6), of "k + j"] k by auto
  have csize: "uwrap (2 ^ k * 2 ^ j) = 2 ^ (k + j)" using k by (simp add: power_add [symmetric] uwrap_power)
  have mask: "records_per_sector_mask (2 ^ k) k (2 ^ m) m = Some (if k \<le> m then 0 else 2 ^ (k - m) - 1)"
    by (simp add: records_per_sector_mask_def)
  have sizes: "256 \<le> (2 :: nat) ^ m" "(2 :: nat) ^ (k + j) \<le> 65536"
    using m(2) k(3) power_increasing [of 8 m "2 :: nat"] power_increasing [of "k + j" 16 "2 :: nat"] by simp_all
  show ?thesis
    using v(1,2) sizes k m(2,3) i(2,3)
    by (simp add: ntfs_boot_sector_parse_def Let_def assms(2) j(2) csize m(1) i(1) mask usub_power geometry_ok_def power_add [symmetric])
qed

text \<open>
  C27. The geometry of a volume. Whatever a valid boot sector with a power of two as sector size
  contains, it is either refused with one of the documented errors or gives a geometry the rest of
  the code can rely on: all sizes are powers of two with the right logarithms and masks, sectors fit
  into clusters and index blocks, mft records into pages, there are fewer than \<open>2 ^ 32\<close> clusters, and
  the cluster numbers of the mft and its mirror are below the number of clusters. They may be negative
  (\<open>negative_mft_lcn_accepted\<close>), and an mft record may be smaller than a sector.
\<close>

theorem boot_sector_parse_well_formed:
  assumes "boot_sector_at bytes = Some b" "ntfs_boot_sector_is_valid b" "bytes_per_sector b = 2 ^ k"
  shows "\<exists>r. ntfs_boot_sector_parse page_size dev_block_size b = Some r \<and>
    (case r of Inl err \<Rightarrow> err = ENOTSUP \<or> err = EINVAL
     | Inr g \<Rightarrow> geometry_ok page_size dev_block_size g \<and>
         geo_nr_clusters g = number_of_sectors b div int (sectors_per_cluster b) \<and> geo_mft_lcn g = bs_mft_lcn b)"
  by (rule parse_geometry [OF assms(2,3) boot_sector_at_s8 [OF assms(1)]])

text \<open>The boot sector of a volume with 4096 sectors of 512 bytes, 8 to a cluster, with the mft at cluster 4.\<close>

definition small_boot :: "u8 list" where
  "small_boot =
     [0, 0, 0, 0x4e, 0x54, 0x46, 0x53, 0x20, 0x20, 0x20, 0x20, 0, 2, 8, 0, 0,
      0, 0, 0, 0, 0, 0, 0, 0, 0, 0, 0, 0, 0, 0, 0, 0,
      0, 0, 0, 0, 0, 0, 0, 0, 0, 0x10, 0, 0, 0, 0, 0, 0,
      4, 0, 0, 0, 0, 0, 0, 0, 2, 0, 0, 0, 0, 0, 0, 0,
      0xf6, 0, 0, 0, 1, 0, 0, 0, 0, 0, 0, 0, 0, 0, 0, 0] @ replicate 432 0"

definition small_bs :: ntfs_boot_sector where
  "small_bs = \<lparr>oem_id = 0x202020205346544e, bytes_per_sector = 512, sectors_per_cluster = 8, reserved_sectors = 0,
     fats = 0, root_entries = 0, bpb_sectors = 0, sectors_per_fat = 0, large_sectors = 0,
     number_of_sectors = 4096, bs_mft_lcn = 4, bs_mftmirr_lcn = 2,
     clusters_per_mft_record = - 10, clusters_per_index_block = 1, volume_serial_number = 0\<rparr>"

lemma small_boot_at: "boot_sector_at small_boot = Some small_bs"
proof -
  have s8: "s8 0xf6 = - 10" "s8 1 = 1" by code_simp+
  show ?thesis
    by (simp add: boot_sector_at_def rd16_def rd32_def rd64_def rd_def small_boot_def small_bs_def nth_append s8)
qed

lemma small_bs_valid: "ntfs_boot_sector_is_valid small_bs"
  by (simp add: ntfs_boot_sector_is_valid_def small_bs_def record_clusters_valid_def NTFS_MAX_SECTOR_SIZE_def NTFS_MAX_CLUSTER_SIZE_def)

lemma small_bs_parse:
  "\<exists>g. ntfs_boot_sector_parse 4096 512 small_bs = Some (Inr g) \<and> geo_nr_clusters g = 512 \<and> geo_mft_lcn g = 4 \<and> cluster_size g = 4096"
  using ffs_power [of 9] ffs_power [of 3] ffs_power [of 10] ffs_power [of 12]
  by (simp add: ntfs_boot_sector_parse_def small_bs_def record_size_def records_per_sector_mask_def uwrap_def ffs_shift_def)

theorem boot_sector_parse_well_formed_witness:
  "\<exists>g. ntfs_boot_sector_parse 4096 512 small_bs = Some (Inr g) \<and> geometry_ok 4096 512 g \<and> geo_nr_clusters g = 512"
proof -
  obtain g where g: "ntfs_boot_sector_parse 4096 512 small_bs = Some (Inr g)" "geo_nr_clusters g = 512"
    using small_bs_parse by blast
  then show ?thesis
    using boot_sector_parse_well_formed [OF small_boot_at small_bs_valid, of 9 4096 512, unfolded g(1)]
    by (simp add: small_bs_def)
qed

text \<open>
  A sector size that is not a power of two is valid as well. With sectors of 768 bytes and mft records
  of 512 the code shifts by -1.
\<close>

lemma odd_sector_size_undefined:
  "ntfs_boot_sector_is_valid (small_bs\<lparr>bytes_per_sector := 768, clusters_per_mft_record := - 9\<rparr>) \<and>
   ntfs_boot_sector_parse 4096 512 (small_bs\<lparr>bytes_per_sector := 768, clusters_per_mft_record := - 9\<rparr>) = None"
proof -
  have "ffs 768 = 9" by (simp add: ffs.simps [of 768] ffs.simps [of 384] ffs.simps [of 192] ffs.simps [of 96] ffs.simps [of 48]
      ffs.simps [of 24] ffs.simps [of 12] ffs.simps [of 6] ffs.simps [of 3])
  then show ?thesis
    using ffs_power [of 9] ffs_power [of 3]
    by (simp add: ntfs_boot_sector_is_valid_def record_clusters_valid_def NTFS_MAX_SECTOR_SIZE_def NTFS_MAX_CLUSTER_SIZE_def
        ntfs_boot_sector_parse_def small_bs_def record_size_def records_per_sector_mask_def uwrap_def ffs_shift_def)
qed

text \<open>A negative cluster number of the mft is not refused either.\<close>

lemma negative_mft_lcn_accepted:
  assumes "ntfs_boot_sector_parse page_size dev_block_size b = Some (Inr g)" "m < 0"
  shows "ntfs_boot_sector_parse page_size dev_block_size (b\<lparr>bs_mft_lcn := m\<rparr>) = Some (Inr (g\<lparr>geo_mft_lcn := m\<rparr>))"
proof -
  let ?c = "uwrap (bytes_per_sector b * 2 ^ (ffs (sectors_per_cluster b) - 1))"
  obtain y ya yb where "record_size ?c (clusters_per_mft_record b) = Some y"
      "records_per_sector_mask (bytes_per_sector b) (ffs_shift (bytes_per_sector b)) y (ffs_shift y) = Some ya"
      "record_size ?c (clusters_per_index_block b) = Some yb"
    using assms(1) unfolding ntfs_boot_sector_parse_def Let_def by (auto simp: bind_eq_Some_conv split: if_splits)
  then show ?thesis using assms unfolding ntfs_boot_sector_parse_def Let_def by (auto split: if_split_asm)
qed

section \<open>The backup boot sectors\<close>

definition boot_block_valid :: "u8 list \<Rightarrow> bool" where
  "boot_block_valid bs = (case boot_sector_at bs of None \<Rightarrow> False | Some b \<Rightarrow> ntfs_boot_sector_is_valid b)"

lemma boot_sector_at_Some: "80 \<le> length bs \<Longrightarrow> \<exists>b. boot_sector_at bs = Some b"
  by (simp add: boot_sector_at_def rd16_def rd32_def rd64_def rd_def)

definition boot_block :: "blk_io \<Rightarrow> device \<Rightarrow> int \<Rightarrow> errno + u8 list \<times> bool" where
  "boot_block io dev n =
     (if bread_err io n \<noteq> EOK then Inl (bread_err io n)
      else if bmap_err io n \<noteq> EOK then Inl (bmap_err io n)
      else Inr (dev n, boot_block_valid (dev n)))"

lemma read_boot_block_eq: "80 \<le> length (dev n) \<Longrightarrow> read_boot_block io dev n = Some (boot_block io dev n)"
  using boot_sector_at_Some [of "dev n"] by (auto simp: read_boot_block_def boot_block_def boot_block_valid_def)

text \<open>Where the boot sector comes from, when the primary one is not used, and how the device is repaired.\<close>

definition read_backup :: "blk_io \<Rightarrow> bool \<Rightarrow> int \<Rightarrow> device \<Rightarrow> bool \<Rightarrow> (errno + u8 list) \<times> device" where
  "read_backup io read_only nr_blocks dev mapped =
     (case boot_block io dev (nr_blocks - 1) of
        Inr (bs2, True) \<Rightarrow> (Inr bs2, hotfix_primary io read_only mapped dev bs2)
      | _ \<Rightarrow>
          (case boot_block io dev (nr_blocks div 2) of
             Inr (bs2, True) \<Rightarrow> (Inr bs2, hotfix_primary io read_only mapped dev bs2)
           | Inr (bs2, False) \<Rightarrow> (Inl EIO, dev)
           | Inl err \<Rightarrow> (Inl err, dev)))"

lemma boot_sector_read_eq:
  assumes "\<forall>n. 80 \<le> length (dev n)" "1 < nr_blocks"
  shows "ntfs_boot_sector_read io recover read_only nr_blocks dev = Some
    (case boot_block io dev 0 of
       Inr (bs1, True) \<Rightarrow> (Inr bs1, dev)
     | Inr (bs1, False) \<Rightarrow> if recover then read_backup io read_only nr_blocks dev True else (Inl EIO, dev)
     | Inl err \<Rightarrow> if recover then read_backup io read_only nr_blocks dev False else (Inl err, dev))"
proof -
  have n: "nr_blocks \<noteq> 1" "nr_blocks div 2 \<noteq> 0" using assms(2) by auto
  have q: "read_boot_block io dev k = Some (boot_block io dev k)" for k using assms(1) by (intro read_boot_block_eq) simp
  show ?thesis
    unfolding ntfs_boot_sector_read_def q read_backup_def Option.bind.simps Let_def
    by (simp add: n split: sum.split prod.split bool.split)
qed

definition boot_readable :: "blk_io \<Rightarrow> int \<Rightarrow> bool" where
  "boot_readable io n \<longleftrightarrow> bread_err io n = EOK \<and> bmap_err io n = EOK"

definition boot_usable :: "blk_io \<Rightarrow> device \<Rightarrow> int \<Rightarrow> bool" where
  "boot_usable io dev n \<longleftrightarrow> boot_readable io n \<and> boot_block_valid (dev n)"

lemma boot_block_usable:
  "boot_usable io dev n \<Longrightarrow> boot_block io dev n = Inr (dev n, True)"
  "\<not> boot_usable io dev n \<Longrightarrow> boot_readable io n \<Longrightarrow> boot_block io dev n = Inr (dev n, False)"
  "\<not> boot_readable io n \<Longrightarrow> \<exists>err. err \<noteq> EOK \<and> boot_block io dev n = Inl err"
  by (auto simp: boot_block_def boot_usable_def boot_readable_def)

lemma read_backup_usable:
  "boot_usable io dev (nr_blocks - 1) \<Longrightarrow>
    read_backup io read_only nr_blocks dev mapped = (Inr (dev (nr_blocks - 1)), hotfix_primary io read_only mapped dev (dev (nr_blocks - 1)))"
  "\<not> boot_usable io dev (nr_blocks - 1) \<Longrightarrow> boot_usable io dev (nr_blocks div 2) \<Longrightarrow>
    read_backup io read_only nr_blocks dev mapped = (Inr (dev (nr_blocks div 2)), hotfix_primary io read_only mapped dev (dev (nr_blocks div 2)))"
  "\<not> boot_usable io dev (nr_blocks - 1) \<Longrightarrow> \<not> boot_usable io dev (nr_blocks div 2) \<Longrightarrow>
    \<exists>err. err \<noteq> EOK \<and> read_backup io read_only nr_blocks dev mapped = (Inl err, dev)"
  using boot_block_usable [where io = io and dev = dev and n = "nr_blocks - 1"]
    boot_block_usable [where io = io and dev = dev and n = "nr_blocks div 2"]
  by (cases "boot_readable io (nr_blocks - 1)"; cases "boot_readable io (nr_blocks div 2)"; auto simp: read_backup_def)+

text \<open>
  C28. Reading the boot sector. On a device of more than one block it always comes back, whatever
  reads and writes fail. The result is the first usable boot sector, one that can be read and is valid,
  of the primary place and, with \<open>errors=recover\<close> only, the last block and the block in the middle; there
  is an error exactly if none of these is usable. A primary boot sector is overwritten only with the
  backup that is returned, if it could be read but is not valid, the volume is writable and the write succeeds.
  If no read or write fails and the volume is writable, the next mount finds the boot sector in the primary place,
  also without \<open>errors=recover\<close>.
\<close>

theorem boot_sector_read_recovers:
  assumes "\<forall>n. 80 \<le> length (dev n)" "1 < nr_blocks"
  shows "\<exists>r dev'. ntfs_boot_sector_read io recover read_only nr_blocks dev = Some (r, dev') \<and>
    (case find (boot_usable io dev) (if recover then [0, nr_blocks - 1, nr_blocks div 2] else [0]) of
       Some n \<Rightarrow> r = Inr (dev n) \<and>
         dev' = (if n \<noteq> 0 \<and> boot_readable io 0 \<and> \<not> read_only \<and> bwrite_err io 0 = EOK then dev(0 := dev n) else dev)
     | None \<Rightarrow> (\<exists>err. err \<noteq> EOK \<and> r = Inl err) \<and> dev' = dev) \<and>
    (\<forall>bs. r = Inr bs \<longrightarrow> boot_block_valid bs \<and>
       (no_errors io \<and> \<not> read_only \<longrightarrow>
          (\<forall>recover. ntfs_boot_sector_read io recover read_only nr_blocks dev' = Some (Inr bs, dev'))))"
proof -
  note read = boot_sector_read_eq [OF assms]
  have n: "nr_blocks \<noteq> 1" "nr_blocks div 2 \<noteq> 0" using assms(2) by auto
  have again: "ntfs_boot_sector_read io rec read_only nr_blocks d = Some (Inr (d 0), d)"
    if "no_errors io" "boot_block_valid (d 0)" "\<forall>n. 80 \<le> length (d n)" for rec d
    using that unfolding boot_sector_read_eq [OF that(3) assms(2)] by (simp add: boot_block_def no_errors_def)
  have fixed: "ntfs_boot_sector_read io rec read_only nr_blocks (dev(0 := dev k)) = Some (Inr (dev k), dev(0 := dev k))"
    if "no_errors io" "boot_block_valid (dev k)" for rec k
    using again [of "dev(0 := dev k)"] that assms(1) by simp
  have ok: "boot_readable io k \<and> bwrite_err io k = EOK" if "no_errors io" for k
    using that by (simp add: no_errors_def boot_readable_def)
  note usable = boot_block_usable [where io = io and dev = dev and n = 0] read_backup_usable [of io dev nr_blocks read_only]
  consider (primary) "boot_usable io dev 0" | (invalid) "\<not> boot_usable io dev 0" "boot_readable io 0"
    | (unreadable) "\<not> boot_usable io dev 0" "\<not> boot_readable io 0"
    by blast
  then show ?thesis
  proof cases
    case primary
    then show ?thesis using again [of dev] assms(1) by (simp add: read usable(1) boot_usable_def)
  next
    case invalid
    then show ?thesis
      using usable(4-6) [of True] fixed ok n
      by (cases recover; cases "boot_usable io dev (nr_blocks - 1)"; cases "boot_usable io dev (nr_blocks div 2)")
        (auto simp: read usable(2) hotfix_primary_def boot_usable_def)
  next
    case unreadable
    then obtain err where "err \<noteq> EOK" "boot_block io dev 0 = Inl err" using usable(3) by blast
    then show ?thesis
      using usable(4-6) [of False] ok unreadable n
      by (cases recover; cases "boot_usable io dev (nr_blocks - 1)"; cases "boot_usable io dev (nr_blocks div 2)")
        (auto simp: read hotfix_primary_def boot_usable_def)
  qed
qed

theorem boot_sector_read_recovers_witness:
  "let io = \<lparr>bread_err = (\<lambda>b. EOK), bmap_err = (\<lambda>b. EOK), bwrite_err = (\<lambda>b. EOK)\<rparr>;
       dev = (\<lambda>n. if n = 99 then small_boot else replicate 512 0)
   in \<exists>dev'. ntfs_boot_sector_read io True False 100 dev = Some (Inr small_boot, dev') \<and>
     ntfs_boot_sector_read io False False 100 dev' = Some (Inr small_boot, dev')"
proof -
  let ?io = "\<lparr>bread_err = (\<lambda>b. EOK), bmap_err = (\<lambda>b. EOK), bwrite_err = (\<lambda>b. EOK)\<rparr>"
  let ?dev = "\<lambda>n :: int. if n = 99 then small_boot else replicate 512 (0 :: u8)"
  have zero: "\<not> boot_block_valid (replicate 512 0)"
    by (simp add: boot_block_valid_def boot_sector_at_def rd16_def rd32_def rd64_def rd_def ntfs_boot_sector_is_valid_def)
  have boot: "boot_block_valid small_boot" by (simp add: boot_block_valid_def small_boot_at small_bs_valid)
  have len: "\<forall>n. 80 \<le> length (?dev n)" by (simp add: small_boot_def)
  show ?thesis
    using boot_sector_read_recovers [OF len, of 100 ?io True False] zero boot
    by (auto simp: no_errors_def Let_def boot_usable_def boot_readable_def)
qed

end
