(* ===== verification/Spec2Isabelle.thy ===== *)
theory Spec2Isabelle
  imports NTFS_Upcase NTFS_Index_Lookup NTFS_Mst NTFS_Runlist_Truncate NTFS_Runlist_Punch NTFS_Mapping_Pairs_Read NTFS_Compress_Memory NTFS_Compress_Read NTFS_Logfile NTFS_Files NTFS_Boot
begin

text \<open>
  A model of the data structures and algorithms of the NTFS kernel extension under \<open>src/kext\<close>, with
  proofs of what makes them correct.

  \<^bold>\<open>The program.\<close> An NTFS volume is an array of clusters. The boot sector gives its geometry; the bitmap
  has a bit per cluster, set if the cluster is in use. The data of a file is an attribute whose
  \<^emph>\<open>runlist\<close> maps virtual cluster numbers to clusters of the volume; on disk a runlist is stored as a
  \<^emph>\<open>mapping pairs array\<close>. Records on disk are protected against torn writes by an update sequence array.
  Data may be compressed in blocks. Directories and the indexes of system files are B+ trees of entries
  sorted by a collation rule. The journal has restart pages that tell whether the volume is clean.

  \<^bold>\<open>How the code is modelled.\<close> A buffer of C is a list, a structure a record, an enumeration a datatype. A
  function returns an \<open>option\<close>: \<open>None\<close> stands for a panic, an access outside a buffer, undefined behaviour,
  or not coming back. The errno is a value of type \<open>errno\<close>, \<open>EOK\<close> for 0, and a function that changes a
  structure returns it updated. Numbers of 64 bits are \<open>int\<close> where the code keeps them small, and are
  wrapped with \<open>s64\<close>, \<open>s8\<close>, \<open>uwrap\<close> or kept as words where they come from the disk. Services of the
  kernel are parameters: memory that may be refused (\<open>rl_alloc\<close>), pages that may fail to be mapped
  (\<open>map_err\<close>), blocks of a device that may fail to be read or written (\<open>io\<close>). What is assumed of them is a
  named predicate such as \<open>alloc_ok\<close>. Locks and messages have no counterpart.

  \<^bold>\<open>The theories.\<close>

  \<^item> \<open>NTFS_Prelude\<close>: error numbers, reading and writing of buffers, wrap-around, shared lemmas.

  \<^item> \<open>NTFS_Mst\<close> (\<open>ntfs_mst.c\<close>): the fixups of protected records. Writing and reading is a round trip, a
    torn write is detected, and exactly one position of the update sequence array leaves the record.

  \<^item> \<open>NTFS_Runlist\<close>, \<open>NTFS_Runlist_Truncate\<close>, \<open>NTFS_Runlist_Punch\<close>, \<open>NTFS_Runlist_Merge\<close>,
    \<open>NTFS_Runlist_IO\<close> (\<open>ntfs_runlist.c\<close>): the array of runs and its functions. \<open>rl_wf\<close> is the invariant and
    \<open>rl_lookup\<close> the meaning of a runlist; each function keeps the first and is specified by the second,
    with the outcome when memory is refused.

  \<^item> \<open>NTFS_Mapping_Pairs\<close>, \<open>NTFS_Mapping_Pairs_Read\<close>: the on-disk form of runlists in both directions.

  \<^item> \<open>NTFS_Bitmap\<close> (\<open>ntfs_bitmap.c\<close>): setting and clearing runs of bits over pages, with rollback.

  \<^item> \<open>NTFS_Bitcount\<close> (\<open>ntfs_vfsops.c\<close>): counting the free clusters with bit-parallel words.

  \<^item> \<open>NTFS_Lcnalloc\<close> and \<open>NTFS_Lcnalloc_Search\<close>, \<open>_Free\<close>, \<open>_Correct\<close>, \<open>_Owner\<close> (\<open>ntfs_lcnalloc.c\<close>, and
    \<open>ntfs_setup_allocators\<close> of \<open>ntfs_vfsops.c\<close>): the cluster allocator. \<open>Search\<close> has the invariant of the search over the
    zones, \<open>Free\<close> the freeing of runs, \<open>Correct\<close> the allocator as a whole, and \<open>Owner\<close> the states a volume reaches
    by allocating and freeing, through the interface \<open>cluster_pool\<close>.

  \<^item> \<open>NTFS_Boot\<close> (\<open>ntfs_vfsops.c\<close>): validation of the boot sector, recovery from its backups, geometry.

  \<^item> \<open>NTFS_Files\<close>: files as runlists in a reachable state of a volume; here, in the root theory, the
    allocator, the runlist i/o and the boot sector meet: files keep their data, allocation and freeing are
    inverse, mounting leads to a usable state.

  \<^item> \<open>NTFS_Compress\<close>, \<open>NTFS_Compress_Memory\<close>, \<open>NTFS_Compress_Read\<close> (\<open>ntfs_compress.c\<close>): LZNT1
    decompression against a reference semantics of tokens, its memory safety on arbitrary input, and
    reading a compressed file.

  \<^item> \<open>NTFS_Upcase\<close>, \<open>NTFS_Unistr\<close>, \<open>NTFS_Collate\<close> (\<open>ntfs_unistr.c\<close>, \<open>ntfs_collate.c\<close>): the upcase table, comparison of
    names, and the collation rules as orders.

  \<^item> \<open>NTFS_Index\<close>, \<open>NTFS_Index_Lookup\<close> (\<open>ntfs_index.c\<close>): the entries of index nodes and the lookup in the
    tree, proved once for every collation rule that is an order and used for directories and for numbers.

  \<^item> \<open>NTFS_Logfile\<close> (\<open>ntfs_logfile.c\<close>): the checks of restart pages and the state of the journal.

  \<^bold>\<open>Bounds and fuel.\<close> Recursive functions terminate by their measures. Loops that need not end for every
  argument are \<open>partial_function (option)\<close> definitions, and the theorems on them state that a result is
  returned. The bounds in hypotheses are those of the types (vcns and lcns below \<open>2 ^ 63\<close>, clusters below
  \<open>2 ^ 32\<close> by the check of the boot sector) and \<open>rl_max\<close>, an array size of 1.5 gigabytes that no kernel
  allocation reaches.

  \<^bold>\<open>What the proofs found.\<close> Several theorems and lemmas state behaviour the code does not intend:
  \<open>mst_pre_write_out_of_bounds_iff\<close>, \<open>cluster_alloc_loses_clusters\<close>, \<open>ntfs_rl_truncate_panics\<close>,
  \<open>nr_real_clusters_overcounts\<close>, \<open>sid_lookup_misses_entry\<close>, \<open>index_lookup_missing_root_faults\<close>,
  \<open>index_get_entries_panics\<close>, \<open>ntfs_decompress_overflows\<close>, \<open>log_client_array_leaves_page\<close>,
  \<open>bitmap_set_no_bits_panics\<close>, \<open>negative_mft_lcn_accepted\<close>, \<open>odd_sector_size_undefined\<close>,
  \<open>free_counts_lost_clusters\<close>.

  \<^bold>\<open>Not modelled.\<close> The vnode operations, paging, mounting as a sequence of VFS calls, and the life time and
  locking of inodes, which consist of calls to the kernel. The search for attributes in mft records
  and their resizing, allocation of mft records, and insertion and deletion in indexes, which work in place
  on records shared through the buffer cache between several inodes. \<open>ntfs_cluster_free\<close>, which maps the
  runlist of an inode from its mft records while it frees. The loop of \<open>ntfs_cluster_alloc\<close> that
  repeats \<open>buf_invalblkno\<close> for the blocks of the new clusters until it succeeds: it is taken to end, and
  changes no state of the model. \<open>utf8_to_ntfs\<close> and \<open>ntfs_to_utf8\<close>,
  whose work the kernel does. The user space tools \<open>src/mount\<close>, \<open>src/util\<close>, \<open>src/newfs\<close>, and the kernel
  itself under \<open>src/xnu-main\<close>, of which only \<open>memcmp\<close> is modelled, in \<open>NTFS_Collate\<close>.
\<close>

text \<open>
  C7. From the boot sector to a mounted volume. If the boot sector is valid, its sector size is a
  power of two and its mft is not at a negative cluster, then a boot sector that is accepted leads to
  a volume that can be used: setting up the zones comes to an end, the free clusters are counted, and
  the result is a state the ownership of clusters and of data by files starts from.
\<close>

theorem mount_establishes_state:
  assumes "boot_sector_at bytes = Some b" "ntfs_boot_sector_is_valid b" "bytes_per_sector b = 2 ^ k" "0 \<le> bs_mft_lcn b"
    "ntfs_boot_sector_parse ps dev_block_size b = Some (Inr g)"
    "nr_clusters vol0 = geo_nr_clusters g" "mft_lcn vol0 = geo_mft_lcn g"
    "full_pages ps bm" "8 dvd ps" "tail_ok ps bm (geo_nr_clusters g)" "\<forall>ofs. map_err ofs = EOK \<or> map_err ofs = EIO"
  shows "\<exists>vol1 vol. ntfs_setup_allocators multiplier (int (cluster_size g)) vol0 = Some vol1 \<and>
    ntfs_set_nr_free_clusters ps EOK map_err bm vol1 = Some (EOK, vol) \<and> volume_state ps vol bm Map.empty \<and>
    nr_clusters vol = number_of_sectors b div int (sectors_per_cluster b) \<and>
    ((\<forall>ofs. map_err ofs = EOK) \<longrightarrow> nr_free_clusters vol = int (card (free_clusters ps bm (nr_clusters vol))))"
proof -
  have g: "geometry_ok ps dev_block_size g" "geo_nr_clusters g = number_of_sectors b div int (sectors_per_cluster b)"
      "geo_mft_lcn g = bs_mft_lcn b"
    using parse_geometry [OF assms(2,3) boot_sector_at_s8 [OF assms(1)], of ps dev_block_size] assms(5) by simp_all
  have vol: "0 \<le> mft_lcn vol0" "mft_lcn vol0 < nr_clusters vol0" "nr_clusters vol0 < 2 ^ 63" "0 < int (cluster_size g)"
      "tail_ok ps bm (nr_clusters vol0)"
    using g(1,3) assms(4,6,7,10) by (auto simp: geometry_ok_def)
  have err: "map_err ofs = EOK \<or> map_err ofs = EIO" for ofs using assms(11) by blast
  obtain vol1 vol where m: "ntfs_setup_allocators multiplier (int (cluster_size g)) vol0 = Some vol1"
      "ntfs_set_nr_free_clusters ps EOK map_err bm vol1 = Some (EOK, vol)" "nr_clusters vol = nr_clusters vol0"
      "(\<forall>ofs. map_err ofs = EOK) \<longrightarrow> nr_free_clusters vol = int (card (free_clusters ps bm (nr_clusters vol0)))"
    by (rule mount_ok [where map_err = map_err, OF vol(1,2,4) assms(8,9) vol(5) err])
  have "volume_state ps vol bm Map.empty" by (rule volume_state.mount [OF m(1,2) vol(1-4) assms(8,9) vol(5) err])
  then show ?thesis using m g(2) assms(6) by auto
qed

theorem mount_establishes_state_witness:
  "\<exists>g bm vol1 vol. ntfs_boot_sector_parse 4096 512 small_bs = Some (Inr g) \<and> nr_clusters vol = 512 \<and>
     ntfs_setup_allocators 1 4096 (small_vol\<lparr>nr_clusters := 512\<rparr>) = Some vol1 \<and>
     ntfs_set_nr_free_clusters 4096 EOK (\<lambda>ofs. EOK) bm vol1 = Some (EOK, vol) \<and> volume_state 4096 vol bm Map.empty"
proof -
  let ?bm = "\<lambda>ofs. replicate 4096 0 :: u8 list" and ?vol = "small_vol\<lparr>nr_clusters := 512\<rparr>"
  obtain g where g: "ntfs_boot_sector_parse 4096 512 small_bs = Some (Inr g)"
      "geo_nr_clusters g = 512" "geo_mft_lcn g = 4" "cluster_size g = 4096"
    using small_bs_parse by blast
  have bm: "full_pages 4096 ?bm" by (simp add: full_pages_def)
  have zero: "\<not> in_use 4096 ?bm c" for c by (simp add: in_use_def bm_bit_def bm_byte_def)
  show ?thesis
    using mount_establishes_state [OF small_boot_at small_bs_valid, of 9 4096 512 g ?vol ?bm "\<lambda>ofs. EOK" 1] g(1) bm zero
    by (auto simp: g(2-4) small_bs_def small_vol_def tail_ok_def)
qed

text \<open>
  C1. Files keep their data. On a volume that has been mounted and then allocated clusters for
  files and freed files in any order, and that is not marked as having errors, on a device without
  i/o errors, data written from offset 0 on through the runlist of a file is read back through it, and whatever is read through the runlist
  of another file is what was read before.
\<close>

theorem files_keep_their_data:
  assumes "volume_state ps vol bm files" "\<not> vol_errors vol" "no_errors io" "vol_ok v" "\<forall>b. length (dev b) = v_sector_size v"
    "files k = Some (els r)" "vcn (hd (els r)) = 0" "files k' = Some (els r')" "vcn (hd (els r')) = 0" "k \<noteq> k'"
    "0 < sz" "int sz \<le> int (v_sector_size v) * 2 ^ blk_shift v * vcn (last (els r))" "sz \<le> length mem" "sz \<le> length dst"
  shows "\<exists>dev'. ntfs_rl_write io v dev mem (int sz) r 0 0 = Some (EOK, dev') \<and>
    ntfs_rl_read io v dev' r dst (int sz) (int sz) = Some (EOK, take sz mem @ drop sz dst) \<and>
    (\<forall>dst len init. ntfs_rl_read io v dev' r' dst len init = ntfs_rl_read io v dev r' dst len init)"
proof -
  let ?s = "blk_shift v"
  have inv: "volume_inv ps vol bm files" by (rule volume_state_inv [OF assms(1)])
  obtain xs t g where r: "rl r = xs @ t # g" "els r = xs @ [t]" "elements r \<noteq> 0" "rl_chain 0 xs (vcn t)" "rl_term t"
      "\<forall>x \<in> set xs. 0 \<le> lcn x" "run_clusters xs = file_clusters (els r)" "int (card (run_clusters xs)) = vcn t"
    by (rule file_runlist [OF volume_invD(4) [OF inv assms(6)] assms(7)])
  obtain ys u h where r': "rl r' = ys @ u # h" "rl_chain 0 ys (vcn u)" "rl_term u" "run_clusters ys = file_clusters (els r')"
    by (rule file_runlist [OF volume_invD(4) [OF inv assms(8)] assms(9)])
  have last: "vcn (last (els r)) = vcn t" unfolding r(2) by simp
  have "int sz \<le> int (v_sector_size v * length (rl_blocks ?s xs))"
    using assms(12) unfolding last of_nat_mult length_rl_blocks [OF r(4)] by (simp add: mult.assoc mult.commute [of "vcn t"])
  then have room: "sz \<le> v_sector_size v * length (rl_blocks ?s xs)" by (simp only: of_nat_le_iff)
  have dist: "distinct (rl_blocks ?s xs)" by (rule rl_blocks_distinct [OF r(4)]) (simp add: r(8))
  have dev: "length (dev b) = v_sector_size v" for b using assms(5) by blast
  obtain dev' where dev': "ntfs_rl_write io v dev mem (int sz) r 0 0 = Some (EOK, dev')"
      "ntfs_rl_read io v dev' r dst (int sz) (int sz) = Some (EOK, take sz mem @ drop sz dst)"
      "\<forall>b. b \<notin> set (rl_blocks ?s xs) \<longrightarrow> dev' b = dev b"
    using rl_write_read_spec [where dev = dev, OF assms(3,4) dev r(1,3-6) dist assms(11) room assms(13,14)] by blast
  have "file_clusters (els r) \<inter> file_clusters (els r') = {}"
    by (rule volume_inv_disjoint [OF inv assms(2,6,8,10)])
  then have same: "dev' b = dev b" if "b \<in> set (rl_blocks ?s ys)" for b
    using that dev'(3) r(7) r'(4) unfolding set_rl_blocks by blast
  have "rlen u = 0" using r'(3) by (simp add: rl_term_def)
  then have "ntfs_rl_read io v dev' r' dst len init = ntfs_rl_read io v dev r' dst len init" for dst len init
    by (rule rl_read_cong [where dev = dev, OF r'(1) _ rl_chain_pos [OF r'(2)] same])
  then show ?thesis using dev' by blast
qed

theorem files_keep_their_data_witness:
  "\<exists>vol bm files r r' dev'. volume_state 8 vol bm files \<and> files 1 = Some (els r) \<and> files 2 = Some (els r') \<and>
     (let io = \<lparr>bread_err = (\<lambda>b. EOK), bmap_err = (\<lambda>b. EOK), bwrite_err = (\<lambda>b. EOK)\<rparr>;
          v = \<lparr>v_sector_size = 2, v_sector_size_shift = 1, v_cluster_size_shift = 2\<rparr>
      in ntfs_rl_write io v (\<lambda>b. [9, 9]) [1, 2, 3, 4, 5, 6, 7] 7 r 0 0 = Some (EOK, dev') \<and>
         ntfs_rl_read io v dev' r (replicate 7 0) 7 7 = Some (EOK, [1, 2, 3, 4, 5, 6, 7]) \<and>
         ntfs_rl_read io v dev' r' [0, 0, 0] 3 2 = Some (EOK, [9, 9, 0]))"
proof -
  let ?es = "[\<lparr>vcn = 0, lcn = 28, rlen = 2\<rparr>, \<lparr>vcn = 2, lcn = LCN_ENOENT, rlen = 0\<rparr>]"
  let ?es' = "[\<lparr>vcn = 0, lcn = 6, rlen = 1\<rparr>, \<lparr>vcn = 1, lcn = LCN_ENOENT, rlen = 0\<rparr>]"
  let ?io = "\<lparr>bread_err = (\<lambda>b. EOK), bmap_err = (\<lambda>b. EOK), bwrite_err = (\<lambda>b. EOK)\<rparr>"
  let ?v = "\<lparr>v_sector_size = 2, v_sector_size_shift = 1, v_cluster_size_shift = 2\<rparr>"
  let ?r = "\<lparr>rl = ?es, elements = 2, alloc_count = 2\<rparr>" and ?r' = "\<lparr>rl = ?es', elements = 2, alloc_count = 2\<rparr>"
  obtain vol bm where s: "volume_state 8 vol bm [1 \<mapsto> ?es, 2 \<mapsto> ?es']" "\<not> vol_errors vol" by (rule two_files_state)
  obtain dev' where d: "ntfs_rl_write ?io ?v (\<lambda>b. [9, 9]) [1, 2, 3, 4, 5, 6, 7] 7 ?r 0 0 = Some (EOK, dev')"
      "ntfs_rl_read ?io ?v dev' ?r (replicate 7 0) 7 7 = Some (EOK, [1, 2, 3, 4, 5, 6, 7])"
      "ntfs_rl_read ?io ?v dev' ?r' [0, 0, 0] 3 2 = ntfs_rl_read ?io ?v (\<lambda>b. [9, 9]) ?r' [0, 0, 0] 3 2"
    using files_keep_their_data [OF s, of ?io ?v "\<lambda>b. [9, 9]" 1 ?r 2 ?r' 7 "[1, 2, 3, 4, 5, 6, 7]" "replicate 7 0"]
    by (auto simp: no_errors_def vol_ok_def)
  have "ntfs_rl_read ?io ?v (\<lambda>b. [9, 9]) ?r' [0, 0, 0] 3 2 = Some (EOK, [9, 9, 0])" by code_simp
  then show ?thesis using s(1) d
    by (intro exI [of _ vol] exI [of _ bm] exI [of _ "[1 \<mapsto> ?es, 2 \<mapsto> ?es']"] exI [of _ ?r] exI [of _ ?r'] exI [of _ dev'])
      (simp add: Let_def)
qed

text \<open>
  C6. Allocating and freeing: the clusters an allocation has given are freed again by
  \<open>ntfs_cluster_free_from_rl\<close> with the runlist it returned, which counts exactly them and leaves the
  bitmap as it was before the allocation.
\<close>

theorem alloc_free_roundtrip:
  assumes "volume_ok vol" "nr_clusters vol < 2 ^ 63" "full_pages ps bm" "env_ok ps vol env"
    "0 \<le> sv" "0 < count" "- 1 \<le> start_lcn" "start_lcn \<le> nr_clusters vol"
    "ntfs_cluster_alloc env vol bm sv count start_lcn zone ext r = Some (EOK, vol', bm', r')"
    "\<forall>l ofs. map_err l False ofs = EOK" "\<not> vol_errors vol'"
  shows "\<exists>vol'' bm''. ntfs_cluster_free_from_rl ps EOK map_err vol' bm' (rl r') sv (- 1) = Some (EOK, vol'', bm'', Some count) \<and>
    (\<forall>c. in_use ps bm'' c = in_use ps bm c) \<and> \<not> vol_errors vol''"
proof -
  obtain xs t where es: "els r' = xs @ [t]" "rl_chain sv xs (vcn t)" "rl_term t" "vcn t = sv + count"
      "\<forall>e \<in> set xs. 0 \<le> lcn e \<and> lcn e + rlen e \<le> nr_clusters vol" and g: "gives_clusters ps vol bm bm' sv count (els r')"
    by (rule alloc_call_runs [OF assms(1-9)])
  have lcns: "\<forall>e \<in> set xs. 0 \<le> lcn e" and runs: "\<forall>e \<in> set xs. LCN_HOLE \<le> lcn e \<and> lcn e + rlen e < 2 ^ 63"
    using es(5) assms(2) by (auto dest!: bspec)
  note all = all_clusters [OF es(2,3) lcns]
  have rl: "rl r' = xs @ t # drop (elements r') (rl r')" using append_take_drop_id [of "elements r'" "rl r'"] es(1) by simp
  have ok: "\<forall>l. map_err l False = (\<lambda>ofs. EOK)" using assms(10) by (auto simp: fun_eq_iff)
  have pages: "full_pages ps bm'" using alloc_call(2) [OF assms(1-9)] .
  have sv: "sv < vcn t" using es(4) assms(6) by simp
  obtain err vol'' bm'' n where f: "ntfs_cluster_free_from_rl_nolock ps map_err vol' bm' (rl r') sv (- 1) = Some (err, vol'', bm'', n)"
      "err = EOK \<longrightarrow> freed ps (run_clusters xs) (\<forall>l. map_err l False = (\<lambda>ofs. EOK)) vol' bm' vol'' bm'' \<and> n = int (card {sv..<vcn t})"
      "(\<forall>l. map_err l False = (\<lambda>ofs. EOK)) \<longrightarrow> err = EOK"
    using free_from_rl_spec [OF pages es(2,3) runs assms(5) order.refl sv, of "- 1" "vcn t" map_err vol' "drop (elements r') (rl r')"]
    unfolding all rl [symmetric] by blast
  then have err: "err = EOK" and freed: "freed ps (run_clusters xs) True vol' bm' vol'' bm''" and n: "n = count"
    using ok es(4) assms(6) by simp_all
  have img: "rl_lookup (els r') ` {sv..<sv + count} = run_clusters xs" using all by (simp add: range_clusters_def es(1,4))
  have new: "\<not> in_use ps bm c" if "c \<in> run_clusters xs" for c
    using g that unfolding gives_clusters_def img [symmetric] by blast
  have "in_use ps bm'' c = in_use ps bm c" "\<not> vol_errors vol''" for c
    using freed g assms(11) new [of c] unfolding gives_clusters_def freed_def img by blast+
  then show ?thesis using f(1) by (simp add: ntfs_cluster_free_from_rl_def err n)
qed

theorem alloc_free_roundtrip_witness:
  "\<exists>vol' bm' r' vol'' bm''. ntfs_cluster_alloc small_env small_vol small_bm 5 3 (- 1) DATA_ZONE True ntfs_rl_init = Some (EOK, vol', bm', r') \<and>
     ntfs_cluster_free_from_rl 2 EOK (\<lambda>l rollback ofs. EOK) vol' bm' (rl r') 5 (- 1) = Some (EOK, vol'', bm'', Some 3) \<and>
     (\<forall>c. in_use 2 bm'' c = in_use 2 small_bm c)"
proof -
  have "map_option (\<lambda>(err, vol, bm, r). (err, vol_errors vol))
      (ntfs_cluster_alloc small_env small_vol small_bm 5 3 (- 1) DATA_ZONE True ntfs_rl_init) = Some (EOK, False)"
    by code_simp
  then obtain vol' bm' r' where a: "ntfs_cluster_alloc small_env small_vol small_bm 5 3 (- 1) DATA_ZONE True ntfs_rl_init = Some (EOK, vol', bm', r')"
      "\<not> vol_errors vol'"
    by auto
  have "env_ok 2 small_vol small_env" using small_ok(1) by (simp add: env_ok_def small_env_def small_vol_def)
  then show ?thesis
    using alloc_free_roundtrip [OF small_ok(2,5) _ _ _ _ _ _ a(1) _ a(2), of 2 "\<lambda>l rollback ofs. EOK"] a(1) small_ok(3)
    by (auto simp: small_env_def small_vol_def)
qed

end
